(* ===== verification/Prelude.thy ===== *)
theory Prelude
  imports Main "HOL-Library.Monad_Syntax"
begin

section \<open>Prelude: the shared vocabulary of the development\<close>

text \<open>
  Generic facts the component theories share: the collections of rewrite rules, the
  option monad in which undefined behaviour of C is the value \<^const>\<open>None\<close>, checked
  list access, runs of equal elements, and the decimal rendering of integers.

  Throughout the development a C function that may execute undefined behaviour (a read or
  write outside an object, a null or dangling dereference, a signed overflow, a conversion
  out of range) returns an \<open>option\<close>: \<^const>\<open>None\<close> says that the behaviour is undefined,
  \<^const>\<open>Some\<close> carries what the function returns and the state after it.
\<close>

named_theorems monad_simps \<open>rewriting of the option monad\<close>
named_theorems mem_simps \<open>reading and writing the memory model\<close>
named_theorems fl_simps \<open>evaluation of the floating point model\<close>

subsection \<open>The option monad\<close>

definition guard :: "bool \<Rightarrow> unit option" where
  "guard b = (if b then Some () else None)"

lemma guard_True [simp, monad_simps]: "guard True = Some ()"
  by (simp add: guard_def)

lemma guard_False [simp, monad_simps]: "guard False = None"
  by (simp add: guard_def)

lemma guard_Some_iff [simp]: "guard b = Some u \<longleftrightarrow> b"
  by (simp add: guard_def)

lemma guard_bind [monad_simps]: "(guard b \<bind> f) = (if b then f () else None)"
  by (simp add: guard_def)

lemma bind_Some_iff [monad_simps]: "(m \<bind> f) = Some y \<longleftrightarrow> (\<exists>x. m = Some x \<and> f x = Some y)"
  by (cases m) auto

lemma bind_assoc_option [monad_simps]: "((m :: 'a option) \<bind> f) \<bind> g = m \<bind> (\<lambda>x. f x \<bind> g)"
  by (cases m) auto

lemma bind_SomeE [elim?]:
  assumes "(m \<bind> f) = Some y"
  obtains x where "m = Some x" and "f x = Some y"
  using assms by (cases m) auto

subsection \<open>Checked list access\<close>

definition nth_opt :: "'a list \<Rightarrow> nat \<Rightarrow> 'a option" where
  "nth_opt xs i = (if i < length xs then Some (xs ! i) else None)"

definition upd_opt :: "'a list \<Rightarrow> nat \<Rightarrow> 'a \<Rightarrow> 'a list option" where
  "upd_opt xs i v = (if i < length xs then Some (xs[i := v]) else None)"

lemma nth_opt_Some [simp]: "i < length xs \<Longrightarrow> nth_opt xs i = Some (xs ! i)"
  by (simp add: nth_opt_def)

lemma nth_opt_None [simp]: "length xs \<le> i \<Longrightarrow> nth_opt xs i = None"
  by (simp add: nth_opt_def)

lemma upd_opt_Some [simp]: "i < length xs \<Longrightarrow> upd_opt xs i v = Some (xs[i := v])"
  by (simp add: upd_opt_def)

lemma upd_opt_None [simp]: "length xs \<le> i \<Longrightarrow> upd_opt xs i v = None"
  by (simp add: upd_opt_def)

text \<open>Overwriting a stretch of a list, as \<open>memcpy\<close> and \<open>memset\<close> do.\<close>

definition splice_opt :: "'a list \<Rightarrow> nat \<Rightarrow> 'a list \<Rightarrow> 'a list option" where
  "splice_opt xs i ys =
     (if i + length ys \<le> length xs
      then Some (take i xs @ ys @ drop (i + length ys) xs) else None)"

lemma splice_opt_length: "splice_opt xs i ys = Some zs \<Longrightarrow> length zs = length xs"
  by (auto simp: splice_opt_def split: if_splits)

lemma splice_opt_nth:
  assumes "splice_opt xs i ys = Some zs" "j < length xs"
  shows "zs ! j = (if i \<le> j \<and> j < i + length ys then ys ! (j - i) else xs ! j)"
  using assms by (auto simp: splice_opt_def nth_append min_def split: if_splits)

lemma splice_opt_Some:
  "i + length ys \<le> length xs \<Longrightarrow> \<exists>zs. splice_opt xs i ys = Some zs"
  by (simp add: splice_opt_def)

lemma splice_opt_defined: "splice_opt xs i ys = None \<longleftrightarrow> length xs < i + length ys"
  by (auto simp: splice_opt_def)

text \<open>Overwriting inside one line of a text made of lines of equal length.\<close>

lemma splice_opt_concat:
  assumes "\<forall>l\<in>set ls. length l = n" "r < length ls" "k + length ys \<le> n"
  shows "splice_opt (concat ls @ z) (r * n + k) ys
    = Some (concat (ls[r := take k (ls ! r) @ ys @ drop (k + length ys) (ls ! r)]) @ z)"
  using assms
proof (induction ls arbitrary: r)
  case (Cons l ls)
  then have l: "length l = n" by simp
  show ?case
  proof (cases r)
    case 0
    with Cons.prems l show ?thesis by (simp add: splice_opt_def)
  next
    case (Suc r')
    have "splice_opt (concat ls @ z) (r' * n + k) ys
        = Some (concat (ls[r' := take k (ls ! r') @ ys @ drop (k + length ys) (ls ! r')]) @ z)"
      using Cons.IH [of r'] Cons.prems Suc by simp
    with Suc l show ?thesis by (auto simp: splice_opt_def add.assoc split: if_splits)
  qed
qed simp

lemma upd_opt_splice: "upd_opt xs i v = splice_opt xs i [v]"
  by (simp add: upd_opt_def splice_opt_def upd_conv_take_nth_drop)

subsection \<open>Counted loops\<close>

text \<open>\<open>for (k = i; k < i + n; k++)\<close> with a body that may be undefined.\<close>

primrec for_up :: "nat \<Rightarrow> nat \<Rightarrow> (nat \<Rightarrow> 'a \<Rightarrow> 'a option) \<Rightarrow> 'a \<Rightarrow> 'a option" where
  "for_up 0 i f s = Some s"
| "for_up (Suc n) i f s = f i s \<bind> for_up n (Suc i) f"

lemma for_up_inv:
  assumes "I i s" "\<And>k s. i \<le> k \<Longrightarrow> k < i + n \<Longrightarrow> I k s \<Longrightarrow> \<exists>s'. f k s = Some s' \<and> I (Suc k) s'"
  shows "\<exists>s'. for_up n i f s = Some s' \<and> I (i + n) s'"
  using assms
proof (induction n arbitrary: i s)
  case (Suc n)
  from Suc.prems obtain s1 where "f i s = Some s1" "I (Suc i) s1" by fastforce
  with Suc.IH [of "Suc i" s1] Suc.prems(2) show ?case by simp
qed simp

text \<open>The same when the state after \<open>k\<close> rounds is known.\<close>

lemma for_up_state:
  assumes "\<And>k. k < n \<Longrightarrow> f (i + k) (g k) = Some (g (Suc k))"
  shows "for_up n i f (g 0) = Some (g n)"
proof -
  have "\<exists>s'. for_up n i f (g 0) = Some s' \<and> s' = g (i + n - i)"
  proof (rule for_up_inv [where I = "\<lambda>k s. s = g (k - i)"])
    fix k s assume k: "i \<le> k" "k < i + n" "s = g (k - i)"
    with assms [of "k - i"] show "\<exists>s'. f k s = Some s' \<and> s' = g (Suc k - i)" by (simp add: Suc_diff_le)
  qed simp
  then show ?thesis by simp
qed

subsection \<open>Maps\<close>

lemma agree_on_subset: "(\<forall>a\<in>A. f a = g a) \<Longrightarrow> B \<subseteq> A \<Longrightarrow> (\<forall>a\<in>B. f a = g a)"
  by blast

end
