(* ===== verification/CString.thy ===== *)
theory CString
  imports Prelude
begin

section \<open>C strings, text pointers and output buffers\<close>

text \<open>
  The part of the C library's character handling the program uses. A \<open>const char *\<close> into
  a text is the suffix of the object from the address it holds, the terminating zero byte
  included; dereferencing the empty suffix reads past the object and is undefined
  (\<^const>\<open>None\<close>). An output buffer filled from left to right is a writer: its allocated
  size and what has been written, each write checked against the size.
\<close>

subsection \<open>Characters\<close>

abbreviation NUL :: char where "NUL \<equiv> CHR 0x00"

definition code :: "char \<Rightarrow> nat" where
  "code c = (of_char c :: nat)"

lemma code_less: "code c < 256"
  by (simp add: code_def)

lemma code_eq_iff [simp]: "code c = code d \<longleftrightarrow> c = d"
  by (simp add: code_def)

lemma code_char_of [simp]: "n < 256 \<Longrightarrow> code (char_of n) = n"
  by (simp add: code_def)

lemma char_of_code [simp]: "char_of (code c) = c"
  by (simp add: code_def)

lemma code_NUL [simp]: "code NUL = 0"
  by (simp add: code_def)

lemma code_0_iff [simp]: "code c = 0 \<longleftrightarrow> c = NUL"
  by (metis code_NUL code_eq_iff)

definition is_digit :: "char \<Rightarrow> bool" where
  "is_digit c \<longleftrightarrow> 48 \<le> code c \<and> code c \<le> 57"

definition digit_val :: "char \<Rightarrow> nat" where
  "digit_val c = code c - 48"

definition digit_char :: "nat \<Rightarrow> char" where
  "digit_char d = char_of (48 + d)"

lemma digit_char_numerals [simp]:
  "digit_char 0 = CHR ''0''" "digit_char (Suc 0) = CHR ''1''" "digit_char 1 = CHR ''1''"
  "digit_char 2 = CHR ''2''" "digit_char 3 = CHR ''3''" "digit_char 4 = CHR ''4''"
  "digit_char 5 = CHR ''5''" "digit_char 6 = CHR ''6''" "digit_char 7 = CHR ''7''"
  "digit_char 8 = CHR ''8''" "digit_char 9 = CHR ''9''"
  by code_simp+

lemma is_digit_digit_char [simp]: "d < 10 \<Longrightarrow> is_digit (digit_char d)"
  by (simp add: is_digit_def digit_char_def)

lemma digit_val_char [simp]: "d < 10 \<Longrightarrow> digit_val (digit_char d) = d"
  by (simp add: digit_val_def digit_char_def)

lemma digit_val_less: "is_digit c \<Longrightarrow> digit_val c < 10"
  unfolding is_digit_def digit_val_def by linarith

lemma digit_char_inj: "a < 10 \<Longrightarrow> b < 10 \<Longrightarrow> digit_char a = digit_char b \<longleftrightarrow> a = b"
  by (metis digit_val_char)

lemma digit_char_0_iff: "d < 10 \<Longrightarrow> digit_char d = CHR ''0'' \<longleftrightarrow> d = 0"
  using digit_char_inj [of d 0] by simp

text \<open>\<open>tolower\<close> of the C locale.\<close>

definition c_tolower :: "char \<Rightarrow> char" where
  "c_tolower c = (if 65 \<le> code c \<and> code c \<le> 90 then char_of (code c + 32) else c)"

lemma code_c_tolower:
  "code (c_tolower c) = (if 65 \<le> code c \<and> code c \<le> 90 then code c + 32 else code c)"
  by (simp add: c_tolower_def)

lemma c_tolower_NUL_iff [simp]: "c_tolower c = NUL \<longleftrightarrow> c = NUL"
proof -
  have "code (c_tolower c) = 0 \<longleftrightarrow> code c = 0" by (auto simp: code_c_tolower simp del: code_0_iff)
  then show ?thesis by (simp only: code_0_iff)
qed

text \<open>
  The value of a \<open>char\<close> promoted to \<open>int\<close>, for the signed \<open>char\<close> of the x86 build.
\<close>

definition schar :: "char \<Rightarrow> int" where
  "schar c = (if code c < 128 then int (code c) else int (code c) - 256)"

lemma schar_bounds: "- 128 \<le> schar c" "schar c < 128"
  using code_less [of c] by (auto simp: schar_def)

definition char_of_schar :: "int \<Rightarrow> char" where
  "char_of_schar i = char_of (nat (i mod 256))"

lemma char_of_schar_schar [simp]: "char_of_schar (schar c) = c"
proof -
  have "schar c mod 256 = int (code c)"
  proof (cases "code c < 128")
    case True
    then show ?thesis by (simp add: schar_def)
  next
    case False
    then have "schar c mod 256 = (int (code c) + (- 1) * 256) mod 256" by (simp add: schar_def)
    also have "\<dots> = int (code c) mod 256" by (rule mod_mult_self1)
    finally show ?thesis using code_less [of c] by simp
  qed
  then have "nat (schar c mod 256) = code c" by simp
  then show ?thesis by (simp add: char_of_schar_def)
qed

subsection \<open>Text pointers\<close>

text \<open>
  A \<open>const char *\<close>: null, or the rest of the object it points into.
\<close>

datatype cptr = Null | Ptr string

definition deref :: "string \<Rightarrow> char option" where
  "deref s = (case s of [] \<Rightarrow> None | c # _ \<Rightarrow> Some c)"

lemma deref_simps [simp]: "deref [] = None" "deref (c # s) = Some c"
  by (simp_all add: deref_def)

lemma deref_Some_iff: "deref s = Some c \<longleftrightarrow> (\<exists>r. s = c # r)"
  by (cases s) auto

text \<open>Advancing by \<open>k\<close> is defined up to one past the end of the object.\<close>

definition advance :: "nat \<Rightarrow> string \<Rightarrow> string option" where
  "advance k s = (if k \<le> length s then Some (drop k s) else None)"

lemma advance_0 [simp]: "advance 0 s = Some s"
  by (simp add: advance_def)

lemma advance_Suc_Cons [simp]: "advance (Suc k) (c # s) = advance k s"
  by (simp add: advance_def)

lemma advance_numeral_Cons [simp]:
  "advance (numeral k) (c # s) = advance (pred_numeral k) s"
  by (simp add: numeral_eq_Suc)

lemma advance_append [simp]: "advance (length xs) (xs @ ys) = Some ys"
  by (simp add: advance_def)

text \<open>The bytes before the first zero; undefined when there is none.\<close>

fun c_str :: "string \<Rightarrow> string option" where
  "c_str [] = None"
| "c_str (c # s) = (if c = NUL then Some [] else map_option ((#) c) (c_str s))"

definition terminated :: "string \<Rightarrow> string" where
  "terminated s = s @ [NUL]"

lemma c_str_append: "NUL \<notin> set s \<Longrightarrow> c_str (s @ NUL # r) = Some s"
  by (induction s) auto

lemma c_str_terminated: "NUL \<notin> set s \<Longrightarrow> c_str (terminated s) = Some s"
  by (simp add: terminated_def c_str_append)

lemma c_str_Some_iff:
  "c_str t = Some s \<longleftrightarrow> NUL \<notin> set s \<and> (\<exists>r. t = s @ NUL # r)"
proof (induction t arbitrary: s)
  case Nil
  then show ?case by simp
next
  case (Cons c t)
  show ?case by (cases s) (auto simp: Cons.IH)
qed

text \<open>\<open>strncmp (p, lit, n) == 0\<close> for a literal \<open>lit\<close> of \<open>n\<close> bytes.\<close>

fun strncmp_eq :: "string \<Rightarrow> string \<Rightarrow> bool option" where
  "strncmp_eq p [] = Some True"
| "strncmp_eq [] (l # ls) = None"
| "strncmp_eq (c # p) (l # ls) =
     (if c \<noteq> l then Some False else if c = NUL then Some True else strncmp_eq p ls)"

lemma strncmp_eq_prefix: "NUL \<notin> set l \<Longrightarrow> strncmp_eq (l @ r) l = Some True"
  by (induction l) auto

lemma strncmp_eq_True: "NUL \<notin> set l \<Longrightarrow> strncmp_eq p l = Some True \<Longrightarrow> \<exists>r. p = l @ r"
  by (induction p l rule: strncmp_eq.induct) (auto split: if_splits)

text \<open>\<open>strcasecmp\<close>, \<open>0\<close> exactly when the strings agree up to letter case.\<close>

definition same_nocase :: "string \<Rightarrow> string \<Rightarrow> bool" where
  "same_nocase a b \<longleftrightarrow> map c_tolower a = map c_tolower b"

lemma same_nocase_refl [simp]: "same_nocase a a"
  by (simp add: same_nocase_def)

lemma same_nocase_sym: "same_nocase a b \<Longrightarrow> same_nocase b a"
  by (simp add: same_nocase_def)

text \<open>
  \<open>strncpy (dst, src, n)\<close> into a \<open>char[n]\<close> field: at most \<open>n\<close> bytes, padded with zeros;
  a source of \<open>n\<close> bytes or more leaves the field without a terminator.
\<close>

definition strncpy_field :: "nat \<Rightarrow> string \<Rightarrow> string" where
  "strncpy_field n src = take n src @ replicate (n - length src) NUL"

lemma length_strncpy_field [simp]: "length (strncpy_field n src) = n"
  by (simp add: strncpy_field_def)

lemma c_str_strncpy_field:
  assumes "NUL \<notin> set src" "length src < n"
  shows "c_str (strncpy_field n src) = Some src"
proof -
  obtain k where "n - length src = Suc k" using assms(2) by (cases "n - length src") auto
  with assms show ?thesis by (simp add: strncpy_field_def c_str_append)
qed

lemma c_str_strncpy_field_full:
  assumes "NUL \<notin> set src" "n \<le> length src"
  shows "c_str (strncpy_field n src) = None"
proof -
  have "NUL \<notin> set (take n src)" using assms(1) by (meson in_set_takeD)
  moreover have "NUL \<notin> set s \<Longrightarrow> c_str s = None" for s by (induction s) auto
  ultimately show ?thesis using assms(2) by (simp add: strncpy_field_def)
qed

subsection \<open>Decimal and hexadecimal rendering\<close>

fun dec :: "nat \<Rightarrow> string" where
  "dec n = (if n < 10 then [digit_char n] else dec (n div 10) @ [digit_char (n mod 10)])"

declare dec.simps [simp del]

definition dec_int :: "int \<Rightarrow> string" where
  "dec_int i = (if i < 0 then CHR ''-'' # dec (nat (- i)) else dec (nat i))"

definition undec :: "string \<Rightarrow> nat" where
  "undec s = foldl (\<lambda>n c. 10 * n + digit_val c) 0 s"

lemma dec_nonempty [simp]: "dec n \<noteq> []"
  by (subst dec.simps) simp

lemma dec_digits: "list_all is_digit (dec n)"
proof (induction n rule: dec.induct)
  case (1 n)
  then show ?case by (subst dec.simps) auto
qed

lemma undec_dec [simp]: "undec (dec n) = n"
proof (induction n rule: dec.induct)
  case (1 n)
  then show ?case by (subst dec.simps) (auto simp: undec_def)
qed

lemma dec_inj: "dec a = dec b \<Longrightarrow> a = b"
  by (metis undec_dec)

lemma dec_no_NUL: "NUL \<notin> set (dec n)"
  using dec_digits [of n] by (auto simp: list_all_iff is_digit_def)

lemma dec_int_no_NUL: "NUL \<notin> set (dec_int i)"
  using dec_no_NUL by (auto simp: dec_int_def)

lemma dec_length_le: "n < 10 ^ k \<Longrightarrow> 0 < k \<Longrightarrow> length (dec n) \<le> k"
proof (induction n arbitrary: k rule: dec.induct)
  case (1 n)
  show ?case
  proof (cases "n < 10")
    case True
    with 1 show ?thesis by (subst dec.simps) simp
  next
    case False
    with 1(2) have "1 < k"
      by (metis less_one linorder_neqE_nat power_one_right 1(3) not_less_zero)
    then obtain j where j: "k = Suc j" "0 < j" by (cases k) auto
    then have "n div 10 < 10 ^ j" using 1(2) by (auto simp: less_mult_imp_div_less mult.commute)
    with 1(1) False j have "length (dec (n div 10)) \<le> j" by blast
    with False j show ?thesis by (subst dec.simps) simp
  qed
qed

lemma hd_dec: "0 < n \<Longrightarrow> hd (dec n) \<noteq> CHR ''0''"
proof (induction n rule: dec.induct)
  case (1 n)
  show ?case
  proof (cases "n < 10")
    case True
    then show ?thesis using 1(2) by (subst dec.simps) (simp add: digit_char_0_iff)
  next
    case False
    with 1 have "hd (dec (n div 10)) \<noteq> CHR ''0''" by auto
    with False show ?thesis by (subst dec.simps) simp
  qed
qed

lemma dec_0 [simp]: "dec 0 = ''0''"
  by code_simp

text \<open>Left padding of a number with zeros, and two-digit lower case hexadecimal.\<close>

definition pad_left :: "char \<Rightarrow> nat \<Rightarrow> string \<Rightarrow> string" where
  "pad_left c w s = replicate (w - length s) c @ s"

definition pad_right :: "nat \<Rightarrow> string \<Rightarrow> string" where
  "pad_right w s = s @ replicate (w - length s) CHR '' ''"

definition hex_digit :: "nat \<Rightarrow> char" where
  "hex_digit d = (if d < 10 then char_of (48 + d) else char_of (87 + d))"

definition hex02 :: "nat \<Rightarrow> string" where
  "hex02 n = [hex_digit (n div 16), hex_digit (n mod 16)]"

lemma length_pad_left: "length (pad_left c w s) = max w (length s)"
  by (auto simp: pad_left_def)

lemma code_hex_digit: "d < 16 \<Longrightarrow> code (hex_digit d) = (if d < 10 then 48 + d else 87 + d)"
  by (simp add: hex_digit_def)

subsection \<open>Output buffers filled from left to right\<close>

text \<open>
  A writer is an allocated size and the bytes written so far: the write cursor of the C
  code is the end of the written part.
\<close>

type_synonym writer = "nat \<times> string"

definition emit :: "string \<Rightarrow> writer \<Rightarrow> writer option" where
  "emit s w = (case w of (cap, out) \<Rightarrow>
     if length out + length s \<le> cap then Some (cap, out @ s) else None)"

text \<open>
  \<open>strcpy\<close> or \<open>sprintf\<close> at the cursor: the terminating zero needs room too, the cursor
  then moves over the bytes before it.
\<close>

definition emit_str :: "string \<Rightarrow> writer \<Rightarrow> writer option" where
  "emit_str s w = (case w of (cap, out) \<Rightarrow>
     if length out + length s + 1 \<le> cap then Some (cap, out @ s) else None)"

lemma emit_fits: "length out + length s \<le> cap \<Longrightarrow> emit s (cap, out) = Some (cap, out @ s)"
  by (simp add: emit_def)

lemma emit_str_fits:
  "length out + length s < cap \<Longrightarrow> emit_str s (cap, out) = Some (cap, out @ s)"
  by (simp add: emit_str_def)

lemma emit_Some_iff:
  "emit s (cap, out) = Some w \<longleftrightarrow> length out + length s \<le> cap \<and> w = (cap, out @ s)"
  by (auto simp: emit_def)

lemma emit_str_Some_iff:
  "emit_str s (cap, out) = Some w \<longleftrightarrow> length out + length s < cap \<and> w = (cap, out @ s)"
  by (auto simp: emit_str_def)

end
