(* ===== verification/CFloat.thy ===== *)
theory CFloat
  imports CString Complex_Main
begin

section \<open>IEEE-754 arithmetic\<close>

text \<open>
  The floating point the program computes with: \<open>float\<close> is binary32 and \<open>double\<close> is
  binary64, rounded to nearest with ties to even, as the targets of the makefiles (x86-64
  with SSE, ARM) do. A finite value carries its sign and its magnitude as an exact
  rational, so every operation is the exact operation on rationals followed by one
  rounding; signed zeros, infinities and NaN are values. The conversions of \<open>printf\<close>
  the program uses (\<open>%f\<close>, \<open>%.1f\<close>, \<open>%.0f\<close>, \<open>%e\<close>) round the exact value, as glibc
  does. \<open>pow (10, k)\<close> is the correctly rounded power. Not modelled: the sign and the
  payload of a NaN.
\<close>

datatype fl = NaN | Inf bool | Fin bool rat

record fmt =
  prec :: nat
  emin :: int
  emax :: int

definition binary32 :: fmt where
  "binary32 = \<lparr>prec = 24, emin = - 149, emax = 104\<rparr>"

definition binary64 :: fmt where
  "binary64 = \<lparr>prec = 53, emin = - 1074, emax = 971\<rparr>"

subsection \<open>Powers of two, logarithms, rounding to an integer\<close>

definition p2 :: "int \<Rightarrow> rat" where
  "p2 e = (if 0 \<le> e then 2 ^ nat e else 1 / 2 ^ nat (- e))"

lemma p2_pos [simp]: "0 < p2 e"
  by (simp add: p2_def)

lemma p2_nonneg [simp]: "0 \<le> p2 e"
  by (simp add: p2_def)

lemma p2_nz [simp]: "p2 e \<noteq> 0"
  by (simp add: p2_def)

lemma p2_0 [simp]: "p2 0 = 1"
  by (simp add: p2_def)

lemma p2_Suc: "p2 (e + 1) = 2 * p2 e"
proof (cases "0 \<le> e")
  case True
  then have "nat (e + 1) = Suc (nat e)" by simp
  with True show ?thesis by (simp add: p2_def)
next
  case False
  show ?thesis
  proof (cases "e = - 1")
    case True
    then show ?thesis by (simp add: p2_def)
  next
    case neq: False
    with False have "nat (- e) = Suc (nat (- (e + 1)))" by simp
    with False neq show ?thesis by (simp add: p2_def)
  qed
qed

lemma p2_add_nat: "p2 (e + int k) = 2 ^ k * p2 e"
proof (induction k)
  case 0
  then show ?case by simp
next
  case (Suc k)
  have "p2 (e + int (Suc k)) = p2 ((e + int k) + 1)" by (simp add: algebra_simps)
  also have "\<dots> = 2 * p2 (e + int k)" by (rule p2_Suc)
  finally show ?case using Suc by simp
qed

lemma p2_add: "p2 (a + b) = p2 a * p2 b"
proof (cases "0 \<le> b")
  case True
  then show ?thesis using p2_add_nat [of a "nat b"] by (simp add: p2_def)
next
  case False
  then have "p2 a = 2 ^ nat (- b) * p2 (a + b)"
    using p2_add_nat [of "a + b" "nat (- b)"] by simp
  with False show ?thesis by (simp add: p2_def)
qed

lemma p2_mono: "a \<le> b \<Longrightarrow> p2 a \<le> p2 b"
proof -
  assume "a \<le> b"
  then have "p2 b = 2 ^ nat (b - a) * p2 a" using p2_add_nat [of a "nat (b - a)"] by simp
  then show ?thesis by simp
qed

lemma p2_less_iff: "p2 a < p2 b \<longleftrightarrow> a < b"
proof
  assume "p2 a < p2 b"
  then show "a < b" using p2_mono [of b a] by (cases "a < b") auto
next
  assume "a < b"
  then have "p2 (a + 1) \<le> p2 b" by (intro p2_mono) simp
  then show "p2 a < p2 b" using p2_pos [of a] by (simp only: p2_Suc)
qed

text \<open>The number of base \<open>b\<close> digits of a natural number (0 for 0).\<close>

fun ndig :: "nat \<Rightarrow> nat \<Rightarrow> nat" where
  "ndig b n = (if n = 0 \<or> b < 2 then 0 else Suc (ndig b (n div b)))"

declare ndig.simps [simp del]

lemma ndig_bounds: "2 \<le> b \<Longrightarrow> 0 < n \<Longrightarrow> b ^ (ndig b n - 1) \<le> n \<and> n < b ^ ndig b n \<and> 0 < ndig b n"
proof (induction b n rule: ndig.induct)
  case (1 b n)
  have e: "ndig b n = Suc (ndig b (n div b))" using 1(2,3) by (subst ndig.simps) simp
  show ?case
  proof (cases "n div b = 0")
    case True
    then have "n < b" using 1(2) by (simp add: div_eq_0_iff)
    moreover have "ndig b (n div b) = 0" using True by (subst ndig.simps) simp
    ultimately show ?thesis using 1(3) e by simp
  next
    case False
    then have IH: "b ^ (ndig b (n div b) - 1) \<le> n div b" "n div b < b ^ ndig b (n div b)"
      "0 < ndig b (n div b)" using 1 by auto
    then obtain k where k: "ndig b (n div b) = Suc k" by (cases "ndig b (n div b)") auto
    have "b ^ Suc k \<le> n"
    proof -
      have "b * b ^ k \<le> b * (n div b)" using IH(1) k by simp
      also have "\<dots> \<le> n" by (rule times_div_less_eq_dividend)
      finally show ?thesis by simp
    qed
    moreover have "n < b ^ Suc (Suc k)"
      using IH(2) k 1(2) by (simp add: div_less_iff_less_mult mult.commute mult.assoc)
    ultimately show ?thesis using e k by simp
  qed
qed

text \<open>The base \<open>b\<close> logarithm of a positive rational, rounded down.\<close>

definition ilog :: "nat \<Rightarrow> rat \<Rightarrow> int" where
  "ilog b q = (if 1 \<le> q then int (ndig b (nat \<lfloor>q\<rfloor>)) - 1
               else - int (ndig b (nat (\<lceil>1 / q\<rceil> - 1))))"

lemma ilog2_bounds:
  assumes "0 < q"
  shows "p2 (ilog 2 q) \<le> q \<and> q < p2 (ilog 2 q + 1)"
proof (cases "1 \<le> q")
  case True
  define n where "n = nat \<lfloor>q\<rfloor>"
  define k where "k = ndig 2 n"
  have f1: "1 \<le> \<lfloor>q\<rfloor>" using True by simp
  then have fn: "(of_nat n :: rat) = of_int \<lfloor>q\<rfloor>" by (simp add: n_def)
  have n: "of_nat n \<le> q" "q < of_nat n + 1" "0 < n"
    using f1 floor_correct [of q] unfolding fn by (simp_all add: n_def)
  have b: "2 ^ (k - 1) \<le> n" "n < 2 ^ k" "0 < k"
    using ndig_bounds [of 2 n] n(3) by (auto simp: k_def)
  obtain j where j: "k = Suc j" using b(3) by (cases k) auto
  have "of_nat (2 ^ j) \<le> (of_nat n :: rat)" using b(1) j by (simp only: of_nat_le_iff diff_Suc_1)
  then have "of_nat (2 ^ j) \<le> q" using n(1) by (rule order_trans)
  then have l: "2 ^ j \<le> q" by simp
  have "(of_nat (Suc n) :: rat) \<le> of_nat (2 ^ k)" using b(2) by (simp only: of_nat_le_iff Suc_leI)
  then have u: "q < 2 ^ Suc j" using n(2) j by simp
  have "ilog 2 q = int j" using True j by (simp add: ilog_def k_def n_def)
  moreover have "p2 (int j + 1) = 2 ^ Suc j" by (simp add: p2_def nat_add_distrib)
  ultimately show ?thesis using l u by (simp add: p2_def)
next
  case False
  define n where "n = nat (\<lceil>1 / q\<rceil> - 1)"
  define k where "k = ndig 2 n"
  have gt: "1 < 1 / q" using False assms by (simp add: field_simps)
  then have c: "2 \<le> \<lceil>1 / q\<rceil>" by linarith
  then have n: "of_nat n < 1 / q" "1 / q \<le> of_nat n + 1" "0 < n"
    by (simp_all add: n_def) linarith+
  have b: "2 ^ (k - 1) \<le> n" "n < 2 ^ k" "0 < k"
    using ndig_bounds [of 2 n] n(3) by (auto simp: k_def)
  have u: "1 / q \<le> 2 ^ k"
  proof -
    have "(of_nat n + 1 :: rat) \<le> of_nat (2 ^ k)"
      using b(2) by (metis Suc_leI of_nat_Suc of_nat_le_iff add.commute)
    then show ?thesis using n(2) by simp
  qed
  have l: "2 ^ (k - 1) < 1 / q"
  proof -
    have "of_nat (2 ^ (k - 1)) \<le> (of_nat n :: rat)" using b(1) by (simp only: of_nat_le_iff)
    then have "of_nat (2 ^ (k - 1)) < 1 / q" using n(1) by (rule le_less_trans)
    then show ?thesis by simp
  qed
  have "ilog 2 q = - int k" using False by (simp add: ilog_def k_def n_def)
  moreover have "p2 (- int k) = 1 / 2 ^ k" using b(3) by (simp add: p2_def)
  moreover have "p2 (- int k + 1) = 1 / 2 ^ (k - 1)"
    using b(3) by (cases k) (auto simp: p2_def)
  moreover have "1 / 2 ^ k \<le> q" using u assms by (simp add: field_simps)
  moreover have "q < 1 / 2 ^ (k - 1)" using l assms by (simp add: field_simps)
  ultimately show ?thesis by simp
qed

text \<open>Evaluation of the rounding functions on numerals.\<close>

lemma floor_rat_numeral [fl_simps]:
  "\<lfloor>numeral a / numeral b :: rat\<rfloor> = numeral a div numeral b"
  "\<lfloor>1 / numeral b :: rat\<rfloor> = 1 div numeral b"
  using floor_divide_of_int_eq [of "numeral a" "numeral b", where 'a = rat]
    floor_divide_of_int_eq [of 1 "numeral b", where 'a = rat] by simp_all

lemma ceiling_rat_numeral [fl_simps]:
  "\<lceil>numeral a / numeral b :: rat\<rceil> = - (- numeral a div numeral b)"
  "\<lceil>1 / numeral b :: rat\<rceil> = - (- 1 div numeral b)"
  using ceiling_divide_eq_div [of "numeral a" "numeral b", where 'a = rat]
    ceiling_divide_eq_div [of 1 "numeral b", where 'a = rat] by simp_all

text \<open>Round to nearest integer, ties to even.\<close>

definition rne :: "rat \<Rightarrow> int" where
  "rne x = (let f = \<lfloor>x\<rfloor>; r = x - of_int f in
     if r < 1 / 2 then f else if 1 / 2 < r then f + 1 else if even f then f else f + 1)"

lemma rne_of_int [simp]: "rne (of_int i) = i"
  by (simp add: rne_def)

lemma rne_error: "\<bar>of_int (rne x) - x\<bar> \<le> 1 / 2"
proof -
  have "of_int \<lfloor>x\<rfloor> \<le> x" "x < of_int \<lfloor>x\<rfloor> + 1" using floor_correct [of x] by simp_all
  then show ?thesis by (auto simp: rne_def Let_def)
qed

lemma rne_nonneg: "0 \<le> x \<Longrightarrow> 0 \<le> rne x"
  by (simp add: rne_def Let_def)

lemma rne_mono: "x \<le> y \<Longrightarrow> rne x \<le> rne y"
proof -
  assume le: "x \<le> y"
  have fx: "of_int \<lfloor>x\<rfloor> \<le> x" "x < of_int \<lfloor>x\<rfloor> + 1"
    using floor_correct [of x] by simp_all
  have fy: "of_int \<lfloor>y\<rfloor> \<le> y" "y < of_int \<lfloor>y\<rfloor> + 1"
    using floor_correct [of y] by simp_all
  have m: "\<lfloor>x\<rfloor> \<le> \<lfloor>y\<rfloor>" using le by (rule floor_mono)
  show ?thesis
  proof (cases "\<lfloor>x\<rfloor> = \<lfloor>y\<rfloor>")
    case True
    then show ?thesis using le by (auto simp: rne_def Let_def)
  next
    case False
    then have "\<lfloor>x\<rfloor> + 1 \<le> \<lfloor>y\<rfloor>" using m by simp
    then show ?thesis by (auto simp: rne_def Let_def)
  qed
qed

subsection \<open>Rounding to a format\<close>

definition fround :: "fmt \<Rightarrow> bool \<Rightarrow> rat \<Rightarrow> fl" where
  "fround f s q =
     (if q = 0 then Fin s 0
      else let e = max (emin f) (ilog 2 q - int (prec f) + 1);
               r = of_int (rne (q / p2 e)) * p2 e
           in if p2 (emax f + int (prec f)) \<le> r then Inf s else Fin s r)"

text \<open>The magnitudes a format holds exactly.\<close>

definition representable :: "fmt \<Rightarrow> rat \<Rightarrow> bool" where
  "representable f q \<longleftrightarrow>
     (\<exists>m e. q = of_nat m * p2 e \<and> m < 2 ^ prec f \<and> emin f \<le> e \<and> e \<le> emax f)"

lemma representable_below:
  assumes "representable f q"
  shows "q < p2 (emax f + int (prec f))"
proof -
  from assms obtain m e where q: "q = of_nat m * p2 e" "m < 2 ^ prec f" "e \<le> emax f"
    by (auto simp: representable_def)
  have "(of_nat m :: rat) < of_nat (2 ^ prec f)" using q(2) by (simp only: of_nat_less_iff)
  then have "q < 2 ^ prec f * p2 e" using q(1) by (simp add: mult_strict_right_mono)
  also have "\<dots> = p2 (e + int (prec f))" by (simp add: p2_add_nat)
  also have "\<dots> \<le> p2 (emax f + int (prec f))" using q(3) by (intro p2_mono) simp
  finally show ?thesis .
qed

text \<open>A representable magnitude is not changed by rounding.\<close>

lemma fround_exact:
  assumes rep: "representable f q"
  shows "fround f s q = Fin s q"
proof (cases "q = 0")
  case True
  then show ?thesis by (simp add: fround_def)
next
  case False
  obtain m e where q: "q = of_nat m * p2 e" and m: "m < 2 ^ prec f" and e: "emin f \<le> e"
    using rep by (auto simp: representable_def)
  have "0 \<le> q" unfolding q by (intro mult_nonneg_nonneg) simp_all
  with False have pos: "0 < q" by linarith
  define g where "g = max (emin f) (ilog 2 q - int (prec f) + 1)"
  have "g \<le> e"
  proof -
    have "(of_nat m :: rat) < of_nat (2 ^ prec f)" using m by (simp only: of_nat_less_iff)
    then have "q < 2 ^ prec f * p2 e" using q by (simp add: mult_strict_right_mono)
    also have "\<dots> = p2 (e + int (prec f))" by (simp add: p2_add_nat)
    finally have "q < p2 (e + int (prec f))" .
    with ilog2_bounds [OF pos] have "p2 (ilog 2 q) < p2 (e + int (prec f))" by linarith
    then have "ilog 2 q < e + int (prec f)" by (simp add: p2_less_iff)
    with e show ?thesis by (simp add: g_def)
  qed
  then have "p2 e = 2 ^ nat (e - g) * p2 g" using p2_add_nat [of g "nat (e - g)"] by simp
  then have i: "q / p2 g = of_int (int m * 2 ^ nat (e - g))" using q by simp
  have "of_int (rne (q / p2 g)) * p2 g = q / p2 g * p2 g"
    unfolding i by (simp only: rne_of_int)
  then have "of_int (rne (q / p2 g)) * p2 g = q" by simp
  then show ?thesis
    using False representable_below [OF rep] by (simp add: fround_def Let_def g_def)
qed

lemma representable_nat:
  assumes "n < 2 ^ prec f" "emin f \<le> 0" "0 \<le> emax f"
  shows "representable f (of_nat n)"
  unfolding representable_def using assms by (intro exI [of _ n] exI [of _ 0]) simp

lemma representable_0: "emin f \<le> 0 \<Longrightarrow> 0 \<le> emax f \<Longrightarrow> representable f 0"
  using representable_nat [of 0 f] by simp

text \<open>
  Rounding stays within half a unit in the last place for normal magnitudes.
\<close>

lemma fround_error:
  assumes "0 < q" "emin f \<le> ilog 2 q - int (prec f) + 1" "fround f s q = Fin s r"
  shows "\<bar>r - q\<bar> \<le> q / 2 ^ prec f"
proof -
  define e where "e = ilog 2 q - int (prec f) + 1"
  have r: "r = of_int (rne (q / p2 e)) * p2 e"
    using assms by (auto simp: fround_def e_def Let_def split: if_splits)
  have "r - q = (of_int (rne (q / p2 e)) - q / p2 e) * p2 e"
    unfolding r by (simp add: left_diff_distrib)
  then have "\<bar>r - q\<bar> = \<bar>of_int (rne (q / p2 e)) - q / p2 e\<bar> * p2 e"
    by (simp add: abs_mult)
  also have "\<dots> \<le> 1 / 2 * p2 e" using rne_error by (intro mult_right_mono) auto
  also have "\<dots> = p2 (ilog 2 q) / 2 ^ prec f"
  proof -
    have "2 ^ prec f * p2 e = p2 (ilog 2 q + 1)"
      using p2_add_nat [of e "prec f"] by (simp add: e_def)
    also have "\<dots> = 2 * p2 (ilog 2 q)" by (rule p2_Suc)
    finally show ?thesis by (simp add: field_simps)
  qed
  also have "\<dots> \<le> q / 2 ^ prec f"
    using ilog2_bounds [OF assms(1)] by (intro divide_right_mono) auto
  finally show ?thesis .
qed

text \<open>Rounding a given magnitude: its binary place and its rounded significand decide it.\<close>

lemma ilog2_eq:
  assumes "p2 k \<le> q" "q < p2 (k + 1)"
  shows "ilog 2 q = k"
proof -
  have "0 < q" using assms(1) p2_pos [of k] by linarith
  note b = ilog2_bounds [OF this]
  have "p2 (ilog 2 q) < p2 (k + 1)" "p2 k < p2 (ilog 2 q + 1)" using b assms by linarith+
  then show ?thesis by (simp add: p2_less_iff)
qed

lemma fround_at:
  assumes "p2 k \<le> q" "q < p2 (k + 1)" "e = k - int (prec f) + 1" "emin f \<le> e" "rne (q / p2 e) = m" "of_int m * p2 e < p2 (emax f + int (prec f))"
  shows "fround f s q = Fin s (of_int m * p2 e)"
proof -
  have "0 < q" using assms(1) p2_pos [of k] by linarith
  then show ?thesis using ilog2_eq [OF assms(1,2)] assms(3-6) by (simp add: fround_def Let_def max_def)
qed

subsection \<open>Operations\<close>

fun fval :: "fl \<Rightarrow> rat" where
  "fval (Fin s q) = (if s then - q else q)"
| "fval _ = 0"

fun is_finite :: "fl \<Rightarrow> bool" where
  "is_finite (Fin _ _) = True"
| "is_finite _ = False"

definition of_val :: "fmt \<Rightarrow> bool \<Rightarrow> rat \<Rightarrow> fl" where
  "of_val f zs v = (if v = 0 then Fin zs 0 else fround f (v < 0) \<bar>v\<bar>)"

definition of_int_fl :: "fmt \<Rightarrow> int \<Rightarrow> fl" where
  "of_int_fl f i = of_val f False (of_int i)"

fun fneg :: "fl \<Rightarrow> fl" where
  "fneg NaN = NaN"
| "fneg (Inf s) = Inf (\<not> s)"
| "fneg (Fin s q) = Fin (\<not> s) q"

fun fabs :: "fl \<Rightarrow> fl" where
  "fabs NaN = NaN"
| "fabs (Inf s) = Inf False"
| "fabs (Fin s q) = Fin False q"

fun fadd :: "fmt \<Rightarrow> fl \<Rightarrow> fl \<Rightarrow> fl" where
  "fadd f NaN _ = NaN"
| "fadd f _ NaN = NaN"
| "fadd f (Inf s) (Inf t) = (if s = t then Inf s else NaN)"
| "fadd f (Inf s) (Fin _ _) = Inf s"
| "fadd f (Fin _ _) (Inf t) = Inf t"
| "fadd f (Fin s a) (Fin t b) = of_val f (s \<and> t) (fval (Fin s a) + fval (Fin t b))"

definition fsub :: "fmt \<Rightarrow> fl \<Rightarrow> fl \<Rightarrow> fl" where
  "fsub f a b = fadd f a (fneg b)"

fun fmul :: "fmt \<Rightarrow> fl \<Rightarrow> fl \<Rightarrow> fl" where
  "fmul f NaN _ = NaN"
| "fmul f _ NaN = NaN"
| "fmul f (Inf s) (Inf t) = Inf (s \<noteq> t)"
| "fmul f (Inf s) (Fin t b) = (if b = 0 then NaN else Inf (s \<noteq> t))"
| "fmul f (Fin s a) (Inf t) = (if a = 0 then NaN else Inf (s \<noteq> t))"
| "fmul f (Fin s a) (Fin t b) = fround f (s \<noteq> t) (a * b)"

fun fdiv :: "fmt \<Rightarrow> fl \<Rightarrow> fl \<Rightarrow> fl" where
  "fdiv f NaN _ = NaN"
| "fdiv f _ NaN = NaN"
| "fdiv f (Inf s) (Inf t) = NaN"
| "fdiv f (Inf s) (Fin t b) = Inf (s \<noteq> t)"
| "fdiv f (Fin s a) (Inf t) = Fin (s \<noteq> t) 0"
| "fdiv f (Fin s a) (Fin t b) =
     (if b = 0 then (if a = 0 then NaN else Inf (s \<noteq> t)) else fround f (s \<noteq> t) (a / b))"

fun ffloor :: "fl \<Rightarrow> fl" where
  "ffloor (Fin s q) = Fin s (if s then of_int \<lceil>q\<rceil> else of_int \<lfloor>q\<rfloor>)"
| "ffloor x = x"

text \<open>Comparisons: false whenever an operand is a NaN.\<close>

fun fle :: "fl \<Rightarrow> fl \<Rightarrow> bool" where
  "fle NaN _ = False"
| "fle _ NaN = False"
| "fle (Inf s) y = (s \<or> y = Inf False)"
| "fle (Fin s a) (Inf t) = (\<not> t)"
| "fle (Fin s a) (Fin t b) = (fval (Fin s a) \<le> fval (Fin t b))"

definition flt :: "fl \<Rightarrow> fl \<Rightarrow> bool" where
  "flt x y \<longleftrightarrow> fle x y \<and> \<not> fle y x"

definition feq :: "fl \<Rightarrow> fl \<Rightarrow> bool" where
  "feq x y \<longleftrightarrow> fle x y \<and> fle y x"

text \<open>Conversion to a signed integer of \<open>w\<close> bits: truncation, undefined out of range.\<close>

definition trunc :: "rat \<Rightarrow> int" where
  "trunc v = (if v < 0 then - \<lfloor>- v\<rfloor> else \<lfloor>v\<rfloor>)"

fun to_int :: "nat \<Rightarrow> fl \<Rightarrow> int option" where
  "to_int w (Fin s q) =
     (let i = trunc (fval (Fin s q))
      in if - (2 ^ (w - 1)) \<le> i \<and> i < 2 ^ (w - 1) then Some i else None)"
| "to_int w _ = None"

text \<open>Conversion between formats.\<close>

fun fconv :: "fmt \<Rightarrow> fl \<Rightarrow> fl" where
  "fconv f (Fin s q) = fround f s q"
| "fconv f x = x"

text \<open>\<open>pow (10.0, k)\<close> for an integral exponent.\<close>

definition pow10 :: "int \<Rightarrow> fl" where
  "pow10 k = fround binary64 False (if 0 \<le> k then 10 ^ nat k else 1 / 10 ^ nat (- k))"

subsection \<open>Conversion of the output formats\<close>

definition sign_str :: "bool \<Rightarrow> string" where
  "sign_str s = (if s then ''-'' else [])"

text \<open>\<open>%.kf\<close>\<close>

definition digits_after :: "nat \<Rightarrow> nat \<Rightarrow> string" where
  "digits_after k n =
     dec (n div 10 ^ k) @ (if k = 0 then [] else CHR ''.'' # pad_left CHR ''0'' k (dec (n mod 10 ^ k)))"

fun fmt_f :: "nat \<Rightarrow> fl \<Rightarrow> string" where
  "fmt_f k NaN = ''nan''"
| "fmt_f k (Inf s) = sign_str s @ ''inf''"
| "fmt_f k (Fin s q) = sign_str s @ digits_after k (nat (rne (q * 10 ^ k)))"

text \<open>\<open>%e\<close>, six digits after the point, at least two digits of exponent\<close>

definition p10 :: "int \<Rightarrow> rat" where
  "p10 e = (if 0 \<le> e then 10 ^ nat e else 1 / 10 ^ nat (- e))"

fun fmt_e :: "fl \<Rightarrow> string" where
  "fmt_e NaN = ''nan''"
| "fmt_e (Inf s) = sign_str s @ ''inf''"
| "fmt_e (Fin s q) =
     (let x0 = (if q = 0 then 0 else ilog 10 q);
          m0 = rne (q / p10 x0 * 10 ^ 6);
          m = (if 10 ^ 7 \<le> m0 then 10 ^ 6 else m0);
          x = (if 10 ^ 7 \<le> m0 then x0 + 1 else x0)
      in sign_str s @ digits_after 6 (nat m) @ ''e'' @ (if x < 0 then ''-'' else ''+'')
         @ pad_left CHR ''0'' 2 (dec (nat \<bar>x\<bar>)))"

subsection \<open>Integral values are exact\<close>

lemma binary64_simps [simp]: "prec binary64 = 53" "emin binary64 = - 1074" "emax binary64 = 971"
  by (simp_all add: binary64_def)

lemma binary32_simps [simp]: "prec binary32 = 24" "emin binary32 = - 149" "emax binary32 = 104"
  by (simp_all add: binary32_def)

definition usual_fmt :: "fmt \<Rightarrow> bool" where
  "usual_fmt f \<longleftrightarrow> emin f \<le> 0 \<and> 0 \<le> emax f"

lemma usual_fmts [simp]: "usual_fmt binary32" "usual_fmt binary64"
  by (simp_all add: usual_fmt_def)

definition int_fl :: "int \<Rightarrow> fl" where
  "int_fl i = Fin (i < 0) (of_int \<bar>i\<bar>)"

lemma fval_int_fl [simp]: "fval (int_fl i) = of_int i"
  by (simp add: int_fl_def)

lemma representable_int: "usual_fmt f \<Longrightarrow> \<bar>i\<bar> < 2 ^ prec f \<Longrightarrow> representable f (of_int \<bar>i\<bar>)"
  using representable_nat [of "nat \<bar>i\<bar>" f]
  by (simp add: usual_fmt_def nat_less_iff)

lemma of_val_int:
  "usual_fmt f \<Longrightarrow> \<bar>i\<bar> < 2 ^ prec f \<Longrightarrow> of_val f False (of_int i) = int_fl i"
  using representable_int [of f i] fround_exact [of f "of_int \<bar>i\<bar>" "i < 0"]
  by (auto simp: of_val_def int_fl_def)

lemma of_int_fl_exact [fl_simps]:
  "usual_fmt f \<Longrightarrow> \<bar>i\<bar> < 2 ^ prec f \<Longrightarrow> of_int_fl f i = int_fl i"
  unfolding of_int_fl_def by (rule of_val_int)

lemma fadd_int [fl_simps]:
  assumes "usual_fmt f" "\<bar>i + j\<bar> < 2 ^ prec f"
  shows "fadd f (int_fl i) (int_fl j) = int_fl (i + j)"
proof (cases "i < 0 \<and> j < 0")
  case False
  then have "fadd f (int_fl i) (int_fl j) = of_val f False (of_int (i + j))"
    by (auto simp: int_fl_def)
  then show ?thesis using of_val_int [OF assms] by simp
next
  case True
  then have "i + j \<noteq> 0" by simp
  then have nz: "(of_int (i + j) :: rat) \<noteq> 0" by (simp only: of_int_eq_0_iff not_False_eq_True)
  from True have "fadd f (int_fl i) (int_fl j) = of_val f True (of_int (i + j))"
    by (simp add: int_fl_def)
  also have "\<dots> = of_val f False (of_int (i + j))" using nz by (simp add: of_val_def)
  finally show ?thesis using of_val_int [OF assms] by simp
qed

lemma fneg_int [fl_simps]: "i \<noteq> 0 \<Longrightarrow> fneg (int_fl i) = int_fl (- i)"
  by (auto simp: int_fl_def)

lemma fmul_int [fl_simps]:
  assumes "usual_fmt f" "\<bar>i * j\<bar> < 2 ^ prec f" "0 \<le> i" "0 \<le> j"
  shows "fmul f (int_fl i) (int_fl j) = int_fl (i * j)"
proof -
  have "fmul f (int_fl i) (int_fl j) = fround f False (of_int (i * j))"
    using assms(3,4) by (simp add: int_fl_def)
  also have "\<dots> = Fin False (of_int (i * j))"
    using fround_exact [OF representable_int [OF assms(1,2)]] assms(3,4) by simp
  finally show ?thesis using assms(3,4) by (auto simp: int_fl_def mult_less_0_iff)
qed

lemma fmul_int_neg [fl_simps]:
  assumes "usual_fmt f" "\<bar>i * j\<bar> < 2 ^ prec f" "i < 0" "0 < j"
  shows "fmul f (int_fl i) (int_fl j) = int_fl (i * j)"
proof -
  have neg: "i * j < 0" using assms(3,4) by (rule mult_neg_pos)
  then have ab: "\<bar>i * j\<bar> = - i * j" by simp
  have "fmul f (int_fl i) (int_fl j) = fround f True (of_int \<bar>i * j\<bar>)"
    using assms(3,4) ab by (simp add: int_fl_def)
  also have "\<dots> = Fin True (of_int \<bar>i * j\<bar>)"
    by (rule fround_exact [OF representable_int [OF assms(1,2)]])
  finally show ?thesis using neg by (simp add: int_fl_def)
qed

lemma to_int_int [fl_simps]:
  "- (2 ^ (w - 1)) \<le> i \<Longrightarrow> i < 2 ^ (w - 1) \<Longrightarrow> to_int w (int_fl i) = Some i"
  by (auto simp: int_fl_def trunc_def Let_def)

lemma pow10_0 [fl_simps]: "pow10 0 = int_fl 1"
  using fround_exact [OF representable_nat [of 1 binary64], of False]
  by (simp add: pow10_def int_fl_def)

lemma fle_int [fl_simps]: "fle (int_fl i) (int_fl j) \<longleftrightarrow> i \<le> j"
  by (auto simp: int_fl_def)

lemma feq_refl: "feq x x \<longleftrightarrow> x \<noteq> NaN"
  by (cases x) (auto simp: feq_def)

lemma feq_sym: "feq x y \<longleftrightarrow> feq y x"
  by (auto simp: feq_def)

end
