(* ===== verification/CJSON_Heap.thy ===== *)
theory CJSON_Heap
  imports CFloat
begin

unbundle bit_operations_syntax

section \<open>The cJSON node store\<close>

text \<open>
  The memory cJSON works on (\<open>common/cJSON.h\<close>, \<open>common/cJSON.c\<close>): nodes linked by
  \<open>next\<close>, \<open>prev\<close> and \<open>child\<close>, their strings, the allocator behind \<open>cJSON_malloc\<close>
  and \<open>cJSON_free\<close>, the node constructors, \<open>cJSON_strcasecmp\<close> and \<open>cJSON_Delete\<close>.
  The second half states when a region of the memory holds a list of trees (\<open>seg\<close>), with
  the frame lemmas every later theory uses, and proves that \<open>cJSON_Delete\<close> frees exactly
  the trees it is given.
\<close>

subsection \<open>Nodes and memory\<close>

type_synonym addr = nat  \<comment> \<open>0 is the null pointer\<close>

record cJSON =
  j_next :: addr
  j_prev :: addr
  j_child :: addr
  j_type :: int
  j_valuestring :: addr
  j_valueint :: int
  j_valuedouble :: fl
  j_string :: addr

definition cJSON_False :: int where "cJSON_False = 0"
definition cJSON_True :: int where "cJSON_True = 1"
definition cJSON_NULL :: int where "cJSON_NULL = 2"
definition cJSON_Number :: int where "cJSON_Number = 3"
definition cJSON_String :: int where "cJSON_String = 4"
definition cJSON_Array :: int where "cJSON_Array = 5"
definition cJSON_Object :: int where "cJSON_Object = 6"
definition cJSON_IsReference :: int where "cJSON_IsReference = 256"

lemmas cJSON_types = cJSON_False_def cJSON_True_def cJSON_NULL_def cJSON_Number_def
  cJSON_String_def cJSON_Array_def cJSON_Object_def cJSON_IsReference_def

text \<open>
  A memory cell is a node, a zero terminated string, or an array of pointers. A heap maps
  addresses to live cells; \<open>brk\<close> is the next fresh address. The allocator may fail: the
  request served at address \<open>a\<close> succeeds when \<open>room h a\<close>. \<open>ep\<close> is the global error
  pointer of the parser.
\<close>

datatype cell = Node cJSON | Buf string | Ptrs "addr list"

record heap =
  mem :: "addr \<Rightarrow> cell option"
  brk :: addr
  room :: "addr \<Rightarrow> bool"
  ep :: cptr

definition c_malloc :: "cell \<Rightarrow> heap \<Rightarrow> addr \<times> heap" where
  "c_malloc c h =
     (if room h (brk h)
      then (brk h, h\<lparr>mem := (mem h)(brk h := Some c), brk := Suc (brk h)\<rparr>)
      else (0, h\<lparr>brk := Suc (brk h)\<rparr>))"

text \<open>Freeing null does nothing; freeing a dead address is undefined.\<close>

definition c_free :: "addr \<Rightarrow> heap \<Rightarrow> heap option" where
  "c_free a h =
     (if a = 0 then Some h
      else case mem h a of None \<Rightarrow> None | Some _ \<Rightarrow> Some (h\<lparr>mem := (mem h)(a := None)\<rparr>))"

definition ld :: "addr \<Rightarrow> heap \<Rightarrow> cJSON option" where
  "ld a h = (case mem h a of Some (Node n) \<Rightarrow> Some n | _ \<Rightarrow> None)"

definition st :: "addr \<Rightarrow> cJSON \<Rightarrow> heap \<Rightarrow> heap option" where
  "st a n h = (case mem h a of Some (Node _) \<Rightarrow> Some (h\<lparr>mem := (mem h)(a := Some (Node n))\<rparr>)
                             | _ \<Rightarrow> None)"

definition ld_str :: "addr \<Rightarrow> heap \<Rightarrow> string option" where
  "ld_str a h = (case mem h a of Some (Buf s) \<Rightarrow> Some s | _ \<Rightarrow> None)"

text \<open>A possibly null string argument.\<close>

definition ld_nstr :: "addr \<Rightarrow> heap \<Rightarrow> string option option" where
  "ld_nstr a h = (if a = 0 then Some None else map_option Some (ld_str a h))"

definition heap_ok :: "heap \<Rightarrow> bool" where
  "heap_ok h \<longleftrightarrow> 0 < brk h \<and> mem h 0 = None \<and> (\<forall>a. brk h \<le> a \<longrightarrow> mem h a = None)"

subsection \<open>Hooks, comparison, construction\<close>

text \<open>The allocation hooks: the standard functions, or the caller's.\<close>

datatype 'f hook = Std | User 'f

record ('m, 'f) cJSON_Hooks =
  malloc_fn :: "'m option"
  free_fn :: "'f option"

definition cJSON_InitHooks ::
  "('m, 'f) cJSON_Hooks option \<Rightarrow> 'm hook \<times> 'f hook" where
  "cJSON_InitHooks hooks = (case hooks of
     None \<Rightarrow> (Std, Std)
   | Some k \<Rightarrow> ((case malloc_fn k of None \<Rightarrow> Std | Some m \<Rightarrow> User m),
                (case free_fn k of None \<Rightarrow> Std | Some f \<Rightarrow> User f)))"

definition cJSON_GetErrorPtr :: "heap \<Rightarrow> cptr" where
  "cJSON_GetErrorPtr h = ep h"

fun strcasecmp_loop :: "string \<Rightarrow> string \<Rightarrow> int" where
  "strcasecmp_loop (c # s) (d # t) =
     (if c_tolower c = c_tolower d then strcasecmp_loop s t
      else int (code (c_tolower c)) - int (code (c_tolower d)))"
| "strcasecmp_loop [] [] = 0"
| "strcasecmp_loop [] (d # t) = - int (code (c_tolower d))"
| "strcasecmp_loop (c # s) [] = int (code (c_tolower c))"

definition cJSON_strcasecmp :: "string option \<Rightarrow> string option \<Rightarrow> int" where
  "cJSON_strcasecmp s1 s2 = (case s1 of
     None \<Rightarrow> (if s2 = None then 0 else 1)
   | Some a \<Rightarrow> (case s2 of None \<Rightarrow> 1 | Some b \<Rightarrow> strcasecmp_loop a b))"

definition cJSON_strdup :: "string \<Rightarrow> heap \<Rightarrow> addr \<times> heap" where
  "cJSON_strdup s h = c_malloc (Buf s) h"

definition zero_node :: cJSON where
  "zero_node = \<lparr>j_next = 0, j_prev = 0, j_child = 0, j_type = 0, j_valuestring = 0,
     j_valueint = 0, j_valuedouble = Fin False 0, j_string = 0\<rparr>"

definition cJSON_New_Item :: "heap \<Rightarrow> addr \<times> heap" where
  "cJSON_New_Item h = c_malloc (Node zero_node) h"

definition is_ref :: "int \<Rightarrow> bool" where
  "is_ref t \<longleftrightarrow> t AND cJSON_IsReference \<noteq> 0"

partial_function (option) cJSON_Delete :: "addr \<Rightarrow> heap \<Rightarrow> heap option" where
  "cJSON_Delete c h =
     (if c = 0 then Some h
      else do {
        n \<leftarrow> ld c h;
        h1 \<leftarrow> (if \<not> is_ref (j_type n) \<and> j_child n \<noteq> 0 then cJSON_Delete (j_child n) h
               else Some h);
        h2 \<leftarrow> (if \<not> is_ref (j_type n) \<and> j_valuestring n \<noteq> 0 then c_free (j_valuestring n) h1
               else Some h1);
        h3 \<leftarrow> (if j_string n \<noteq> 0 then c_free (j_string n) h2 else Some h2);
        h4 \<leftarrow> c_free c h3;
        cJSON_Delete (j_next n) h4
      })"

declare cJSON_Delete.simps [code]

subsection \<open>Facts on memory access\<close>

lemma ld_Some_iff [mem_simps]: "ld a h = Some n \<longleftrightarrow> mem h a = Some (Node n)"
  by (auto simp: ld_def split: option.splits cell.splits)

lemma st_Some_iff [mem_simps]:
  "st a n h = Some h' \<longleftrightarrow>
     (\<exists>m. mem h a = Some (Node m)) \<and> h' = h\<lparr>mem := (mem h)(a := Some (Node n))\<rparr>"
  by (auto simp: st_def split: option.splits cell.splits)

lemma st_Node [mem_simps]:
  "mem h a = Some (Node m) \<Longrightarrow> st a n h = Some (h\<lparr>mem := (mem h)(a := Some (Node n))\<rparr>)"
  by (simp add: st_def)

lemma ld_Node [mem_simps]: "mem h a = Some (Node n) \<Longrightarrow> ld a h = Some n"
  by (simp add: ld_def)

lemma ld_str_Buf [mem_simps]: "mem h a = Some (Buf s) \<Longrightarrow> ld_str a h = Some s"
  by (simp add: ld_str_def)

lemma c_free_live [mem_simps]:
  "a \<noteq> 0 \<Longrightarrow> mem h a = Some c \<Longrightarrow> c_free a h = Some (h\<lparr>mem := (mem h)(a := None)\<rparr>)"
  by (simp add: c_free_def)

lemma c_free_0 [simp]: "c_free 0 h = Some h"
  by (simp add: c_free_def)

lemma cJSON_Delete_0 [simp]: "cJSON_Delete 0 h = Some h"
  by (simp add: cJSON_Delete.simps)

lemma c_malloc_ok:
  assumes "heap_ok h" "c_malloc c h = (a, h')"
  shows "heap_ok h'" "brk h' = Suc (brk h)" "room h' = room h" "ep h' = ep h"
    "a = 0 \<longrightarrow> mem h' = mem h \<and> \<not> room h (brk h)"
    "a \<noteq> 0 \<longrightarrow> a = brk h \<and> mem h' = (mem h)(a := Some c)"
    "room h (brk h) \<longrightarrow> a = brk h"
  using assms by (auto simp: heap_ok_def c_malloc_def split: if_splits)

lemma heap_ok_free: "heap_ok h \<Longrightarrow> c_free a h = Some h' \<Longrightarrow> heap_ok h'"
  by (auto simp: heap_ok_def c_free_def split: if_splits option.splits)

lemma heap_ok_0: "heap_ok h \<Longrightarrow> mem h a = Some c \<Longrightarrow> a \<noteq> 0 \<and> a < brk h"
proof -
  assume "heap_ok h" and m: "mem h a = Some c"
  then have "mem h 0 = None" and "brk h \<le> a \<Longrightarrow> mem h a = None" by (auto simp: heap_ok_def)
  with m show ?thesis by (metis not_le option.distinct(1))
qed

lemma heap_ok_st: "heap_ok h \<Longrightarrow> st a n h = Some h' \<Longrightarrow> heap_ok h'"
  using heap_ok_0 [of h a] by (auto simp: heap_ok_def mem_simps)

lemma strcasecmp_loop_0: "strcasecmp_loop a b = 0 \<longleftrightarrow> same_nocase a b"
  if "NUL \<notin> set a" "NUL \<notin> set b"
  using that by (induction a b rule: strcasecmp_loop.induct) (auto simp: same_nocase_def)

subsection \<open>Trees in memory\<close>

text \<open>
  A located tree records where a node and what it owns live. A node made by
  \<open>create_reference\<close> (\<open>Ref\<close>) owns its name only: its value string and its children
  belong to another node.
\<close>

type_synonym lstr = "(addr \<times> string) option"

datatype jt =
    Own (jaddr: addr) (jtype: int) (jvs: lstr) (jvi: int) (jvd: fl) (jname: lstr) (jkids: "jt list")
  | Ref (jaddr: addr) (jtype: int) (rvs: addr) (jvi: int) (jvd: fl) (jname: lstr) (rchild: addr)

definition ladr :: "lstr \<Rightarrow> addr" where
  "ladr s = (case s of None \<Rightarrow> 0 | Some (a, _) \<Rightarrow> a)"

definition first :: "jt list \<Rightarrow> addr \<Rightarrow> addr" where
  "first ts q = (case ts of [] \<Rightarrow> q | t # _ \<Rightarrow> jaddr t)"

definition final :: "addr \<Rightarrow> jt list \<Rightarrow> addr" where
  "final p ts = (if ts = [] then p else jaddr (last ts))"

fun node_of :: "addr \<Rightarrow> addr \<Rightarrow> jt \<Rightarrow> cJSON" where
  "node_of p q (Own a ty vs vi vd nm ks) =
     \<lparr>j_next = q, j_prev = p, j_child = first ks 0, j_type = ty, j_valuestring = ladr vs,
      j_valueint = vi, j_valuedouble = vd, j_string = ladr nm\<rparr>"
| "node_of p q (Ref a ty vs vi vd nm c) =
     \<lparr>j_next = q, j_prev = p, j_child = c, j_type = ty, j_valuestring = vs,
      j_valueint = vi, j_valuedouble = vd, j_string = ladr nm\<rparr>"

definition str_in :: "(addr \<Rightarrow> cell option) \<Rightarrow> lstr \<Rightarrow> bool" where
  "str_in m s = (case s of None \<Rightarrow> True | Some (a, v) \<Rightarrow> a \<noteq> 0 \<and> m a = Some (Buf v))"

definition sadr :: "lstr \<Rightarrow> addr list" where
  "sadr s = (case s of None \<Rightarrow> [] | Some (a, _) \<Rightarrow> [a])"

text \<open>
  \<open>seg m p ts q\<close>: memory \<open>m\<close> holds the trees \<open>ts\<close> as one sibling list that follows
  node \<open>p\<close> and whose last \<open>next\<close> is \<open>q\<close>. \<open>foot ts\<close> lists the addresses the trees own.
\<close>

fun seg :: "(addr \<Rightarrow> cell option) \<Rightarrow> addr \<Rightarrow> jt list \<Rightarrow> addr \<Rightarrow> bool" where
  "seg m p [] q = True"
| "seg m p (Own a ty vs vi vd nm ks # ts) q =
     (a \<noteq> 0 \<and> \<not> is_ref ty \<and> m a = Some (Node (node_of p (first ts q) (Own a ty vs vi vd nm ks)))
      \<and> str_in m vs \<and> str_in m nm \<and> seg m 0 ks 0 \<and> seg m a ts q)"
| "seg m p (Ref a ty vs vi vd nm c # ts) q =
     (a \<noteq> 0 \<and> is_ref ty \<and> m a = Some (Node (node_of p (first ts q) (Ref a ty vs vi vd nm c)))
      \<and> str_in m nm \<and> seg m a ts q)"

fun foot :: "jt list \<Rightarrow> addr list" where
  "foot [] = []"
| "foot (Own a ty vs vi vd nm ks # ts) = a # sadr vs @ sadr nm @ foot ks @ foot ts"
| "foot (Ref a ty vs vi vd nm c # ts) = a # sadr nm @ foot ts"

lemma first_simps [simp]: "first [] q = q" "first (t # ts) q = jaddr t"
  by (simp_all add: first_def)

lemma first_append [simp]: "first (xs @ ys) q = first xs (first ys q)"
  by (cases xs) simp_all

lemma final_simps [simp]: "final p [] = p" "final p (ts @ [t]) = jaddr t"
  by (simp_all add: final_def)

lemma final_Cons [simp]: "final p (t # ts) = final (jaddr t) ts"
  by (simp add: final_def)

lemma ladr_simps [simp]: "ladr None = 0" "ladr (Some (a, v)) = a"
  by (simp_all add: ladr_def)

lemma sadr_simps [simp]: "sadr None = []" "sadr (Some (a, v)) = [a]"
  by (simp_all add: sadr_def)

lemma str_in_simps [simp]: "str_in m None" "str_in m (Some (a, v)) \<longleftrightarrow> a \<noteq> 0 \<and> m a = Some (Buf v)"
  by (simp_all add: str_in_def)

lemma jaddr_in_foot: "t \<in> set ts \<Longrightarrow> jaddr t \<in> set (foot ts)"
  by (induction ts rule: foot.induct) auto

lemma foot_append [simp]: "foot (xs @ ys) = foot xs @ foot ys"
  by (induction xs rule: foot.induct) auto

lemma seg_append: "seg m p (xs @ ys) q \<longleftrightarrow> seg m p xs (first ys q) \<and> seg m (final p xs) ys q"
proof (induction xs arbitrary: p)
  case Nil
  then show ?case by simp
next
  case (Cons t xs)
  then show ?case by (cases t) auto
qed

lemma seg_jaddr_nonzero: "seg m p ts q \<Longrightarrow> t \<in> set ts \<Longrightarrow> jaddr t \<noteq> 0"
  by (induction m p ts q rule: seg.induct) auto

lemma first_0_iff: "seg m p ts 0 \<Longrightarrow> first ts 0 = 0 \<longleftrightarrow> ts = []"
  by (cases ts rule: foot.cases) auto

text \<open>The frame: only what \<open>foot\<close> lists matters.\<close>

lemma str_in_frame: "str_in m s \<Longrightarrow> (\<forall>a\<in>set (sadr s). m' a = m a) \<Longrightarrow> str_in m' s"
  by (cases s) (auto simp: str_in_def)

lemma seg_frame:
  "seg m p ts q \<Longrightarrow> (\<forall>a\<in>set (foot ts). m' a = m a) \<Longrightarrow> seg m' p ts q"
proof (induction m p ts q rule: seg.induct)
  case (2 m p a ty vs vi vd nm ks ts q)
  then show ?case using str_in_frame [of m vs m'] str_in_frame [of m nm m'] by auto
next
  case (3 m p a ty vs vi vd nm c ts q)
  then show ?case using str_in_frame [of m nm m'] by auto
qed simp

lemma seg_live: "seg m p ts q \<Longrightarrow> a \<in> set (foot ts) \<Longrightarrow> a \<noteq> 0 \<and> m a \<noteq> None"
proof (induction m p ts q rule: seg.induct)
  case (2 m p b ty vs vi vd nm ks ts q)
  then show ?case by (auto simp: str_in_def sadr_def split: option.splits)
next
  case (3 m p b ty vs vi vd nm c ts q)
  then show ?case by (auto simp: str_in_def sadr_def split: option.splits)
qed simp

lemma seg_upd_other [simp]: "a \<notin> set (foot ts) \<Longrightarrow> seg m p ts q \<Longrightarrow> seg (m(a := c)) p ts q"
  by (rule seg_frame) auto

text \<open>Rewriting the \<open>prev\<close> link of the first node of a list.\<close>

lemma seg_relink_prev:
  assumes "seg m p (t # ts) q" "distinct (foot (t # ts))"
  shows "seg (m(jaddr t := Some (Node (node_of p' (first ts q) t)))) p' (t # ts) q"
  using assms by (cases t) (auto intro!: str_in_frame [of m] seg_frame [of m] simp: sadr_def split: option.splits)

lemma node_of_sel [simp]:
  "j_next (node_of p q t) = q" "j_prev (node_of p q t) = p" "j_type (node_of p q t) = jtype t"
  "j_string (node_of p q t) = ladr (jname t)" "j_valueint (node_of p q t) = jvi t"
  "j_valuedouble (node_of p q t) = jvd t"
  by (cases t; simp)+

lemma node_of_upd [simp]:
  "node_of p q t\<lparr>j_next := q'\<rparr> = node_of p q' t"
  "node_of p q t\<lparr>j_prev := p'\<rparr> = node_of p' q t"
  by (cases t; simp)+

lemma seg_Cons_node:
  "seg m p (t # ts) q \<Longrightarrow> m (jaddr t) = Some (Node (node_of p (first ts q) t)) \<and> jaddr t \<noteq> 0
     \<and> seg m (jaddr t) ts q"
  by (cases t) auto

subsection \<open>Deletion frees exactly the trees\<close>

text \<open>The memory without the given addresses.\<close>

definition without :: "addr list \<Rightarrow> heap \<Rightarrow> heap" where
  "without as h = h\<lparr>mem := (\<lambda>a. if a \<in> set as then None else mem h a)\<rparr>"

lemma without_sel [simp]:
  "mem (without as h) a = (if a \<in> set as then None else mem h a)"
  "brk (without as h) = brk h" "room (without as h) = room h" "ep (without as h) = ep h"
  by (simp_all add: without_def)

lemma without_Nil [simp]: "without [] h = h"
  by (simp add: without_def)

lemma without_without [simp]: "without as (without bs h) = without (bs @ as) h"
  by (auto simp: without_def fun_eq_iff)

lemma without_cong: "set as = set bs \<Longrightarrow> without as h = without bs h"
  by (simp add: without_def)

lemma c_free_without:
  "a \<noteq> 0 \<Longrightarrow> mem h a \<noteq> None \<Longrightarrow> c_free a h = Some (without [a] h)"
  by (auto simp: c_free_def without_def fun_upd_def split: option.splits)

lemma heap_ok_without [simp]: "heap_ok h \<Longrightarrow> heap_ok (without as h)"
  by (auto simp: heap_ok_def)

lemma free_lstr:
  assumes "str_in (mem h) s"
  shows "(if ladr s \<noteq> 0 then c_free (ladr s) h else Some h) = Some (without (sadr s) h)"
  using assms c_free_without [of "ladr s" h] by (cases s) auto

lemma cJSON_Delete_step:
  assumes "c \<noteq> 0" "ld c h = Some n"
    "(if \<not> is_ref (j_type n) \<and> j_child n \<noteq> 0 then cJSON_Delete (j_child n) h else Some h) = Some h1"
    "(if \<not> is_ref (j_type n) \<and> j_valuestring n \<noteq> 0 then c_free (j_valuestring n) h1 else Some h1)
      = Some h2"
    "(if j_string n \<noteq> 0 then c_free (j_string n) h2 else Some h2) = Some h3"
    "c_free c h3 = Some h4"
  shows "cJSON_Delete c h = cJSON_Delete (j_next n) h4"
  unfolding cJSON_Delete.simps [of c h] using assms(1)
  by (simp only: assms(2-) if_False Option.bind.simps(2))

theorem cJSON_Delete_seg:
  "seg (mem h) p ts 0 \<Longrightarrow> distinct (foot ts) \<Longrightarrow>
     cJSON_Delete (first ts 0) h = Some (without (foot ts) h)"
proof (induction ts arbitrary: h p rule: foot.induct)
  case 1
  then show ?case by simp
next
  case (2 a ty vs vi vd nm ks ts)
  note S = "2.prems"
  have n: "mem h a = Some (Node (node_of p (first ts 0) (Own a ty vs vi vd nm ks)))" "a \<noteq> 0"
    using S by auto
  have kids: "cJSON_Delete (first ks 0) h = Some (without (foot ks) h)"
    using "2.IH"(1) [of h 0] S by auto
  then have h1: "(if \<not> is_ref ty \<and> first ks 0 \<noteq> 0 then cJSON_Delete (first ks 0) h else Some h)
      = Some (without (foot ks) h)"
    using S first_0_iff [of "mem h" 0 ks] by auto
  have h2: "(if ladr vs \<noteq> 0 then c_free (ladr vs) (without (foot ks) h)
      else Some (without (foot ks) h)) = Some (without (foot ks @ sadr vs) h)"
    using S by (subst free_lstr) (auto intro!: str_in_frame [of "mem h"])
  have h3: "(if ladr nm \<noteq> 0 then c_free (ladr nm) (without (foot ks @ sadr vs) h)
      else Some (without (foot ks @ sadr vs) h)) = Some (without (foot ks @ sadr vs @ sadr nm) h)"
    using S by (subst free_lstr) (auto intro!: str_in_frame [of "mem h"])
  have h4: "c_free a (without (foot ks @ sadr vs @ sadr nm) h)
      = Some (without (foot ks @ sadr vs @ sadr nm @ [a]) h)"
    using S n by (subst c_free_without) auto
  have s: "seg (mem (without (foot ks @ sadr vs @ sadr nm @ [a]) h)) a ts 0"
    using S by (auto intro!: seg_frame [of "mem h"])
  have d: "distinct (foot ts)" using S by simp
  have rest: "cJSON_Delete (first ts 0) (without (foot ks @ sadr vs @ sadr nm @ [a]) h)
      = Some (without (foot ks @ sadr vs @ sadr nm @ [a] @ foot ts) h)"
    using "2.IH"(2) [OF s d] by simp
  have "cJSON_Delete a h = Some (without (foot ks @ sadr vs @ sadr nm @ [a] @ foot ts) h)"
    using cJSON_Delete_step [OF n(2), of h, OF ld_Node [OF n(1)], of "without (foot ks) h"
      "without (foot ks @ sadr vs) h" "without (foot ks @ sadr vs @ sadr nm) h"
      "without (foot ks @ sadr vs @ sadr nm @ [a]) h"] S h1 h2 h3 h4 rest
    by (simp cong del: if_weak_cong)
  also have "\<dots> = Some (without (foot (Own a ty vs vi vd nm ks # ts)) h)"
    by (auto intro!: without_cong)
  finally show ?case by simp
next
  case (3 a ty vs vi vd nm c ts)
  note S = "3.prems"
  have n: "mem h a = Some (Node (node_of p (first ts 0) (Ref a ty vs vi vd nm c)))" "a \<noteq> 0"
    using S by auto
  have h3: "(if ladr nm \<noteq> 0 then c_free (ladr nm) h else Some h) = Some (without (sadr nm) h)"
    using S by (subst free_lstr) auto
  have h4: "c_free a (without (sadr nm) h) = Some (without (sadr nm @ [a]) h)"
    using S n by (subst c_free_without) auto
  have s: "seg (mem (without (sadr nm @ [a]) h)) a ts 0"
    using S by (auto intro!: seg_frame [of "mem h"])
  have d: "distinct (foot ts)" using S by simp
  have rest: "cJSON_Delete (first ts 0) (without (sadr nm @ [a]) h)
      = Some (without (sadr nm @ [a] @ foot ts) h)"
    using "3.IH" [OF s d] by simp
  have "cJSON_Delete a h = Some (without (sadr nm @ [a] @ foot ts) h)"
    using cJSON_Delete_step [OF n(2), of h, OF ld_Node [OF n(1)], of h h "without (sadr nm) h"
      "without (sadr nm @ [a]) h"] S h3 h4 rest
    by (simp cong del: if_weak_cong)
  also have "\<dots> = Some (without (foot (Ref a ty vs vi vd nm c # ts)) h)"
    by (auto intro!: without_cong)
  finally show ?case by simp
qed

end
