(* ===== verification/CJSON_Parse.thy ===== *)
theory CJSON_Parse
  imports CJSON_Heap
begin

section \<open>The cJSON parser\<close>

text \<open>
  \<open>skip\<close>, \<open>parse_hex4\<close>, \<open>parse_string\<close>, \<open>parse_number\<close>, \<open>parse_value\<close>,
  \<open>parse_array\<close>, \<open>parse_object\<close> and \<open>cJSON_ParseWithOpts\<close> of \<open>common/cJSON.c\<close>.
  The text is the whole object the \<open>const char *\<close> points into, so reading past its end
  is undefined. The recursive parser takes fuel; \<open>cJSON_ParseWithOpts\<close> supplies twice the
  length of the text plus one, which CJSON_Grammar proves to be enough.
\<close>

abbreviation QUOTE :: char where "QUOTE \<equiv> CHR 0x22"
abbreviation BSLASH :: char where "BSLASH \<equiv> CHR 0x5C"

subsection \<open>White space\<close>

fun skip_text :: "string \<Rightarrow> string option" where
  "skip_text [] = None"
| "skip_text (c # s) = (if c \<noteq> NUL \<and> code c \<le> 32 then skip_text s else Some (c # s))"

fun skip :: "cptr \<Rightarrow> cptr option" where
  "skip Null = Some Null"
| "skip (Ptr s) = map_option Ptr (skip_text s)"

subsection \<open>Strings\<close>

definition hex_val :: "char \<Rightarrow> nat option" where
  "hex_val c =
     (if 48 \<le> code c \<and> code c \<le> 57 then Some (code c - 48)
      else if 65 \<le> code c \<and> code c \<le> 70 then Some (10 + code c - 65)
      else if 97 \<le> code c \<and> code c \<le> 102 then Some (10 + code c - 97)
      else None)"

fun parse_hex :: "nat \<Rightarrow> nat \<Rightarrow> string \<Rightarrow> nat option" where
  "parse_hex 0 h s = Some h"
| "parse_hex (Suc k) h s = do {
     c \<leftarrow> deref s;
     (case hex_val c of None \<Rightarrow> Some 0 | Some v \<Rightarrow> parse_hex k (16 * h + v) (tl s))
   }"

definition parse_hex4 :: "string \<Rightarrow> nat option" where
  "parse_hex4 s = parse_hex 4 0 s"

text \<open>The first pass: one byte per character, one per escape introducer.\<close>

fun scan_len :: "string \<Rightarrow> nat option" where
  "scan_len [] = None"
| "scan_len (c # s) =
     (if c = QUOTE \<or> c = NUL then Some 0
      else if c = BSLASH then (case s of [] \<Rightarrow> None | _ # r \<Rightarrow> map_option Suc (scan_len r))
      else map_option Suc (scan_len s))"

definition firstByteMark :: "nat list" where
  "firstByteMark = [0x00, 0x00, 0xC0, 0xE0, 0xF0, 0xF8, 0xFC]"

text \<open>The bytes of a code point, last byte first, with the fall through of the \<open>switch\<close>.\<close>

fun utf8_write :: "nat \<Rightarrow> nat \<Rightarrow> nat \<Rightarrow> string \<Rightarrow> string" where
  "utf8_write len (Suc (Suc k)) uc acc =
     utf8_write len (Suc k) (drop_bit 6 uc) (char_of ((uc OR 0x80) AND 0xBF) # acc)"
| "utf8_write len (Suc 0) uc acc = char_of (uc OR (firstByteMark ! len)) # acc"
| "utf8_write len 0 uc acc = acc"

definition utf8_len :: "nat \<Rightarrow> nat" where
  "utf8_len uc = (if uc < 0x80 then 1 else if uc < 0x800 then 2 else if uc < 0x10000 then 3 else 4)"

definition utf8_bytes :: "nat \<Rightarrow> string" where
  "utf8_bytes uc = utf8_write (utf8_len uc) (utf8_len uc) uc []"

text \<open>
  The text after \<open>\u\<close>: the bytes to write (none for an invalid escape) and the text that
  follows. The pointer moves over four bytes whether or not they are hexadecimal digits.
\<close>

definition unicode_escape :: "string \<Rightarrow> (string \<times> string) option" where
  "unicode_escape r = do {
     uc \<leftarrow> parse_hex4 r;
     r1 \<leftarrow> advance 4 r;
     (if (0xDC00 \<le> uc \<and> uc \<le> 0xDFFF) \<or> uc = 0 then Some ([], r1)
      else if 0xD800 \<le> uc \<and> uc \<le> 0xDBFF then do {
        c1 \<leftarrow> deref r1;
        if c1 \<noteq> BSLASH then Some ([], r1)
        else do {
          c2 \<leftarrow> deref (tl r1);
          if c2 \<noteq> CHR ''u'' then Some ([], r1)
          else do {
            uc2 \<leftarrow> parse_hex4 (tl (tl r1));
            r2 \<leftarrow> advance 6 r1;
            (if uc2 < 0xDC00 \<or> 0xDFFF < uc2 then Some ([], r2)
             else Some (utf8_bytes (0x10000 + ((push_bit 10 (uc AND 0x3FF)) OR (uc2 AND 0x3FF))), r2))
          }
        }
      }
      else Some (utf8_bytes uc, r1))
   }"

lemma unicode_escape_shorter: "unicode_escape r = Some (bs, r') \<Longrightarrow> length r' \<le> length r"
  by (auto simp: unicode_escape_def advance_def Option.bind_eq_Some_conv split: if_splits)

definition simple_escape :: "char \<Rightarrow> char" where
  "simple_escape e =
     (if e = CHR ''b'' then CHR 0x08 else if e = CHR ''f'' then CHR 0x0C
      else if e = CHR ''n'' then CHR 0x0A else if e = CHR ''r'' then CHR 0x0D
      else if e = CHR ''t'' then CHR 0x09 else e)"

text \<open>The second pass writes the decoded bytes into the buffer of the first pass's size.\<close>

function unesc :: "string \<Rightarrow> writer \<Rightarrow> (writer \<times> string) option" where
  "unesc [] w = None"
| "unesc (c # s) w =
     (if c = QUOTE \<or> c = NUL then Some (w, c # s)
      else if c \<noteq> BSLASH then emit [c] w \<bind> unesc s
      else (case s of
          [] \<Rightarrow> None
        | e # r \<Rightarrow>
            if e = CHR ''u''
            then (case unicode_escape r of
                    None \<Rightarrow> None
                  | Some (bs, r') \<Rightarrow>
                      if length r' \<le> length r then emit bs w \<bind> unesc r' else None)
            else emit [simple_escape e] w \<bind> unesc r))"
  by pat_completeness auto
termination
  by (relation "measure (\<lambda>(s, w). length s)") auto

lemma unesc_unicode:
  "unesc (BSLASH # CHR ''u'' # r) w =
     (case unicode_escape r of None \<Rightarrow> None | Some (bs, r') \<Rightarrow> emit bs w \<bind> unesc r')"
  using unicode_escape_shorter by (auto split: option.splits)

definition upd_node :: "addr \<Rightarrow> (cJSON \<Rightarrow> cJSON) \<Rightarrow> heap \<Rightarrow> heap option" where
  "upd_node a f h = do { n \<leftarrow> ld a h; st a (f n) h }"

definition parse_string :: "addr \<Rightarrow> string \<Rightarrow> heap \<Rightarrow> (cptr \<times> heap) option" where
  "parse_string item s h = do {
     c \<leftarrow> deref s;
     if c \<noteq> QUOTE then Some (Null, h\<lparr>ep := Ptr s\<rparr>)
     else do {
       len \<leftarrow> scan_len (tl s);
       let (out, h1) = c_malloc (Buf []) h;
       if out = 0 then Some (Null, h1)
       else do {
         (w, p) \<leftarrow> unesc (tl s) (len + 1, []);
         w \<leftarrow> emit [NUL] w;
         q \<leftarrow> deref p;
         h2 \<leftarrow> upd_node item (\<lambda>n. n\<lparr>j_valuestring := out, j_type := cJSON_String\<rparr>)
                (h1\<lparr>mem := (mem h1)(out := Some (Buf (takeWhile (\<lambda>c. c \<noteq> NUL) (snd w))))\<rparr>);
         Some (Ptr (if q = QUOTE then tl p else p), h2)
       }
     }
   }"

subsection \<open>Numbers\<close>

fun digits_loop :: "string \<Rightarrow> fl \<Rightarrow> (fl \<times> string) option" where
  "digits_loop [] n = None"
| "digits_loop (c # s) n =
     (if is_digit c
      then digits_loop s (fadd binary64 (fmul binary64 n (int_fl 10))
                            (of_int_fl binary64 (int (digit_val c))))
      else Some (n, c # s))"

text \<open>The fraction: the same accumulation, counting the scale down for every digit.\<close>

fun frac_loop :: "string \<Rightarrow> fl \<Rightarrow> int \<Rightarrow> (fl \<times> int \<times> string) option" where
  "frac_loop [] n scale = None"
| "frac_loop (c # s) n scale =
     (if is_digit c
      then frac_loop s (fadd binary64 (fmul binary64 n (int_fl 10))
                          (of_int_fl binary64 (int (digit_val c)))) (scale - 1)
      else Some (n, scale, c # s))"

definition INT_MAX :: int where "INT_MAX = 2147483647"
definition INT_MIN :: int where "INT_MIN = - 2147483648"

text \<open>The exponent is an \<open>int\<close>: its overflow is undefined.\<close>

fun exp_loop :: "string \<Rightarrow> int \<Rightarrow> (int \<times> string) option" where
  "exp_loop [] subscale = None"
| "exp_loop (c # s) subscale =
     (if is_digit c
      then (if subscale * 10 + int (digit_val c) \<le> INT_MAX
            then exp_loop s (subscale * 10 + int (digit_val c)) else None)
      else Some (subscale, c # s))"

definition parse_exponent :: "string \<Rightarrow> (int \<times> string) option" where
  "parse_exponent s = do {
     c \<leftarrow> deref s;
     if c = CHR ''e'' \<or> c = CHR ''E'' then do {
       c1 \<leftarrow> deref (tl s);
       let (sg, s1) = (if c1 = CHR ''+'' then (1, tl (tl s))
                       else if c1 = CHR ''-'' then (- 1, tl (tl s)) else (1, tl s));
       (subscale, s2) \<leftarrow> exp_loop s1 0;
       Some (subscale * sg, s2)
     }
     else Some (0, s)
   }"

definition parse_number_text :: "string \<Rightarrow> (fl \<times> string) option" where
  "parse_number_text num = do {
     c0 \<leftarrow> deref num;
     let (sign, s0) = (if c0 = CHR ''-'' then (int_fl (- 1), tl num) else (int_fl 1, num));
     c1 \<leftarrow> deref s0;
     let s1 = (if c1 = CHR ''0'' then tl s0 else s0);
     c2 \<leftarrow> deref s1;
     (n2, s2) \<leftarrow> (if is_digit c2 \<and> c2 \<noteq> CHR ''0'' then digits_loop s1 (int_fl 0)
                  else Some (int_fl 0, s1));
     c3 \<leftarrow> deref s2;
     (n3, scale, s3) \<leftarrow> (if c3 = CHR ''.'' then do {
                            d \<leftarrow> deref (tl s2);
                            if is_digit d then frac_loop (tl s2) n2 0 else Some (n2, 0, s2)
                          } else Some (n2, 0, s2));
     (e, s4) \<leftarrow> parse_exponent s3;
     Some (fmul binary64 (fmul binary64 sign n3) (pow10 (scale + e)), s4)
   }"

definition parse_number :: "addr \<Rightarrow> string \<Rightarrow> heap \<Rightarrow> (cptr \<times> heap) option" where
  "parse_number item num h = do {
     (n, rest) \<leftarrow> parse_number_text num;
     i \<leftarrow> to_int 64 n;
     h' \<leftarrow> upd_node item
            (\<lambda>x. x\<lparr>j_valuedouble := n, j_valueint := i, j_type := cJSON_Number\<rparr>) h;
     Some (Ptr rest, h')
   }"

subsection \<open>Values\<close>

text \<open>
  The five parser functions call each other. Each is written over the recursive call
  \<open>rec\<close>; \<open>parser\<close> ties the knot with fuel, one unit per call. The while loop of
  \<open>parse_array\<close> is \<open>Elems\<close>, that of \<open>parse_object\<close> is \<open>Members\<close>, and \<open>Member\<close> is
  the \<open>name : value\<close> part the first and every later member go through.
\<close>

datatype pcall =
    Value addr cptr
  | Array addr string
  | Elems addr string
  | Object addr string
  | Member addr string
  | Members addr string

type_synonym presult = "(cptr \<times> heap) option"

definition parse_value_body ::
  "(pcall \<Rightarrow> heap \<Rightarrow> presult) \<Rightarrow> addr \<Rightarrow> cptr \<Rightarrow> heap \<Rightarrow> presult" where
  "parse_value_body rec item value h = (case value of
     Null \<Rightarrow> Some (Null, h)
   | Ptr v \<Rightarrow> do {
     isnull \<leftarrow> strncmp_eq v ''null'';
     if isnull then do {
       h' \<leftarrow> upd_node item (\<lambda>n. n\<lparr>j_type := cJSON_NULL\<rparr>) h;
       Some (Ptr (drop 4 v), h')
     } else do {
       isfalse \<leftarrow> strncmp_eq v ''false'';
       if isfalse then do {
         h' \<leftarrow> upd_node item (\<lambda>n. n\<lparr>j_type := cJSON_False\<rparr>) h;
         Some (Ptr (drop 5 v), h')
       } else do {
         istrue \<leftarrow> strncmp_eq v ''true'';
         if istrue then do {
           h' \<leftarrow> upd_node item (\<lambda>n. n\<lparr>j_type := cJSON_True, j_valueint := 1\<rparr>) h;
           Some (Ptr (drop 4 v), h')
         } else do {
           c \<leftarrow> deref v;
           if c = QUOTE then parse_string item v h
           else if c = CHR ''-'' \<or> is_digit c then parse_number item v h
           else if c = CHR ''['' then rec (Array item v) h
           else if c = CHR ''{'' then rec (Object item v) h
           else Some (Null, h\<lparr>ep := Ptr v\<rparr>)
         }
       }
     }
   })"

definition parse_array_body ::
  "(pcall \<Rightarrow> heap \<Rightarrow> presult) \<Rightarrow> addr \<Rightarrow> string \<Rightarrow> heap \<Rightarrow> presult" where
  "parse_array_body rec item v h = do {
     c \<leftarrow> deref v;
     if c \<noteq> CHR ''['' then Some (Null, h\<lparr>ep := Ptr v\<rparr>)
     else do {
       h1 \<leftarrow> upd_node item (\<lambda>n. n\<lparr>j_type := cJSON_Array\<rparr>) h;
       v1 \<leftarrow> skip_text (tl v);
       c1 \<leftarrow> deref v1;
       if c1 = CHR '']'' then Some (Ptr (tl v1), h1)
       else do {
         let (chd, h2) = cJSON_New_Item h1;
         h3 \<leftarrow> upd_node item (\<lambda>n. n\<lparr>j_child := chd\<rparr>) h2;
         if chd = 0 then Some (Null, h3)
         else do {
           v2 \<leftarrow> skip_text v1;
           (p, h4) \<leftarrow> rec (Value chd (Ptr v2)) h3;
           q \<leftarrow> skip p;
           (case q of Null \<Rightarrow> Some (Null, h4) | Ptr v3 \<Rightarrow> rec (Elems chd v3) h4)
         }
       }
     }
   }"

definition parse_elems_body ::
  "(pcall \<Rightarrow> heap \<Rightarrow> presult) \<Rightarrow> addr \<Rightarrow> string \<Rightarrow> heap \<Rightarrow> presult" where
  "parse_elems_body rec chd v h = do {
     c \<leftarrow> deref v;
     if c = CHR '','' then do {
       let (new_item, h1) = cJSON_New_Item h;
       if new_item = 0 then Some (Null, h1)
       else do {
         h2 \<leftarrow> upd_node chd (\<lambda>n. n\<lparr>j_next := new_item\<rparr>) h1;
         h3 \<leftarrow> upd_node new_item (\<lambda>n. n\<lparr>j_prev := chd\<rparr>) h2;
         v1 \<leftarrow> skip_text (tl v);
         (p, h4) \<leftarrow> rec (Value new_item (Ptr v1)) h3;
         q \<leftarrow> skip p;
         (case q of Null \<Rightarrow> Some (Null, h4) | Ptr v3 \<Rightarrow> rec (Elems new_item v3) h4)
       }
     }
     else if c = CHR '']'' then Some (Ptr (tl v), h)
     else Some (Null, h\<lparr>ep := Ptr v\<rparr>)
   }"

definition parse_object_body ::
  "(pcall \<Rightarrow> heap \<Rightarrow> presult) \<Rightarrow> addr \<Rightarrow> string \<Rightarrow> heap \<Rightarrow> presult" where
  "parse_object_body rec item v h = do {
     c \<leftarrow> deref v;
     if c \<noteq> CHR ''{'' then Some (Null, h\<lparr>ep := Ptr v\<rparr>)
     else do {
       h1 \<leftarrow> upd_node item (\<lambda>n. n\<lparr>j_type := cJSON_Object\<rparr>) h;
       v1 \<leftarrow> skip_text (tl v);
       c1 \<leftarrow> deref v1;
       if c1 = CHR ''}'' then Some (Ptr (tl v1), h1)
       else do {
         let (chd, h2) = cJSON_New_Item h1;
         h3 \<leftarrow> upd_node item (\<lambda>n. n\<lparr>j_child := chd\<rparr>) h2;
         if chd = 0 then Some (Null, h3)
         else do {
           v2 \<leftarrow> skip_text v1;
           rec (Member chd v2) h3
         }
       }
     }
   }"

definition parse_member_body ::
  "(pcall \<Rightarrow> heap \<Rightarrow> presult) \<Rightarrow> addr \<Rightarrow> string \<Rightarrow> heap \<Rightarrow> presult" where
  "parse_member_body rec chd v h = do {
     (p, h1) \<leftarrow> parse_string chd v h;
     q \<leftarrow> skip p;
     (case q of
        Null \<Rightarrow> Some (Null, h1)
      | Ptr v1 \<Rightarrow> do {
          h2 \<leftarrow> upd_node chd (\<lambda>n. n\<lparr>j_string := j_valuestring n, j_valuestring := 0\<rparr>) h1;
          c \<leftarrow> deref v1;
          if c \<noteq> CHR '':'' then Some (Null, h2\<lparr>ep := Ptr v1\<rparr>)
          else do {
            v2 \<leftarrow> skip_text (tl v1);
            (p2, h3) \<leftarrow> rec (Value chd (Ptr v2)) h2;
            q2 \<leftarrow> skip p2;
            (case q2 of Null \<Rightarrow> Some (Null, h3) | Ptr v3 \<Rightarrow> rec (Members chd v3) h3)
          }
        })
   }"

definition parse_members_body ::
  "(pcall \<Rightarrow> heap \<Rightarrow> presult) \<Rightarrow> addr \<Rightarrow> string \<Rightarrow> heap \<Rightarrow> presult" where
  "parse_members_body rec chd v h = do {
     c \<leftarrow> deref v;
     if c = CHR '','' then do {
       let (new_item, h1) = cJSON_New_Item h;
       if new_item = 0 then Some (Null, h1)
       else do {
         h2 \<leftarrow> upd_node chd (\<lambda>n. n\<lparr>j_next := new_item\<rparr>) h1;
         h3 \<leftarrow> upd_node new_item (\<lambda>n. n\<lparr>j_prev := chd\<rparr>) h2;
         v1 \<leftarrow> skip_text (tl v);
         rec (Member new_item v1) h3
       }
     }
     else if c = CHR ''}'' then Some (Ptr (tl v), h)
     else Some (Null, h\<lparr>ep := Ptr v\<rparr>)
   }"

fun parser_body :: "(pcall \<Rightarrow> heap \<Rightarrow> presult) \<Rightarrow> pcall \<Rightarrow> heap \<Rightarrow> presult" where
  "parser_body rec (Value a p) h = parse_value_body rec a p h"
| "parser_body rec (Array a v) h = parse_array_body rec a v h"
| "parser_body rec (Elems a v) h = parse_elems_body rec a v h"
| "parser_body rec (Object a v) h = parse_object_body rec a v h"
| "parser_body rec (Member a v) h = parse_member_body rec a v h"
| "parser_body rec (Members a v) h = parse_members_body rec a v h"

primrec parser :: "nat \<Rightarrow> pcall \<Rightarrow> heap \<Rightarrow> presult" where
  "parser 0 = (\<lambda>c h. None)"
| "parser (Suc f) = parser_body (parser f)"

definition parse_value :: "nat \<Rightarrow> addr \<Rightarrow> cptr \<Rightarrow> heap \<Rightarrow> presult" where
  "parse_value f item p h = parser f (Value item p) h"

definition parse_fuel :: "string \<Rightarrow> nat" where
  "parse_fuel v = 2 * length v + 1"

definition text_of :: "cptr \<Rightarrow> string" where
  "text_of p = (case p of Null \<Rightarrow> [] | Ptr s \<Rightarrow> s)"

text \<open>
  The result: the item or null, what is stored through \<open>return_parse_end\<close> (if anything),
  and the heap.
\<close>

definition cJSON_ParseWithOpts ::
  "cptr \<Rightarrow> bool \<Rightarrow> heap \<Rightarrow> (addr \<times> cptr option \<times> heap) option" where
  "cJSON_ParseWithOpts value require_null_terminated h = do {
     let (c, h0) = cJSON_New_Item h;
     let h1 = h0\<lparr>ep := Null\<rparr>;
     if c = 0 then Some (0, None, h1)
     else do {
       s \<leftarrow> skip value;
       (end_p, h2) \<leftarrow> parse_value (parse_fuel (text_of s)) c s h1;
       (case end_p of
          Null \<Rightarrow> do { h3 \<leftarrow> cJSON_Delete c h2; Some (0, None, h3) }
        | Ptr e \<Rightarrow>
            if require_null_terminated then do {
              e1 \<leftarrow> skip_text e;
              x \<leftarrow> deref e1;
              if x \<noteq> NUL
              then do { h3 \<leftarrow> cJSON_Delete c h2; Some (0, None, h3\<lparr>ep := Ptr e1\<rparr>) }
              else Some (c, Some (Ptr e1), h2)
            }
            else Some (c, Some (Ptr e), h2))
     }
   }"

definition cJSON_Parse :: "cptr \<Rightarrow> heap \<Rightarrow> (addr \<times> heap) option" where
  "cJSON_Parse value h = do { (c, e, h') \<leftarrow> cJSON_ParseWithOpts value False h; Some (c, h') }"

end
