(* ===== verification/CJSON_Grammar.thy ===== *)
theory CJSON_Grammar
  imports CJSON_Parse "HOL-Library.Multiset"
begin

section \<open>The language cJSON parses\<close>

text \<open>
  The abstract specification of the parser: JSON values, a grammar over texts (as the code
  accepts them, extensions included), and when a located tree represents a value. The
  theorems: whatever the allocator does, the parser changes only fresh memory and the node
  it was given, leaves a well formed tree there, and on success that tree represents a
  value the grammar derives from the consumed text; on failure \<open>cJSON_Parse\<close> restores the
  memory it found.
\<close>

subsection \<open>Values and grammar\<close>

datatype json =
    JNull | JFalse | JTrue
  | JNum int fl
  | JStr string
  | JArr "json list"
  | JObj "(string \<times> json) list"

definition tk :: "string \<Rightarrow> string" where
  "tk s = takeWhile (\<lambda>c. c \<noteq> NUL) s"

lemma tk_NUL [simp]: "takeWhile (\<lambda>c. c \<noteq> NUL) (s @ [NUL]) = tk s"
  by (induction s) (auto simp: tk_def)

text \<open>
  The strict grammar (first argument \<^const>\<open>True\<close>) demands closed strings and complete
  \<open>\u\<close> escapes; the lenient one is what the code accepts.
\<close>

definition is_hex :: "char \<Rightarrow> bool" where
  "is_hex c \<longleftrightarrow> hex_val c \<noteq> None"

definition hex4 :: "string \<Rightarrow> bool" where
  "hex4 s \<longleftrightarrow> 4 \<le> length s \<and> list_all is_hex (take 4 s)"

definition uni_ok :: "string \<Rightarrow> bool" where
  "uni_ok s \<longleftrightarrow> hex4 s \<and> (take 2 (drop 4 s) = [BSLASH, CHR ''u''] \<longrightarrow> hex4 (drop 6 s))"

inductive lit :: "bool \<Rightarrow> string \<Rightarrow> string \<Rightarrow> string \<Rightarrow> bool" where
  lit_quote: "lit b (QUOTE # r) [] r"
| lit_nul: "lit False (NUL # r) [] (NUL # r)"
| lit_char: "\<lbrakk>c \<notin> {QUOTE, NUL, BSLASH}; lit b s out r\<rbrakk> \<Longrightarrow> lit b (c # s) (c # out) r"
| lit_esc: "\<lbrakk>e \<noteq> CHR ''u''; b \<longrightarrow> e \<noteq> NUL; lit b s out r\<rbrakk>
    \<Longrightarrow> lit b (BSLASH # e # s) (simple_escape e # out) r"
| lit_uni: "\<lbrakk>unicode_escape s = Some (bs, s'); b \<longrightarrow> uni_ok s; lit b s' out r\<rbrakk>
    \<Longrightarrow> lit b (BSLASH # CHR ''u'' # s) (bs @ out) r"

inductive
  jvalue :: "bool \<Rightarrow> string \<Rightarrow> json \<Rightarrow> string \<Rightarrow> bool" and
  jelems :: "bool \<Rightarrow> string \<Rightarrow> json list \<Rightarrow> string \<Rightarrow> bool" and
  jmember :: "bool \<Rightarrow> string \<Rightarrow> (string \<times> json) list \<Rightarrow> string \<Rightarrow> bool" and
  jmembers :: "bool \<Rightarrow> string \<Rightarrow> (string \<times> json) list \<Rightarrow> string \<Rightarrow> bool" where
  jv_null: "jvalue b (CHR ''n'' # CHR ''u'' # CHR ''l'' # CHR ''l'' # r) JNull r"
| jv_false: "jvalue b (CHR ''f'' # CHR ''a'' # CHR ''l'' # CHR ''s'' # CHR ''e'' # r) JFalse r"
| jv_true: "jvalue b (CHR ''t'' # CHR ''r'' # CHR ''u'' # CHR ''e'' # r) JTrue r"
| jv_str: "lit b s out r \<Longrightarrow> jvalue b (QUOTE # s) (JStr (tk out)) r"
| jv_num: "\<lbrakk>c = CHR ''-'' \<or> is_digit c; parse_number_text (c # s) = Some (n, r);
    to_int 64 n = Some i\<rbrakk> \<Longrightarrow> jvalue b (c # s) (JNum i n) r"
| jv_arr_empty: "skip_text s = Some (CHR '']'' # r) \<Longrightarrow> jvalue b (CHR ''['' # s) (JArr []) r"
| jv_arr: "\<lbrakk>skip_text s = Some s1; jvalue b s1 j r1; skip_text r1 = Some r2; jelems b r2 js r\<rbrakk>
    \<Longrightarrow> jvalue b (CHR ''['' # s) (JArr (j # js)) r"
| jv_obj_empty: "skip_text s = Some (CHR ''}'' # r) \<Longrightarrow> jvalue b (CHR ''{'' # s) (JObj []) r"
| jv_obj: "\<lbrakk>skip_text s = Some s1; jmember b s1 ms r\<rbrakk> \<Longrightarrow> jvalue b (CHR ''{'' # s) (JObj ms) r"
| je_end: "jelems b (CHR '']'' # r) [] r"
| je_more: "\<lbrakk>skip_text s = Some s1; jvalue b s1 j r1; skip_text r1 = Some r2; jelems b r2 js r\<rbrakk>
    \<Longrightarrow> jelems b (CHR '','' # s) (j # js) r"
| jm: "\<lbrakk>lit b s k r1; skip_text r1 = Some (CHR '':'' # r2); skip_text r2 = Some r3;
    jvalue b r3 j r4; skip_text r4 = Some r5; jmembers b r5 ms r\<rbrakk>
    \<Longrightarrow> jmember b (QUOTE # s) ((tk k, j) # ms) r"
| jms_end: "jmembers b (CHR ''}'' # r) [] r"
| jms_more: "\<lbrakk>skip_text s = Some s1; jmember b s1 ms r\<rbrakk> \<Longrightarrow> jmembers b (CHR '','' # s) ms r"

text \<open>Which trees represent which values.\<close>

fun
  jrep :: "json \<Rightarrow> jt \<Rightarrow> bool" and
  jreps :: "json list \<Rightarrow> jt list \<Rightarrow> bool" and
  jmems :: "(string \<times> json) list \<Rightarrow> jt list \<Rightarrow> bool" where
  "jrep j (Ref a ty vs vi vd nm c) = False"
| "jrep JNull (Own a ty vs vi vd nm ks) = (ty = cJSON_NULL \<and> vs = None \<and> ks = [])"
| "jrep JFalse (Own a ty vs vi vd nm ks) = (ty = cJSON_False \<and> vs = None \<and> ks = [])"
| "jrep JTrue (Own a ty vs vi vd nm ks) = (ty = cJSON_True \<and> vs = None \<and> ks = [])"
| "jrep (JNum i d) (Own a ty vs vi vd nm ks) =
     (ty = cJSON_Number \<and> vi = i \<and> vd = d \<and> vs = None \<and> ks = [])"
| "jrep (JStr s) (Own a ty vs vi vd nm ks) =
     (ty = cJSON_String \<and> vs \<noteq> None \<and> snd (the vs) = s \<and> ks = [])"
| "jrep (JArr js) (Own a ty vs vi vd nm ks) = (ty = cJSON_Array \<and> vs = None \<and> jreps js ks)"
| "jrep (JObj ms) (Own a ty vs vi vd nm ks) = (ty = cJSON_Object \<and> vs = None \<and> jmems ms ks)"
| "jreps [] ts = (ts = [])"
| "jreps (j # js) ts = (case ts of [] \<Rightarrow> False | t # ts' \<Rightarrow> jrep j t \<and> jreps js ts')"
| "jmems [] ts = (ts = [])"
| "jmems ((k, j) # ms) ts =
     (case ts of [] \<Rightarrow> False
      | t # ts' \<Rightarrow> jname t \<noteq> None \<and> snd (the (jname t)) = k \<and> jrep j t \<and> jmems ms ts')"

subsection \<open>The text is consumed from left to right\<close>

lemma skip_text_suffix: "skip_text s = Some r \<Longrightarrow> \<exists>x. s = x @ r"
proof (induction s)
  case (Cons c s)
  show ?case
  proof (cases "c \<noteq> NUL \<and> code c \<le> 32")
    case True
    with Cons obtain x where "s = x @ r" by auto
    then have "c # s = (c # x) @ r" by simp
    then show ?thesis by blast
  next
    case False
    with Cons.prems show ?thesis by (auto split: if_splits)
  qed
qed simp

lemma skip_text_idem: "skip_text s = Some r \<Longrightarrow> skip_text r = Some r"
  by (induction s) (auto split: if_splits)

lemma unicode_escape_suffix: "unicode_escape s = Some (bs, r) \<Longrightarrow> \<exists>x. s = x @ r"
proof -
  assume "unicode_escape s = Some (bs, r)"
  then have "\<exists>k. r = drop k s"
    by (auto simp: unicode_escape_def advance_def Option.bind_eq_Some_conv split: if_splits)
  then show ?thesis by (metis append_take_drop_id)
qed

definition sfx :: "string \<Rightarrow> string \<Rightarrow> bool" where
  "sfx s r \<longleftrightarrow> (\<exists>x. s = x @ r)"

lemma sfx_refl [simp]: "sfx s s"
  by (auto simp: sfx_def)

lemma sfx_Cons [intro]: "sfx s r \<Longrightarrow> sfx (c # s) r"
  by (auto simp: sfx_def intro: exI [of _ "c # _"])

lemma sfx_trans [trans]: "sfx a b \<Longrightarrow> sfx b c \<Longrightarrow> sfx a c"
  by (auto simp: sfx_def)

lemma sfx_length: "sfx s r \<Longrightarrow> length r \<le> length s"
  by (auto simp: sfx_def)

lemma skip_text_sfx: "skip_text s = Some r \<Longrightarrow> sfx s r"
  using skip_text_suffix by (simp add: sfx_def)

lemma unicode_escape_sfx: "unicode_escape s = Some (bs, r) \<Longrightarrow> sfx s r"
  using unicode_escape_suffix by (simp add: sfx_def)

lemma lit_sfx: "lit b s out r \<Longrightarrow> sfx s r"
  by (induction rule: lit.induct)
    (auto intro!: sfx_Cons dest: unicode_escape_sfx intro: sfx_trans)

text \<open>White space and numbers are consumed up to the terminator at most.\<close>

definition zkeep :: "string \<Rightarrow> string \<Rightarrow> bool" where
  "zkeep s r \<longleftrightarrow> sfx s r \<and> (NUL \<in> set s \<longrightarrow> NUL \<in> set r)"

lemma zkeep_refl [simp]: "zkeep s s"
  by (simp add: zkeep_def)

lemma zkeep_trans [trans]: "zkeep a b \<Longrightarrow> zkeep b c \<Longrightarrow> zkeep a c"
  using sfx_trans by (auto simp: zkeep_def)

lemma zkeep_Cons: "c \<noteq> NUL \<Longrightarrow> zkeep s r \<Longrightarrow> zkeep (c # s) r"
  by (auto simp: zkeep_def)

lemma zkeep_tl: "deref s = Some c \<Longrightarrow> c \<noteq> NUL \<Longrightarrow> zkeep (tl s) r \<Longrightarrow> zkeep s r"
  by (cases s) (auto intro: zkeep_Cons)

lemma zkeep_dot: "deref s = Some CHR ''.'' \<Longrightarrow> zkeep s (tl s)"
  by (rule zkeep_tl) auto

lemma zkeep_sfx: "zkeep s r \<Longrightarrow> sfx s r"
  by (simp add: zkeep_def)

lemma zkeep_digit: "is_digit c \<Longrightarrow> zkeep s r \<Longrightarrow> zkeep (c # s) r"
  by (rule zkeep_Cons) (auto simp: is_digit_def)

lemma skip_text_zkeep: "skip_text s = Some r \<Longrightarrow> zkeep s r"
  by (induction s) (auto split: if_splits intro: zkeep_Cons)

lemma digits_loop_zkeep: "digits_loop s n = Some (n', r) \<Longrightarrow> zkeep s r"
  by (induction s n rule: digits_loop.induct)
    (auto split: if_splits intro: zkeep_digit)

lemma frac_loop_zkeep: "frac_loop s n k = Some (n', k', r) \<Longrightarrow> zkeep s r"
  by (induction s n k rule: frac_loop.induct)
    (auto split: if_splits intro: zkeep_digit)

lemma exp_loop_zkeep: "exp_loop s k = Some (k', r) \<Longrightarrow> zkeep s r"
  by (induction s k rule: exp_loop.induct)
    (auto split: if_splits intro: zkeep_digit)

lemma parse_exponent_zkeep:
  assumes "parse_exponent s = Some (k, r)"
  shows "zkeep s r"
proof -
  from assms obtain c where c: "deref s = Some c" by (auto simp: parse_exponent_def monad_simps)
  show ?thesis
  proof (cases "c = CHR ''e'' \<or> c = CHR ''E''")
    case False
    with assms c show ?thesis by (auto simp: parse_exponent_def)
  next
    case True
    with assms c obtain d where d: "deref (tl s) = Some d" by (auto simp: parse_exponent_def monad_simps)
    with assms c True have "zkeep (tl s) r"
      using zkeep_tl [OF d] by (auto simp: parse_exponent_def monad_simps dest!: exp_loop_zkeep split: if_splits)
    with zkeep_tl [OF c] True show ?thesis by auto
  qed
qed

lemma parse_number_text_zkeep:
  assumes "parse_number_text s = Some (n, r)"
  shows "zkeep s r"
proof -
  from assms obtain c0 where c0: "deref s = Some c0"
    by (auto simp: parse_number_text_def elim: bind_SomeE)
  define s0 where "s0 = (if c0 = CHR ''-'' then tl s else s)"
  from assms c0 obtain c1 where c1: "deref s0 = Some c1"
    by (cases "c0 = CHR ''-''") (auto simp: s0_def parse_number_text_def elim: bind_SomeE)
  define s1 where "s1 = (if c1 = CHR ''0'' then tl s0 else s0)"
  obtain sg where sg: "(if c0 = CHR ''-'' then (int_fl (- 1), tl s) else (int_fl 1, s)) = (sg, s0)"
    by (cases "c0 = CHR ''-''") (simp_all add: s0_def)
  note step = assms [unfolded parse_number_text_def c0 Option.bind.simps sg Let_def prod.case c1
    s1_def [symmetric]]
  have "zkeep s1 r" using step
    by (auto simp: monad_simps split: if_split_asm
        dest!: digits_loop_zkeep frac_loop_zkeep parse_exponent_zkeep zkeep_dot intro: zkeep_trans)
  moreover have "zkeep s s0" "zkeep s0 s1"
    using zkeep_tl [OF c0] zkeep_tl [OF c1] by (auto simp: s0_def s1_def)
  ultimately show ?thesis using zkeep_trans by blast
qed

lemmas parse_number_text_sfx = zkeep_sfx [OF parse_number_text_zkeep]

lemma jvalue_sfx:
  "jvalue b s j r \<Longrightarrow> sfx s r"
  "jelems b s js r \<Longrightarrow> sfx s r"
  "jmember b s ms r \<Longrightarrow> sfx s r"
  "jmembers b s ms r \<Longrightarrow> sfx s r"
  by (induction rule: jvalue_jelems_jmember_jmembers.inducts)
    (metis sfx_refl sfx_Cons sfx_trans skip_text_sfx lit_sfx parse_number_text_sfx)+

subsection \<open>What a call leaves in memory\<close>

text \<open>
  \<open>grow A X h h'\<close>: from \<open>h\<close> to \<open>h'\<close> only the addresses of \<open>A\<close> changed and the
  fresh addresses \<open>X\<close> were taken; every other address holds what it held.
\<close>

definition grow :: "addr set \<Rightarrow> addr list \<Rightarrow> heap \<Rightarrow> heap \<Rightarrow> bool" where
  "grow A X h h' \<longleftrightarrow> heap_ok h' \<and> brk h \<le> brk h' \<and> room h' = room h \<and> distinct X
     \<and> set X \<subseteq> {brk h..<brk h'} \<and> (\<forall>b. b \<notin> A \<union> set X \<longrightarrow> mem h' b = mem h b)"

lemma grow_refl [simp]: "heap_ok h \<Longrightarrow> grow A [] h h"
  by (simp add: grow_def)

lemma grow_ok: "grow A X h h' \<Longrightarrow> heap_ok h'"
  by (simp add: grow_def)

lemma grow_same: "grow A X h h' \<Longrightarrow> b \<notin> A \<Longrightarrow> b < brk h \<Longrightarrow> mem h' b = mem h b"
  by (auto simp: grow_def)

lemma grow_range: "grow A X h h' \<Longrightarrow> x \<in> set X \<Longrightarrow> brk h \<le> x \<and> x < brk h'"
  by (auto simp: grow_def)

lemma grow_trans:
  assumes "grow A X h h1" "grow B Y h1 h2" "B \<subseteq> A \<union> set X"
  shows "grow A (X @ Y) h h2"
proof -
  have "set X \<inter> set Y = {}" using assms(1,2) by (fastforce simp: grow_def)
  then show ?thesis using assms by (auto simp: grow_def subset_iff)
qed

lemma grow_perm: "grow A X h h' \<Longrightarrow> mset X = mset Y \<Longrightarrow> grow A Y h h'"
  using mset_eq_setD [of X Y] mset_eq_imp_distinct_iff [of X Y] by (simp add: grow_def)

lemma grow_upd:
  assumes "heap_ok h" "upd_node a f h = Some h'" "a \<in> A"
  shows "grow A [] h h'" "brk h' = brk h"
    "\<exists>n. mem h a = Some (Node n) \<and> mem h' = (mem h)(a := Some (Node (f n)))"
proof -
  from assms(2) obtain n where n: "mem h a = Some (Node n)"
    and h': "h' = h\<lparr>mem := (mem h)(a := Some (Node (f n)))\<rparr>"
    by (auto simp: upd_node_def monad_simps mem_simps)
  have "heap_ok h'" using heap_ok_0 [OF assms(1) n] assms(1) unfolding h' heap_ok_def by simp
  moreover have "\<forall>b. b \<notin> A \<longrightarrow> mem h' b = mem h b" using assms(3) unfolding h' by simp
  moreover have "brk h' = brk h" "room h' = room h" unfolding h' by simp_all
  ultimately show "grow A [] h h'" unfolding grow_def by simp
  show "brk h' = brk h" unfolding h' by simp
  show "\<exists>n. mem h a = Some (Node n) \<and> mem h' = (mem h)(a := Some (Node (f n)))"
    using n unfolding h' by auto
qed

lemma grow_malloc:
  assumes "heap_ok h" "c_malloc c h = (a, h')" "a \<noteq> 0"
  shows "grow A [a] h h'" "mem h' = (mem h)(a := Some c)" "a = brk h"
proof -
  note m = c_malloc_ok [OF assms(1,2)]
  from m(5,6) assms(3) show a: "a = brk h" and mm: "mem h' = (mem h)(a := Some c)" by blast+
  show "grow A [a] h h'" using m(1-3) unfolding grow_def mm a by simp
qed

lemma grow_malloc_fail:
  assumes "heap_ok h" "c_malloc c h = (0, h')"
  shows "grow A [] h h'"
  using c_malloc_ok [OF assms] by (auto simp: grow_def)

lemma grow_ep [simp]: "grow A X h (h'\<lparr>ep := e\<rparr>) = grow A X h h'"
  by (simp add: grow_def heap_ok_def)

lemma grow_seg:
  assumes "grow A X h h'" "seg (mem h) p ts q" "set (foot ts) \<inter> A = {}" "heap_ok h"
  shows "seg (mem h') p ts q"
proof (rule seg_frame [OF assms(2)])
  show "\<forall>a\<in>set (foot ts). mem h' a = mem h a"
  proof
    fix a assume a: "a \<in> set (foot ts)"
    then have "mem h a \<noteq> None" using seg_live [OF assms(2)] by simp
    then have "a < brk h" using heap_ok_0 [OF assms(4)] by auto
    with a assms(1,3) show "mem h' a = mem h a" by (auto intro: grow_same)
  qed
qed

subsection \<open>String literals\<close>

lemma unesc_lit:
  "unesc s (cap, out) = Some (w, p) \<Longrightarrow>
     \<exists>o' r. w = (cap, out @ o') \<and> lit False s o' r
       \<and> (p = QUOTE # r \<or> (\<exists>p'. p = NUL # p' \<and> r = p))"
proof (induction s "(cap, out)" arbitrary: out rule: unesc.induct)
  case 1
  then show ?case by simp
next
  case (2 c s)
  show ?case
  proof (cases "c = QUOTE \<or> c = NUL")
    case True
    then show ?thesis using 2(4) by (auto intro: lit.intros)
  next
    case F: False
    show ?thesis
    proof (cases "c = BSLASH")
      case False
      with F 2(4) have "unesc s (cap, out @ [c]) = Some (w, p)"
        by (auto simp: emit_def split: if_splits)
      from 2(1) [OF _ False _ this] F False 2(4) obtain o' r where
        "w = (cap, (out @ [c]) @ o')" "lit False s o' r" "p = QUOTE # r \<or> (\<exists>p'. p = NUL # p' \<and> r = p)"
        by (auto simp: emit_def split: if_splits)
      with F False show ?thesis by (auto intro: lit.intros)
    next
      case B: True
      with 2(4) obtain e t where s: "s = e # t" by (cases s) auto
      show ?thesis
      proof (cases "e = CHR ''u''")
        case True
        with B 2(4) s obtain bs r' where u: "unicode_escape t = Some (bs, r')" "length r' \<le> length t"
          and e: "emit bs (cap, out) \<bind> unesc r' = Some (w, p)"
          by (auto split: option.splits if_splits)
        from e have e2: "emit bs (cap, out) = Some (cap, out @ bs)" "unesc r' (cap, out @ bs) = Some (w, p)"
          by (auto simp: emit_def split: if_splits)
        from 2(2) [OF F _ s True u(1) refl u(2) e2] B obtain o' r where
          "w = (cap, (out @ bs) @ o')" "lit False r' o' r" "p = QUOTE # r \<or> (\<exists>p'. p = NUL # p' \<and> r = p)"
          by auto
        with B s True u show ?thesis by (auto intro: lit.intros)
      next
        case False
        with B 2(4) s have e: "emit [simple_escape e] (cap, out) \<bind> unesc t = Some (w, p)" by auto
        then have e2: "emit [simple_escape e] (cap, out) = Some (cap, out @ [simple_escape e])"
          "unesc t (cap, out @ [simple_escape e]) = Some (w, p)"
          by (auto simp: emit_def split: if_splits)
        from 2(3) [OF F _ s False e2] B obtain o' r where
          "w = (cap, (out @ [simple_escape e]) @ o')" "lit False t o' r"
          "p = QUOTE # r \<or> (\<exists>p'. p = NUL # p' \<and> r = p)"
          by auto
        with B s False show ?thesis by (auto intro: lit.intros)
      qed
    qed
  qed
qed

subsection \<open>One node at a time\<close>

definition blank :: "addr \<Rightarrow> jt" where
  "blank a = Own a 0 None 0 (Fin False 0) None []"

lemma blank_node: "zero_node = node_of 0 0 (blank a)"
  by (simp add: zero_node_def blank_def)

lemma is_ref_types [simp]:
  "\<not> is_ref 0" "\<not> is_ref cJSON_False" "\<not> is_ref cJSON_True" "\<not> is_ref cJSON_NULL"
  "\<not> is_ref cJSON_Number" "\<not> is_ref cJSON_String" "\<not> is_ref cJSON_Array"
  "\<not> is_ref cJSON_Object"
  by (simp_all add: is_ref_def cJSON_types)

lemma is_ref_reference [simp]: "is_ref cJSON_IsReference"
  by (simp add: is_ref_def cJSON_types)

lemma new_item:
  assumes "heap_ok h" "cJSON_New_Item h = (c, h')" "c \<noteq> 0"
  shows "grow A [c] h h'" "c = brk h" "mem h' = (mem h)(c := Some (Node zero_node))"
    "seg (mem h') 0 [blank c] 0"
  using grow_malloc [OF assms(1) assms(2) [unfolded cJSON_New_Item_def] assms(3)] assms(3)
  by (simp_all add: blank_node [of c]) (simp add: blank_def)

lemma upd_own:
  assumes h: "heap_ok h" "upd_node a f h = Some h'"
    and n: "mem h a = Some (Node n)" "f n = node_of p q (Own a ty vs vi vd nm ks)"
    and t: "\<not> is_ref ty" "str_in (mem h) vs" "str_in (mem h) nm" "seg (mem h) 0 ks 0"
    and a: "a \<notin> set (sadr vs @ sadr nm @ foot ks)"
  shows "seg (mem h') p [Own a ty vs vi vd nm ks] q" "grow {a} [] h h'"
    "mem h' = (mem h)(a := Some (Node (f n)))"
proof -
  note g = grow_upd [OF h, of "{a}"]
  show "grow {a} [] h h'" using g(1) by simp
  show m: "mem h' = (mem h)(a := Some (Node (f n)))" using g(3) n(1) by auto
  have "a \<noteq> 0" using heap_ok_0 [OF h(1) n(1)] by simp
  with n(2) t a show "seg (mem h') p [Own a ty vs vi vd nm ks] q"
    unfolding m by (auto intro!: str_in_frame [of "mem h"])
qed

lemma parse_string_grow:
  assumes ok: "heap_ok h"
    and t: "seg (mem h) p [Own a ty None vi vd nm []] q" "a \<notin> set (sadr nm)"
    and run: "parse_string a s h = Some (r, h')"
  shows "\<exists>ty' vs. seg (mem h') p [Own a ty' vs vi vd nm []] q \<and> grow {a} (sadr vs) h h'
     \<and> (\<forall>rest. r = Ptr rest \<longrightarrow> (\<exists>s' out x. s = QUOTE # s' \<and> lit False s' out rest
           \<and> ty' = cJSON_String \<and> vs = Some (x, tk out)))"
proof -
  from run obtain c where c: "deref s = Some c" by (auto simp: parse_string_def monad_simps)
  show ?thesis
  proof (cases "c = QUOTE")
    case False
    with run c have "r = Null" "h' = h\<lparr>ep := Ptr s\<rparr>" by (auto simp: parse_string_def)
    with ok t show ?thesis by (intro exI [of _ ty] exI [of _ None]) simp
  next
    case True
    with c obtain s' where s: "s = QUOTE # s'" by (auto simp: deref_Some_iff)
    obtain out h1 where m: "c_malloc (Buf []) h = (out, h1)" by (cases "c_malloc (Buf []) h")
    from run s m obtain len where len: "scan_len s' = Some len"
      by (auto simp: parse_string_def monad_simps)
    note run2 = run [unfolded parse_string_def s deref_simps Option.bind.simps list.sel len m Let_def
        prod.case simp_thms if_False]
    show ?thesis
    proof (cases "out = 0")
      case True
      with run2 have "r = Null" "h' = h1" by auto
      moreover note grow_malloc_fail [OF ok m [unfolded True], of "{a}"]
      moreover have "mem h1 = mem h" using c_malloc_ok(5) [OF ok m] True by simp
      ultimately show ?thesis using t by (intro exI [of _ ty] exI [of _ None]) simp
    next
      case False
      from run2 False obtain w1 pp w q0 where u: "unesc s' (len + 1, []) = Some (w1, pp)"
        and e: "emit [NUL] w1 = Some w" and d: "deref pp = Some q0"
        and up: "upd_node a (\<lambda>n. n\<lparr>j_valuestring := out, j_type := cJSON_String\<rparr>)
                (h1\<lparr>mem := (mem h1)(out := Some (Buf (takeWhile (\<lambda>c. c \<noteq> NUL) (snd w))))\<rparr>) = Some h'"
        and r: "r = Ptr (if q0 = QUOTE then tl pp else pp)"
        by (auto simp: monad_simps split: prod.splits)
      from unesc_lit [OF u] obtain o' rest where l: "w1 = (len + 1, o')" "lit False s' o' rest"
        "pp = QUOTE # rest \<or> (\<exists>p'. pp = NUL # p' \<and> rest = pp)" by auto
      have rr: "r = Ptr rest" using l(3) d r by auto
      have w: "takeWhile (\<lambda>c. c \<noteq> NUL) (snd w) = tk o'"
        using e l(1) by (auto simp: emit_def split: if_splits)
      note gm = grow_malloc [OF ok m False]
      let ?h2 = "h1\<lparr>mem := (mem h1)(out := Some (Buf (tk o')))\<rparr>"
      have g2: "grow {a} [out] h ?h2" using gm(1) [of "{a}"] gm(2) False
        by (auto simp: grow_def heap_ok_def)
      have n: "mem h a = Some (Node (node_of p q (Own a ty None vi vd nm [])))"
        and nm: "str_in (mem h) nm" using t(1) by auto
      have ao: "a \<noteq> out" "out \<notin> set (sadr nm)"
        using heap_ok_0 [OF ok n] heap_ok_0 [OF ok] nm gm(3)
        by (auto simp: str_in_def sadr_def split: option.splits)
      from n gm(2) ao have n2: "mem ?h2 a = Some (Node (node_of p q (Own a ty None vi vd nm [])))" by simp
      have "str_in (mem ?h2) nm" using nm ao gm(2) by (auto intro!: str_in_frame [of "mem h"])
      from upd_own [OF grow_ok [OF g2] up [unfolded w] n2, of p q cJSON_String "Some (out, tk o')" vi vd nm "[]"]
        this ao t(2) False
      have "seg (mem h') p [Own a cJSON_String (Some (out, tk o')) vi vd nm []] q" "grow {a} [] ?h2 h'"
        by simp_all
      moreover from grow_trans [OF g2 this(2)] have "grow {a} [out] h h'" by simp
      ultimately show ?thesis using s l(2) rr
        by (intro exI [of _ cJSON_String] exI [of _ "Some (out, tk o')"]) auto
    qed
  qed
qed

subsection \<open>Every call of the parser\<close>

text \<open>
  What is known of a call: the node it fills is in place, and afterwards the node carries a
  well formed tree over fresh memory, derived by the grammar when the call succeeded.
\<close>

definition vpre :: "heap \<Rightarrow> addr \<Rightarrow> addr \<Rightarrow> jt \<Rightarrow> bool" where
  "vpre h p q t \<longleftrightarrow> heap_ok h \<and> seg (mem h) p [t] q \<and> distinct (foot [t])
     \<and> (\<exists>a ty vi vd nm. t = Own a ty None vi vd nm [])"

definition vpost :: "heap \<Rightarrow> addr \<Rightarrow> addr \<Rightarrow> jt \<Rightarrow> string \<Rightarrow> cptr \<Rightarrow> heap \<Rightarrow> bool" where
  "vpost h p q t s r h' \<longleftrightarrow> (\<exists>ty vs vi vd ks.
     seg (mem h') p [Own (jaddr t) ty vs vi vd (jname t) ks] q
     \<and> grow {jaddr t} (sadr vs @ foot ks) h h'
     \<and> (\<forall>rest. r = Ptr rest \<longrightarrow> (\<exists>j. jvalue False s j rest
           \<and> jrep j (Own (jaddr t) ty vs vi vd (jname t) ks))))"

definition epre :: "heap \<Rightarrow> addr \<Rightarrow> jt \<Rightarrow> bool" where
  "epre h p t \<longleftrightarrow> heap_ok h \<and> seg (mem h) p [t] 0 \<and> distinct (foot [t])"

definition epost :: "heap \<Rightarrow> addr \<Rightarrow> jt \<Rightarrow> string \<Rightarrow> cptr \<Rightarrow> heap \<Rightarrow> bool" where
  "epost h p t s r h' \<longleftrightarrow> (\<exists>ts. seg (mem h') p (t # ts) 0 \<and> grow {jaddr t} (foot ts) h h'
     \<and> (\<forall>rest. r = Ptr rest \<longrightarrow> (\<exists>js. jelems False s js rest \<and> jreps js ts)))"

definition mspost :: "heap \<Rightarrow> addr \<Rightarrow> jt \<Rightarrow> string \<Rightarrow> cptr \<Rightarrow> heap \<Rightarrow> bool" where
  "mspost h p t s r h' \<longleftrightarrow> (\<exists>ts. seg (mem h') p (t # ts) 0 \<and> grow {jaddr t} (foot ts) h h'
     \<and> (\<forall>rest. r = Ptr rest \<longrightarrow> (\<exists>ms. jmembers False s ms rest \<and> jmems ms ts)))"

definition mpost :: "heap \<Rightarrow> addr \<Rightarrow> addr \<Rightarrow> string \<Rightarrow> cptr \<Rightarrow> heap \<Rightarrow> bool" where
  "mpost h p a s r h' \<longleftrightarrow> (\<exists>ty vs vi vd nm ks ts.
     seg (mem h') p (Own a ty vs vi vd nm ks # ts) 0
     \<and> grow {a} (sadr vs @ sadr nm @ foot ks @ foot ts) h h'
     \<and> (\<forall>rest. r = Ptr rest \<longrightarrow> (\<exists>ms. jmember False s ms rest
           \<and> jmems ms (Own a ty vs vi vd nm ks # ts))))"

definition rec_ok :: "(pcall \<Rightarrow> heap \<Rightarrow> presult) \<Rightarrow> bool" where
  "rec_ok rec \<longleftrightarrow>
     (\<forall>h p q t s r h'. vpre h p q t \<longrightarrow> rec (Value (jaddr t) (Ptr s)) h = Some (r, h') \<longrightarrow> vpost h p q t s r h')
   \<and> (\<forall>h p q t s r h'. vpre h p q t \<longrightarrow> rec (Array (jaddr t) s) h = Some (r, h') \<longrightarrow> vpost h p q t s r h')
   \<and> (\<forall>h p q t s r h'. vpre h p q t \<longrightarrow> rec (Object (jaddr t) s) h = Some (r, h') \<longrightarrow> vpost h p q t s r h')
   \<and> (\<forall>h p t s r h'. epre h p t \<longrightarrow> rec (Elems (jaddr t) s) h = Some (r, h') \<longrightarrow> epost h p t s r h')
   \<and> (\<forall>h p t s r h'. epre h p t \<longrightarrow> rec (Members (jaddr t) s) h = Some (r, h') \<longrightarrow> mspost h p t s r h')
   \<and> (\<forall>h p a s r h'. epre h p (blank a) \<longrightarrow> rec (Member a s) h = Some (r, h') \<longrightarrow> mpost h p a s r h')"

lemma rec_okD:
  assumes "rec_ok rec"
  shows "vpre h p q t \<Longrightarrow> rec (Value (jaddr t) (Ptr s)) h = Some (r, h') \<Longrightarrow> vpost h p q t s r h'"
    "vpre h p q t \<Longrightarrow> rec (Array (jaddr t) s) h = Some (r, h') \<Longrightarrow> vpost h p q t s r h'"
    "vpre h p q t \<Longrightarrow> rec (Object (jaddr t) s) h = Some (r, h') \<Longrightarrow> vpost h p q t s r h'"
    "epre h p t \<Longrightarrow> rec (Elems (jaddr t) s) h = Some (r, h') \<Longrightarrow> epost h p t s r h'"
    "epre h p t \<Longrightarrow> rec (Members (jaddr t) s) h = Some (r, h') \<Longrightarrow> mspost h p t s r h'"
    "epre h p (blank a) \<Longrightarrow> rec (Member a s) h = Some (r, h') \<Longrightarrow> mpost h p a s r h'"
  by (meson assms [unfolded rec_ok_def])+

text \<open>The constant and number cases only write the node.\<close>

lemma vpost_leaf:
  assumes pre: "vpre h p q t" and up: "upd_node (jaddr t) f h = Some h'"
    and f: "\<And>n. f n = n\<lparr>j_type := ty, j_valueint := vi' (j_valueint n), j_valuedouble := vd' (j_valuedouble n)\<rparr>"
    and ty: "\<not> is_ref ty"
    and j: "\<And>vi vd. jvalue False s (j vi vd) rest \<and> jrep (j vi vd) (Own (jaddr t) ty None (vi' vi) (vd' vd) (jname t) [])"
  shows "vpost h p q t s (Ptr rest) h'"
proof -
  from pre obtain a ty0 vi vd nm where t: "t = Own a ty0 None vi vd nm []"
    unfolding vpre_def by blast
  have n: "mem h a = Some (Node (node_of p q t))" "str_in (mem h) nm" "heap_ok h" "a \<notin> set (sadr nm)"
    using pre by (auto simp: vpre_def t)
  have "f (node_of p q t) = node_of p q (Own a ty None (vi' vi) (vd' vd) nm [])"
    by (simp add: f t)
  from upd_own [OF n(3) up [unfolded t jt.sel] n(1) this ty] n show ?thesis
    unfolding vpost_def t jt.sel using j [of vi vd, unfolded t jt.sel]
    by (intro exI [of _ ty] exI [of _ None] exI [of _ "vi' vi"] exI [of _ "vd' vd"] exI [of _ "[]"]) auto
qed

lemma vpost_fail:
  assumes pre: "vpre h p q t"
  shows "vpost h p q t s Null h" "vpost h p q t s Null (h\<lparr>ep := e\<rparr>)"
proof -
  from pre obtain a ty vi vd nm where "t = Own a ty None vi vd nm []"
    unfolding vpre_def by blast
  with pre show "vpost h p q t s Null h" "vpost h p q t s Null (h\<lparr>ep := e\<rparr>)"
    unfolding vpost_def vpre_def
    by (intro exI [of _ ty] exI [of _ None] exI [of _ vi] exI [of _ vd] exI [of _ "[]"]; simp)+
qed

lemma vpost_string:
  assumes pre: "vpre h p q t" and run: "parse_string (jaddr t) s h = Some (r, h')"
  shows "vpost h p q t s r h'"
proof -
  from pre obtain a ty vi vd nm where t: "t = Own a ty None vi vd nm []"
    and h: "heap_ok h" "seg (mem h) p [Own a ty None vi vd nm []] q" "a \<notin> set (sadr nm)"
    unfolding vpre_def by auto
  from parse_string_grow [OF h run [unfolded t jt.sel]] obtain ty' vs where
    g: "seg (mem h') p [Own a ty' vs vi vd nm []] q" "grow {a} (sadr vs) h h'"
      "\<forall>rest. r = Ptr rest \<longrightarrow> (\<exists>s' out x. s = QUOTE # s' \<and> lit False s' out rest
           \<and> ty' = cJSON_String \<and> vs = Some (x, tk out))"
    by (elim exE conjE) (rule that; assumption)
  have "\<forall>rest. r = Ptr rest \<longrightarrow> (\<exists>j. jvalue False s j rest \<and> jrep j (Own a ty' vs vi vd nm []))"
  proof (intro allI impI)
    fix rest assume "r = Ptr rest"
    with g(3) obtain s' out x where "s = QUOTE # s'" "lit False s' out rest" "ty' = cJSON_String"
      "vs = Some (x, tk out)" by blast
    then show "\<exists>j. jvalue False s j rest \<and> jrep j (Own a ty' vs vi vd nm [])"
      by (intro exI [of _ "JStr (tk out)"]) (auto intro: jvalue_jelems_jmember_jmembers.intros)
  qed
  with g(1,2) show ?thesis unfolding vpost_def t jt.sel
    by (intro exI [of _ ty'] exI [of _ vs] exI [of _ vi] exI [of _ vd] exI [of _ "[]"]) simp
qed

lemma vpost_number:
  assumes pre: "vpre h p q t" and run: "parse_number (jaddr t) (c # s) h = Some (r, h')"
    and c: "c = CHR ''-'' \<or> is_digit c"
  shows "vpost h p q t (c # s) r h'"
proof -
  from run obtain n rest i where n: "parse_number_text (c # s) = Some (n, rest)" "to_int 64 n = Some i"
    and up: "upd_node (jaddr t) (\<lambda>x. x\<lparr>j_valuedouble := n, j_valueint := i, j_type := cJSON_Number\<rparr>) h
      = Some h'" and r: "r = Ptr rest"
    by (auto simp: parse_number_def monad_simps)
  show ?thesis unfolding r
    by (rule vpost_leaf [OF pre up, where ty = cJSON_Number and vi' = "\<lambda>_. i" and vd' = "\<lambda>_. n" and j = "\<lambda>_ _. JNum i n"])
      (use n c in \<open>auto intro: jvalue_jelems_jmember_jmembers.intros\<close>)
qed

lemma value_body_ok:
  assumes rec: "rec_ok rec" and pre: "vpre h p q t"
    and run: "parse_value_body rec (jaddr t) (Ptr v) h = Some (r, h')"
  shows "vpost h p q t v r h'"
proof -
  note intr = jvalue_jelems_jmember_jmembers.intros
  from run obtain b1 where b1: "strncmp_eq v ''null'' = Some b1"
    by (auto simp: parse_value_body_def monad_simps)
  show ?thesis
  proof (cases b1)
    case True
    then obtain x where v: "v = ''null'' @ x" using strncmp_eq_True [of "''null''" v] b1 by auto
    from run b1 True obtain up: "upd_node (jaddr t) (\<lambda>n. n\<lparr>j_type := cJSON_NULL\<rparr>) h = Some h'"
      and r: "r = Ptr x" by (auto simp: parse_value_body_def monad_simps v)
    show ?thesis unfolding r
      by (rule vpost_leaf [OF pre up, where ty = cJSON_NULL and vi' = "\<lambda>i. i" and vd' = "\<lambda>d. d" and j = "\<lambda>_ _. JNull"]) (auto simp: v intro: intr)
  next
    case F1: False
    note run1 = run [unfolded parse_value_body_def cptr.case b1 Option.bind.simps]
    from run1 F1 obtain b2 where b2: "strncmp_eq v ''false'' = Some b2" by (auto simp: monad_simps)
    show ?thesis
    proof (cases b2)
      case True
      then obtain x where v: "v = ''false'' @ x" using strncmp_eq_True [of "''false''" v] b2 by auto
      from run1 F1 b2 True obtain up: "upd_node (jaddr t) (\<lambda>n. n\<lparr>j_type := cJSON_False\<rparr>) h = Some h'"
        and r: "r = Ptr x" by (auto simp: monad_simps v)
      show ?thesis unfolding r
        by (rule vpost_leaf [OF pre up, where ty = cJSON_False and vi' = "\<lambda>i. i" and vd' = "\<lambda>d. d" and j = "\<lambda>_ _. JFalse"])
          (auto simp: v intro: intr)
    next
      case F2: False
      note run2 = run1 [unfolded b2 Option.bind.simps]
      from run2 F1 F2 obtain b3 where b3: "strncmp_eq v ''true'' = Some b3" by (auto simp: monad_simps)
      show ?thesis
      proof (cases b3)
        case True
        then obtain x where v: "v = ''true'' @ x" using strncmp_eq_True [of "''true''" v] b3 by auto
        from run2 F1 F2 b3 True obtain up: "upd_node (jaddr t) (\<lambda>n. n\<lparr>j_type := cJSON_True, j_valueint := 1\<rparr>) h = Some h'"
          and r: "r = Ptr x" by (auto simp: monad_simps v)
        show ?thesis unfolding r
          by (rule vpost_leaf [OF pre up, where ty = cJSON_True and vi' = "\<lambda>i. 1" and vd' = "\<lambda>d. d" and j = "\<lambda>_ _. JTrue"])
            (auto simp: v intro: intr)
      next
        case F3: False
        from run2 F1 F2 F3 b3 obtain c where "deref v = Some c" by (auto simp: monad_simps)
        then obtain v' where v: "v = c # v'" by (auto simp: deref_Some_iff)
        from run2 F1 F2 F3 b3 v have
          "(if c = QUOTE then parse_string (jaddr t) v h
            else if c = CHR ''-'' \<or> is_digit c then parse_number (jaddr t) v h
            else if c = CHR ''['' then rec (Array (jaddr t) v) h
            else if c = CHR ''{'' then rec (Object (jaddr t) v) h
            else Some (Null, h\<lparr>ep := Ptr v\<rparr>)) = Some (r, h')" by simp
        then consider "parse_string (jaddr t) v h = Some (r, h')"
          | "c = CHR ''-'' \<or> is_digit c" "parse_number (jaddr t) v h = Some (r, h')"
          | "rec (Array (jaddr t) v) h = Some (r, h')" | "rec (Object (jaddr t) v) h = Some (r, h')"
          | "r = Null" "h' = h\<lparr>ep := Ptr v\<rparr>"
          by (cases "c = QUOTE"; cases "c = CHR ''-'' \<or> is_digit c"; cases "c = CHR ''[''"; cases "c = CHR ''{''"; simp)
        then show ?thesis
        proof cases
          case 1
          then show ?thesis by (rule vpost_string [OF pre])
        next
          case 2
          with v vpost_number [OF pre] show ?thesis by simp
        next
          case 3
          then show ?thesis by (rule rec_okD(2) [OF rec pre])
        next
          case 4
          then show ?thesis by (rule rec_okD(3) [OF rec pre])
        next
          case 5
          with vpost_fail(2) [OF pre] show ?thesis by simp
        qed
      qed
    qed
  qed
qed

text \<open>Arrays and objects hang a first child under the node they were given.\<close>

lemma upd_vnode:
  assumes pre: "vpre h p q (Own a ty None vi vd nm [])" and up: "upd_node a f h = Some h'"
    and f: "f (node_of p q (Own a ty None vi vd nm [])) = node_of p q (Own a ty' None vi vd nm [])"
    and ty: "\<not> is_ref ty'"
  shows "vpre h' p q (Own a ty' None vi vd nm [])" "grow {a} [] h h'"
proof -
  have n: "mem h a = Some (Node (node_of p q (Own a ty None vi vd nm [])))" "heap_ok h"
    "str_in (mem h) nm" "a \<notin> set (sadr nm)" "distinct (sadr nm)"
    using pre by (auto simp: vpre_def)
  note u = upd_own [OF n(2) up n(1) f ty]
  from u(2) n show g: "grow {a} [] h h'" by simp
  from u(1) n have "seg (mem h') p [Own a ty' None vi vd nm []] q" by simp
  with grow_ok [OF g] n show "vpre h' p q (Own a ty' None vi vd nm [])"
    unfolding vpre_def by auto
qed

text \<open>After \<open>j_child\<close> is set, whatever the child's list becomes, the parent carries it.\<close>

lemma open_child:
  assumes pre: "vpre h p q (Own a ty None vi vd nm [])"
    and new: "cJSON_New_Item h = (c, h1)" "c \<noteq> 0"
    and up: "upd_node a (\<lambda>n. n\<lparr>j_child := c\<rparr>) h1 = Some h2"
  shows "epre h2 0 (blank c)" "grow {a} [c] h h2"
    "\<And>h' X ts. grow {c} X h2 h' \<Longrightarrow> seg (mem h') 0 (ts) 0 \<Longrightarrow> first ts 0 = c
       \<Longrightarrow> seg (mem h') p [Own a ty None vi vd nm ts] q"
proof -
  have n: "mem h a = Some (Node (node_of p q (Own a ty None vi vd nm [])))" "heap_ok h"
    "str_in (mem h) nm" "a \<notin> set (sadr nm)" "distinct (sadr nm)" "a \<noteq> 0" "\<not> is_ref ty"
    using pre by (auto simp: vpre_def)
  note ni = new_item [OF n(2) new]
  have ac: "a \<noteq> c" "a < brk h" using heap_ok_0 [OF n(2) n(1)] ni(2) by auto
  have nc: "c \<notin> set (sadr nm)" "\<forall>x\<in>set (sadr nm). x < brk h"
    using n(3) heap_ok_0 [OF n(2)] ni(2) by (auto simp: str_in_def sadr_def split: option.splits)
  have n1: "mem h1 a = Some (Node (node_of p q (Own a ty None vi vd nm [])))" "str_in (mem h1) nm"
    using n ac nc ni(3) by (auto intro!: str_in_frame [of "mem h"])
  have ok1: "heap_ok h1" using ni(1) grow_ok by blast
  note u = upd_own [OF ok1 up n1(1), where p = p and q = q and ty = ty and vs = None and vi = vi and vd = vd
      and nm = nm and ks = "[blank c]"]
  have u': "seg (mem h2) p [Own a ty None vi vd nm [blank c]] q" "grow {a} [] h1 h2"
    using u n n1 ni(4) ac nc by (auto simp: blank_def)
  then show "epre h2 0 (blank c)" using grow_ok [OF u'(2)] by (auto simp: epre_def blank_def)
  show g: "grow {a} [c] h h2" using grow_trans [OF ni(1) u'(2)] by simp
  fix h' X ts assume h': "grow {c} X h2 h'" "seg (mem h') 0 ts 0" "first ts 0 = c"
  have "a < brk h2" "\<forall>x\<in>set (sadr nm). x < brk h2" using g ac nc by (auto simp: grow_def)
  then have "mem h' a = mem h2 a" "\<forall>x\<in>set (sadr nm). mem h' x = mem h2 x"
    using grow_same [OF h'(1)] ac nc by (auto, metis)
  with u'(1) h'(2,3) n(6,7) show "seg (mem h') p [Own a ty None vi vd nm ts] q"
    by (auto simp: blank_def intro!: str_in_frame [of "mem h2"])
qed

lemma vpre_blank: "epre h p (blank c) \<longleftrightarrow> vpre h p 0 (blank c)"
  by (auto simp: epre_def vpre_def blank_def)

lemma vpre_own:
  assumes "vpre h p q t"
  obtains a ty vi vd nm where "t = Own a ty None vi vd nm []"
  using assms unfolding vpre_def by blast

lemma vpost_own:
  "vpost h p q (Own a ty0 vs0 vi0 vd0 nm ks0) s r h' \<longleftrightarrow> (\<exists>ty vs vi vd ks.
     seg (mem h') p [Own a ty vs vi vd nm ks] q \<and> grow {a} (sadr vs @ foot ks) h h'
     \<and> (\<forall>rest. r = Ptr rest \<longrightarrow> (\<exists>j. jvalue False s j rest \<and> jrep j (Own a ty vs vi vd nm ks))))"
  by (simp add: vpost_def)

text \<open>One element and the elements after it.\<close>

lemma epre_grown:
  assumes pre: "epre h p (Own a ty0 vs0 vi0 vd0 nm ks0)"
    and t: "seg (mem h') p [Own a ty vs vi vd nm ks] 0" "grow {a} (sadr vs @ foot ks) h h'"
  shows "epre h' p (Own a ty vs vi vd nm ks)"
proof -
  have l: "x < brk h" if "x \<in> set (a # sadr nm)" for x
    using that seg_live [of "mem h" p "[Own a ty0 vs0 vi0 vd0 nm ks0]" 0 x] pre heap_ok_0 [of h x]
    unfolding epre_def by auto
  have d: "distinct (a # sadr nm)" using pre by (auto simp: epre_def)
  have "set (a # sadr nm) \<inter> set (sadr vs @ foot ks) = {}" "distinct (sadr vs @ foot ks)"
    using t(2) l by (fastforce simp: grow_def)+
  with d t grow_ok [OF t(2)] show ?thesis by (auto simp: epre_def)
qed

lemma value_then_elems:
  assumes rec: "rec_ok rec" and pre: "epre h p (blank c)"
    and v: "rec (Value c (Ptr s)) h = Some (pe, h1)" and k: "skip pe = Some k1"
    and e: "(case k1 of Null \<Rightarrow> Some (Null, h1) | Ptr v3 \<Rightarrow> rec (Elems c v3) h1) = Some (r, h')"
  shows "\<exists>t ts. jaddr t = c \<and> seg (mem h') p (t # ts) 0
    \<and> (\<exists>X. grow {c} X h h' \<and> foot (t # ts) = c # X)
    \<and> (\<forall>rest. r = Ptr rest \<longrightarrow> (\<exists>j r1 r2 js. jvalue False s j r1 \<and> skip_text r1 = Some r2
         \<and> jelems False r2 js rest \<and> jreps (j # js) (t # ts)))"
proof -
  from rec_okD(1) [OF rec, of h p 0 "blank c" s] pre v have
    "vpost h p 0 (blank c) s pe h1" by (simp add: vpre_blank) (simp add: blank_def)
  then obtain ty vs vi vd ks where t: "seg (mem h1) p [Own c ty vs vi vd None ks] 0"
    "grow {c} (sadr vs @ foot ks) h h1"
    "\<forall>rest. pe = Ptr rest \<longrightarrow> (\<exists>j. jvalue False s j rest \<and> jrep j (Own c ty vs vi vd None ks))"
    unfolding blank_def vpost_own by (elim exE conjE) (rule that; assumption)
  let ?t = "Own c ty vs vi vd None ks"
  show ?thesis
  proof (cases k1)
    case Null
    with e t show ?thesis by (intro exI [of _ ?t] exI [of _ "[]"]) simp
  next
    case (Ptr v3)
    with k obtain s3 where s3: "pe = Ptr s3" "skip_text s3 = Some v3" by (cases pe) auto
    with t(3) obtain j where j: "jvalue False s j s3" "jrep j ?t" by blast
    have "epre h1 p ?t" using epre_grown [OF _ t(1,2)] pre unfolding blank_def by blast
    from rec_okD(4) [OF rec this, of v3 r h'] e Ptr have "epost h1 p ?t v3 r h'" by simp
    then obtain ts where ts: "seg (mem h') p (?t # ts) 0" "grow {c} (foot ts) h1 h'"
      "\<forall>rest. r = Ptr rest \<longrightarrow> (\<exists>js. jelems False v3 js rest \<and> jreps js ts)"
      unfolding epost_def by auto
    from grow_trans [OF t(2) ts(2)] have "grow {c} ((sadr vs @ foot ks) @ foot ts) h h'" by simp
    moreover have "\<forall>rest. r = Ptr rest \<longrightarrow> (\<exists>j r1 r2 js. jvalue False s j r1 \<and> skip_text r1 = Some r2
         \<and> jelems False r2 js rest \<and> jreps (j # js) (?t # ts))"
    proof (intro allI impI)
      fix rest assume "r = Ptr rest"
      with ts(3) obtain js where "jelems False v3 js rest" "jreps js ts" by blast
      with j s3 show "\<exists>j r1 r2 js. jvalue False s j r1 \<and> skip_text r1 = Some r2
         \<and> jelems False r2 js rest \<and> jreps (j # js) (?t # ts)"
        by (intro exI [of _ j] exI [of _ s3] exI [of _ v3] exI [of _ js]) simp
    qed
    ultimately show ?thesis using ts(1) by (intro exI [of _ ?t] exI [of _ ts]) simp
  qed
qed

lemma epre_parent:
  assumes "vpre h p q (Own a ty None vi vd nm [])" "grow {a} X h h'"
    "seg (mem h') p [Own a ty' None vi vd nm ks] q" "foot ks = X"
    "\<forall>rest. r = Ptr rest \<longrightarrow> (\<exists>j. jvalue False s j rest \<and> jrep j (Own a ty' None vi vd nm ks))"
  shows "vpost h p q (Own a ty None vi vd nm []) s r h'"
  using assms unfolding vpost_own
  by (intro exI [of _ ty'] exI [of _ None] exI [of _ vi] exI [of _ vd] exI [of _ ks]) simp

text \<open>Opening a container: the node gets its type and its first child.\<close>

lemma container_open:
  assumes pre: "vpre h p q (Own a ty None vi vd nm [])" (is "vpre h p q ?t")
    and up: "upd_node a (\<lambda>n. n\<lparr>j_type := T\<rparr>) h = Some h1" and T: "\<not> is_ref T"
    and new: "cJSON_New_Item h1 = (ch, h2)"
    and up3: "upd_node a (\<lambda>n. n\<lparr>j_child := ch\<rparr>) h2 = Some h3"
  shows "ch = 0 \<Longrightarrow> vpost h p q ?t s Null h3"
    "ch \<noteq> 0 \<Longrightarrow> epre h3 0 (blank ch)"
    "\<And>X ts r h'. ch \<noteq> 0 \<Longrightarrow> grow {ch} X h3 h' \<Longrightarrow> seg (mem h') 0 ts 0 \<Longrightarrow> first ts 0 = ch
      \<Longrightarrow> mset (foot ts) = mset (ch # X)
      \<Longrightarrow> \<forall>rest. r = Ptr rest \<longrightarrow> (\<exists>j. jvalue False s j rest \<and> jrep j (Own a T None vi vd nm ts))
      \<Longrightarrow> vpost h p q ?t s r h'"
proof -
  from upd_vnode [OF pre up, of T] T have
    pre1: "vpre h1 p q (Own a T None vi vd nm [])" and g1: "grow {a} [] h h1" by simp_all
  have ok1: "heap_ok h1" using pre1 by (simp add: vpre_def)
  {
    assume 0: "ch = 0"
    note gf = grow_malloc_fail [OF ok1 new [unfolded 0 cJSON_New_Item_def], of "{a}"]
    have m: "mem h2 = mem h1" using c_malloc_ok(5) [OF ok1 new [unfolded cJSON_New_Item_def]] 0 by simp
    have pre2: "vpre h2 p q (Own a T None vi vd nm [])"
      using pre1 m grow_ok [OF gf] by (simp add: vpre_def)
    from upd_vnode [OF pre2 up3, of T] 0 T have
      "vpre h3 p q (Own a T None vi vd nm [])" "grow {a} [] h2 h3" by simp_all
    with grow_trans [OF grow_trans [OF g1 gf]] show "vpost h p q ?t s Null h3"
      by (intro epre_parent [OF pre, of "[]" _ T "[]"]) (auto simp: vpre_def)
  }
  note oc = open_child [OF pre1 new _ up3]
  show "epre h3 0 (blank ch)" if "ch \<noteq> 0" using oc(1) that by simp
  fix X ts r h' assume ch: "ch \<noteq> 0" and x: "grow {ch} X h3 h'" "seg (mem h') 0 ts 0" "first ts 0 = ch"
    and m: "mset (foot ts) = mset (ch # X)"
    and j: "\<forall>rest. r = Ptr rest \<longrightarrow> (\<exists>j. jvalue False s j rest \<and> jrep j (Own a T None vi vd nm ts))"
  from grow_trans [OF grow_trans [OF g1 oc(2)] x(1)] ch have "grow {a} (ch # X) h h'" by simp
  then have "grow {a} (foot ts) h h'" by (rule grow_perm) (simp add: m)
  then show "vpost h p q ?t s r h'"
    using epre_parent [OF pre _ oc(3) [OF ch x]] j by simp
qed

lemma array_body_ok:
  assumes rec: "rec_ok rec" and pre: "vpre h p q t"
    and run: "parse_array_body rec (jaddr t) v h = Some (r, h')"
  shows "vpost h p q t v r h'"
proof -
  from pre obtain a ty vi vd nm where t: "t = Own a ty None vi vd nm []" by (rule vpre_own)
  note pre = pre [unfolded t]
  from run obtain c where "deref v = Some c" by (auto simp: parse_array_body_def monad_simps)
  then obtain s where v: "v = c # s" by (auto simp: deref_Some_iff)
  show ?thesis
  proof (cases "c = CHR ''[''")
    case False
    with run v vpost_fail [OF pre] show ?thesis by (auto simp: parse_array_body_def t)
  next
    case True
    note run1 = run [unfolded parse_array_body_def v deref_simps Option.bind.simps True simp_thms
        if_False list.sel t jt.sel]
    then obtain h1 v1 where up: "upd_node a (\<lambda>n. n\<lparr>j_type := cJSON_Array\<rparr>) h = Some h1"
      and v1: "skip_text s = Some v1" by (auto elim!: bind_SomeE)
    note run2 = run1 [unfolded up v1 Option.bind.simps]
    from run2 obtain c1 where "deref v1 = Some c1" by (auto elim!: bind_SomeE)
    then obtain w where w: "v1 = c1 # w" by (auto simp: deref_Some_iff)
    show ?thesis
    proof (cases "c1 = CHR '']''")
      case T: True
      with run2 w have "r = Ptr w" "h' = h1" by simp_all
      with upd_vnode [OF pre up, of cJSON_Array] v1 w T v True show ?thesis unfolding t
        by (intro epre_parent [OF pre, of "[]" _ cJSON_Array "[]"])
          (auto simp: vpre_def intro!: exI [of _ "JArr []"] intro: jvalue_jelems_jmember_jmembers.intros)
    next
      case F: False
      obtain ch h2 where new: "cJSON_New_Item h1 = (ch, h2)" by (cases "cJSON_New_Item h1")
      from run2 w F new obtain h3 where up3: "upd_node a (\<lambda>n. n\<lparr>j_child := ch\<rparr>) h2 = Some h3"
        by (auto elim!: bind_SomeE)
      note run3 = run2 [unfolded w deref_simps Option.bind.simps F if_False Let_def new prod.case up3]
      note co = container_open [OF pre up is_ref_types(7) new up3]
      show ?thesis
      proof (cases "ch = 0")
        case True
        with run3 F co(1) show ?thesis by (auto simp: t)
      next
        case ch: False
        from run3 F ch obtain v2 pe h4 k where v2: "skip_text (c1 # w) = Some v2"
          and rv: "rec (Value ch (Ptr v2)) h3 = Some (pe, h4)" and k: "skip pe = Some k"
          and e: "(case k of Null \<Rightarrow> Some (Null, h4) | Ptr v3 \<Rightarrow> rec (Elems ch v3) h4) = Some (r, h')"
          by (auto elim!: bind_SomeE)
        have "v2 = v1" using v2 w skip_text_idem [OF v1] by simp
        from value_then_elems [OF rec co(2) [OF ch] rv k e] obtain tt ts X where tt: "jaddr tt = ch"
          "seg (mem h') 0 (tt # ts) 0" "grow {ch} X h3 h'" "foot (tt # ts) = ch # X"
          and g: "\<forall>rest. r = Ptr rest \<longrightarrow> (\<exists>j r1 r2 js. jvalue False v2 j r1 \<and> skip_text r1 = Some r2
             \<and> jelems False r2 js rest \<and> jreps (j # js) (tt # ts))"
          by (elim exE conjE) (rule that; assumption)
        have "\<exists>j. jvalue False v j rest \<and> jrep j (Own a cJSON_Array None vi vd nm (tt # ts))"
          if r: "r = Ptr rest" for rest
        proof -
          from g r obtain j r1 r2 js where "jvalue False v2 j r1" "skip_text r1 = Some r2"
            "jelems False r2 js rest" "jreps (j # js) (tt # ts)" by blast
          with v1 v True \<open>v2 = v1\<close> show ?thesis
            by (intro exI [of _ "JArr (j # js)"]) (auto intro: jvalue_jelems_jmember_jmembers.intros)
        qed
        with co(3) [OF ch tt(3,2)] tt(1,4) show ?thesis unfolding t by simp
      qed
    qed
  qed
qed

lemma object_body_ok:
  assumes rec: "rec_ok rec" and pre: "vpre h p q t"
    and run: "parse_object_body rec (jaddr t) v h = Some (r, h')"
  shows "vpost h p q t v r h'"
proof -
  from pre obtain a ty vi vd nm where t: "t = Own a ty None vi vd nm []" by (rule vpre_own)
  note pre = pre [unfolded t]
  from run obtain c where "deref v = Some c" by (auto simp: parse_object_body_def monad_simps)
  then obtain s where v: "v = c # s" by (auto simp: deref_Some_iff)
  show ?thesis
  proof (cases "c = CHR ''{''")
    case False
    with run v vpost_fail [OF pre] show ?thesis by (auto simp: parse_object_body_def t)
  next
    case True
    note run1 = run [unfolded parse_object_body_def v deref_simps Option.bind.simps True simp_thms
        if_False list.sel t jt.sel]
    then obtain h1 v1 where up: "upd_node a (\<lambda>n. n\<lparr>j_type := cJSON_Object\<rparr>) h = Some h1"
      and v1: "skip_text s = Some v1" by (auto elim!: bind_SomeE)
    note run2 = run1 [unfolded up v1 Option.bind.simps]
    from run2 obtain c1 where "deref v1 = Some c1" by (auto elim!: bind_SomeE)
    then obtain w where w: "v1 = c1 # w" by (auto simp: deref_Some_iff)
    show ?thesis
    proof (cases "c1 = CHR ''}''")
      case T: True
      with run2 w have "r = Ptr w" "h' = h1" by simp_all
      with upd_vnode [OF pre up, of cJSON_Object] v1 w T v True show ?thesis unfolding t
        by (intro epre_parent [OF pre, of "[]" _ cJSON_Object "[]"])
          (auto simp: vpre_def intro!: exI [of _ "JObj []"] intro: jvalue_jelems_jmember_jmembers.intros)
    next
      case F: False
      obtain ch h2 where new: "cJSON_New_Item h1 = (ch, h2)" by (cases "cJSON_New_Item h1")
      from run2 w F new obtain h3 where up3: "upd_node a (\<lambda>n. n\<lparr>j_child := ch\<rparr>) h2 = Some h3"
        by (auto elim!: bind_SomeE)
      note run3 = run2 [unfolded w deref_simps Option.bind.simps F if_False Let_def new prod.case up3]
      note co = container_open [OF pre up is_ref_types(8) new up3]
      show ?thesis
      proof (cases "ch = 0")
        case True
        with run3 F co(1) show ?thesis by (auto simp: t)
      next
        case ch: False
        from run3 F ch obtain v2 where v2: "skip_text (c1 # w) = Some v2"
          and rv: "rec (Member ch v2) h3 = Some (r, h')" by (auto elim!: bind_SomeE)
        have "v2 = v1" using v2 w skip_text_idem [OF v1] by simp
        from rec_okD(6) [OF rec co(2) [OF ch] rv] have "mpost h3 0 ch v2 r h'" .
        then obtain ty' vs vi' vd' nm' ks ts where m:
          "seg (mem h') 0 (Own ch ty' vs vi' vd' nm' ks # ts) 0"
          "grow {ch} (sadr vs @ sadr nm' @ foot ks @ foot ts) h3 h'"
          "\<forall>rest. r = Ptr rest \<longrightarrow> (\<exists>ms. jmember False v2 ms rest
             \<and> jmems ms (Own ch ty' vs vi' vd' nm' ks # ts))"
          unfolding mpost_def by (elim exE conjE) (rule that; assumption)
        have "\<exists>j. jvalue False v j rest
            \<and> jrep j (Own a cJSON_Object None vi vd nm (Own ch ty' vs vi' vd' nm' ks # ts))"
          if "r = Ptr rest" for rest
          using m(3) that v1 v True \<open>v2 = v1\<close>
          by (metis jrep.simps(8) jv_obj)
        with co(3) [OF ch m(2,1)] show ?thesis unfolding t by simp
      qed
    qed
  qed
qed

text \<open>Appending one more item to a list under construction.\<close>

lemma seg_relink:
  assumes "seg m p [t] q" "distinct (foot [t])"
  shows "seg (m(jaddr t := Some (Node (node_of p' q' t)))) p' [t] q'"
  using assms
  by (cases t) (auto intro!: str_in_frame [of m] seg_frame [of m] simp: sadr_def split: option.splits)

lemma append_item:
  assumes pre: "epre h p t" and new: "cJSON_New_Item h = (b, h1)" "b \<noteq> 0"
    and u1: "upd_node (jaddr t) (\<lambda>n. n\<lparr>j_next := b\<rparr>) h1 = Some h2"
    and u2: "upd_node b (\<lambda>n. n\<lparr>j_prev := jaddr t\<rparr>) h2 = Some h3"
  shows "epre h3 (jaddr t) (blank b)" "grow {jaddr t} [b] h h3"
    "\<And>h' X ts. grow {b} X h3 h' \<Longrightarrow> seg (mem h') (jaddr t) ts 0 \<Longrightarrow> first ts 0 = b
       \<Longrightarrow> seg (mem h') p (t # ts) 0"
proof -
  have ok: "heap_ok h" and s: "seg (mem h) p [t] 0" and d: "distinct (foot [t])"
    using pre by (auto simp: epre_def)
  have l: "x < brk h" if "x \<in> set (foot [t])" for x
    using that seg_live [OF s, of x] heap_ok_0 [OF ok, of x] by auto
  note ni = new_item [OF ok new]
  have b: "b \<notin> set (foot [t])" "b \<noteq> jaddr t" using l [of b] ni(2) jaddr_in_foot [of t "[t]"] by auto
  have s1: "seg (mem h1) p [t] 0" using s b(1) unfolding ni(3) by (rule seg_upd_other [rotated])
  have n1: "mem h1 (jaddr t) = Some (Node (node_of p 0 t))" using seg_Cons_node [OF s1] by simp
  note g1 = grow_upd [OF grow_ok [OF ni(1)] u1, of "{jaddr t}"]
  have m2: "mem h2 = (mem h1)(jaddr t := Some (Node (node_of p b t)))" using g1(3) n1 by auto
  have s2: "seg (mem h2) p [t] b" unfolding m2 by (rule seg_relink [OF s1 d])
  have bl: "seg (mem h2) 0 [blank b] 0" using ni(4) b(2) unfolding m2 by (simp add: blank_def)
  have n2: "mem h2 b = Some (Node (node_of 0 0 (blank b)))" using seg_Cons_node [OF bl] by (simp add: blank_def)
  have ok2: "heap_ok h2" using g1(1) grow_ok by blast
  note g2 = grow_upd [OF ok2 u2, of "{b}"]
  have m3: "mem h3 = (mem h2)(b := Some (Node (node_of (jaddr t) 0 (blank b))))" using g2(3) n2 by auto
  have s3: "seg (mem h3) p [t] b" using s2 b(1) unfolding m3 by (rule seg_upd_other [rotated])
  have ok3: "heap_ok h3" using g2(1) grow_ok by blast
  show "epre h3 (jaddr t) (blank b)" using new(2) ok3 unfolding epre_def m3 by (simp add: blank_def)
  show g: "grow {jaddr t} [b] h h3"
    using grow_trans [OF grow_trans [OF ni(1) g1(1)] g2(1)] by simp
  fix h' X ts assume h': "grow {b} X h3 h'" "seg (mem h') (jaddr t) ts 0" "first ts 0 = b"
  have "seg (mem h') p [t] b"
    using grow_seg [OF h'(1) s3 _ ok3] b(1) by simp
  then show "seg (mem h') p (t # ts) 0"
    using seg_append [of "mem h'" p "[t]" ts 0] h'(2,3) by simp
qed

lemma append_fail:
  assumes pre: "epre h p t" and new: "cJSON_New_Item h = (0, h1)"
  shows "seg (mem h1) p [t] 0" "grow {jaddr t} [] h h1"
proof -
  have ok: "heap_ok h" using pre by (simp add: epre_def)
  show "grow {jaddr t} [] h h1" using grow_malloc_fail [OF ok new [unfolded cJSON_New_Item_def]] .
  show "seg (mem h1) p [t] 0"
    using c_malloc_ok(5) [OF ok new [unfolded cJSON_New_Item_def]] pre by (simp add: epre_def)
qed

lemma elems_body_ok:
  assumes rec: "rec_ok rec" and pre: "epre h p t"
    and run: "parse_elems_body rec (jaddr t) v h = Some (r, h')"
  shows "epost h p t v r h'"
proof -
  from run obtain c where "deref v = Some c" by (auto simp: parse_elems_body_def monad_simps)
  then obtain s where v: "v = c # s" by (auto simp: deref_Some_iff)
  show ?thesis
  proof (cases "c = CHR '',''")
    case False
    from run v False have "h' = h \<and> c = CHR '']'' \<and> r = Ptr s \<or> r = Null \<and> (\<exists>e. h' = h\<lparr>ep := e\<rparr>)"
      by (auto simp: parse_elems_body_def split: if_splits)
    with pre v show ?thesis unfolding epost_def epre_def
      by (intro exI [of _ "[]"]) (auto intro!: exI [of _ "[]"] intro: jvalue_jelems_jmember_jmembers.intros)
  next
    case c: True
    obtain b h1 where new: "cJSON_New_Item h = (b, h1)" by (cases "cJSON_New_Item h")
    note run1 = run [unfolded parse_elems_body_def v deref_simps Option.bind.simps c simp_thms
        if_True list.sel Let_def new prod.case]
    show ?thesis
    proof (cases "b = 0")
      case True
      with run1 append_fail [OF pre] new show ?thesis
        unfolding epost_def by (intro exI [of _ "[]"]) auto
    next
      case b: False
      from run1 b obtain h2 h3 v1 pe h4 k where u1: "upd_node (jaddr t) (\<lambda>n. n\<lparr>j_next := b\<rparr>) h1 = Some h2"
        and u2: "upd_node b (\<lambda>n. n\<lparr>j_prev := jaddr t\<rparr>) h2 = Some h3" and v1: "skip_text s = Some v1"
        and rv: "rec (Value b (Ptr v1)) h3 = Some (pe, h4)" and k: "skip pe = Some k"
        and e: "(case k of Null \<Rightarrow> Some (Null, h4) | Ptr v3 \<Rightarrow> rec (Elems b v3) h4) = Some (r, h')"
        by (auto elim!: bind_SomeE)
      note ai = append_item [OF pre new b u1 u2]
      from value_then_elems [OF rec ai(1) rv k e] obtain tt ts X where tt: "jaddr tt = b"
        "seg (mem h') (jaddr t) (tt # ts) 0" "grow {b} X h3 h'" "foot (tt # ts) = b # X"
        and g: "\<forall>rest. r = Ptr rest \<longrightarrow> (\<exists>j r1 r2 js. jvalue False v1 j r1 \<and> skip_text r1 = Some r2
           \<and> jelems False r2 js rest \<and> jreps (j # js) (tt # ts))"
        by (elim exE conjE) (rule that; assumption)
      from grow_trans [OF ai(2) tt(3)] tt(4) have "grow {jaddr t} (foot (tt # ts)) h h'" by simp
      moreover have "\<exists>js. jelems False v js rest \<and> jreps js (tt # ts)" if r: "r = Ptr rest" for rest
      proof -
        from g r obtain j r1 r2 js where "jvalue False v1 j r1" "skip_text r1 = Some r2"
          "jelems False r2 js rest" "jreps (j # js) (tt # ts)" by blast
        with v1 v c show ?thesis
          by (intro exI [of _ "j # js"]) (auto intro: jvalue_jelems_jmember_jmembers.intros)
      qed
      ultimately show ?thesis using ai(3) [OF tt(3,2)] tt(1) unfolding epost_def
        by (intro exI [of _ "tt # ts"]) simp
    qed
  qed
qed

lemma members_body_ok:
  assumes rec: "rec_ok rec" and pre: "epre h p t"
    and run: "parse_members_body rec (jaddr t) v h = Some (r, h')"
  shows "mspost h p t v r h'"
proof -
  from run obtain c where "deref v = Some c" by (auto simp: parse_members_body_def monad_simps)
  then obtain s where v: "v = c # s" by (auto simp: deref_Some_iff)
  show ?thesis
  proof (cases "c = CHR '',''")
    case False
    from run v False have "h' = h \<and> c = CHR ''}'' \<and> r = Ptr s \<or> r = Null \<and> (\<exists>e. h' = h\<lparr>ep := e\<rparr>)"
      by (auto simp: parse_members_body_def split: if_splits)
    with pre v show ?thesis unfolding mspost_def epre_def
      by (intro exI [of _ "[]"]) (auto intro!: exI [of _ "[]"] intro: jvalue_jelems_jmember_jmembers.intros)
  next
    case c: True
    obtain b h1 where new: "cJSON_New_Item h = (b, h1)" by (cases "cJSON_New_Item h")
    note run1 = run [unfolded parse_members_body_def v deref_simps Option.bind.simps c simp_thms
        if_True list.sel Let_def new prod.case]
    show ?thesis
    proof (cases "b = 0")
      case True
      with run1 append_fail [OF pre] new show ?thesis
        unfolding mspost_def by (intro exI [of _ "[]"]) auto
    next
      case b: False
      from run1 b obtain h2 h3 v1 where u1: "upd_node (jaddr t) (\<lambda>n. n\<lparr>j_next := b\<rparr>) h1 = Some h2"
        and u2: "upd_node b (\<lambda>n. n\<lparr>j_prev := jaddr t\<rparr>) h2 = Some h3" and v1: "skip_text s = Some v1"
        and rv: "rec (Member b v1) h3 = Some (r, h')"
        by (auto elim!: bind_SomeE)
      note ai = append_item [OF pre new b u1 u2]
      from rec_okD(6) [OF rec ai(1) rv] obtain ty vs vi vd nm ks ts where m:
        "seg (mem h') (jaddr t) (Own b ty vs vi vd nm ks # ts) 0"
        "grow {b} (sadr vs @ sadr nm @ foot ks @ foot ts) h3 h'"
        "\<forall>rest. r = Ptr rest \<longrightarrow> (\<exists>ms. jmember False v1 ms rest
           \<and> jmems ms (Own b ty vs vi vd nm ks # ts))"
        unfolding mpost_def by (elim exE conjE) (rule that; assumption)
      let ?ts = "Own b ty vs vi vd nm ks # ts"
      from grow_trans [OF ai(2) m(2)] have "grow {jaddr t} (foot ?ts) h h'" by simp
      moreover have "\<exists>ms. jmembers False v ms rest \<and> jmems ms ?ts" if "r = Ptr rest" for rest
        using m(3) that v1 v c by (metis jms_more)
      ultimately show ?thesis using ai(3) [OF m(2,1)] unfolding mspost_def
        by (intro exI [of _ ?ts]) simp
    qed
  qed
qed

lemma member_body_ok:
  assumes rec: "rec_ok rec" and pre: "epre h p (blank a)"
    and run: "parse_member_body rec a v h = Some (r, h')"
  shows "mpost h p a v r h'"
proof -
  from run obtain ps h1 q where ps: "parse_string a v h = Some (ps, h1)" and q: "skip ps = Some q"
    by (auto simp: parse_member_body_def monad_simps)
  have ok: "heap_ok h" and t0: "seg (mem h) p [Own a 0 None 0 (Fin False 0) None []] 0"
    and "a \<notin> set (sadr None)" using pre by (auto simp: epre_def blank_def)
  from parse_string_grow [OF this ps] obtain ty vs where
    s1: "seg (mem h1) p [Own a ty vs 0 (Fin False 0) None []] 0" and g1: "grow {a} (sadr vs) h h1"
    and l: "\<forall>rest. ps = Ptr rest \<longrightarrow> (\<exists>s' out x. v = QUOTE # s' \<and> lit False s' out rest
           \<and> ty = cJSON_String \<and> vs = Some (x, tk out))"
    by (elim exE conjE) (rule that; assumption)
  note run1 = run [unfolded parse_member_body_def ps q Option.bind.simps prod.case]
  show ?thesis
  proof (cases q)
    case Null
    with run1 s1 g1 show ?thesis unfolding mpost_def
      by (intro exI [of _ ty] exI [of _ vs] exI [of _ 0] exI [of _ "Fin False 0"] exI [of _ None]
          exI [of _ "[]"]) simp
  next
    case (Ptr v1)
    with q obtain r1 where r1: "ps = Ptr r1" "skip_text r1 = Some v1" by (cases ps) auto
    with l obtain s' out x where s': "v = QUOTE # s'" "lit False s' out r1" "ty = cJSON_String"
      "vs = Some (x, tk out)" by blast
    from run1 Ptr obtain h2 c where up: "upd_node a (\<lambda>n. n\<lparr>j_string := j_valuestring n, j_valuestring := 0\<rparr>) h1
        = Some h2" and "deref v1 = Some c" by (auto elim!: bind_SomeE)
    then obtain w where w: "v1 = c # w" by (auto simp: deref_Some_iff)
    have ok1: "heap_ok h1" using grow_ok [OF g1] .
    have n1: "mem h1 a = Some (Node (node_of p 0 (Own a ty vs 0 (Fin False 0) None [])))"
      "str_in (mem h1) vs" using s1 by auto
    have av: "a \<notin> set (sadr vs)" "distinct (sadr vs)"
      using g1 heap_ok_0 [OF ok, of a] t0 by (auto simp: s' dest: grow_range)
    note u = upd_own [OF ok1 up n1(1), where p = p and q = 0 and ty = ty and vs = None and vi = 0
        and vd = "Fin False 0" and nm = vs and ks = "[]"]
    have t2: "seg (mem h2) p [Own a ty None 0 (Fin False 0) vs []] 0" and g2: "grow {a} [] h1 h2"
      using u n1 s'(3) av by simp_all
    have g12: "grow {a} (sadr vs) h h2" using grow_trans [OF g1 g2] by simp
    note run2 = run1 [unfolded Ptr cptr.case up w deref_simps Option.bind.simps]
    show ?thesis
    proof (cases "c = CHR '':''")
      case False
      with run2 have "r = Null" "h' = h2\<lparr>ep := Ptr (c # w)\<rparr>" by auto
      with t2 g12 show ?thesis unfolding mpost_def
        by (intro exI [of _ ty] exI [of _ None] exI [of _ 0] exI [of _ "Fin False 0"] exI [of _ vs]
            exI [of _ "[]"]) simp
    next
      case c: True
      from run2 c obtain v2 pe h3 q2 where v2: "skip_text w = Some v2"
        and rv: "rec (Value a (Ptr v2)) h2 = Some (pe, h3)" and q2: "skip pe = Some q2"
        and e: "(case q2 of Null \<Rightarrow> Some (Null, h3) | Ptr v3 \<Rightarrow> rec (Members a v3) h3) = Some (r, h')"
        by (auto elim!: bind_SomeE)
      let ?t2 = "Own a ty None 0 (Fin False 0) vs []"
      have vp: "vpre h2 p 0 ?t2" and ep: "epre h2 p ?t2"
        using t2 av grow_ok [OF g2] by (auto simp: vpre_def epre_def)
      from rec_okD(1) [OF rec vp, of v2] rv have "vpost h2 p 0 ?t2 v2 pe h3" by simp
      then obtain ty' vs' vi vd ks where t: "seg (mem h3) p [Own a ty' vs' vi vd vs ks] 0"
        "grow {a} (sadr vs' @ foot ks) h2 h3"
        "\<forall>rest. pe = Ptr rest \<longrightarrow> (\<exists>j. jvalue False v2 j rest \<and> jrep j (Own a ty' vs' vi vd vs ks))"
        unfolding vpost_own by (elim exE conjE) (rule that; assumption)
      let ?t = "Own a ty' vs' vi vd vs ks"
      from grow_trans [OF g12 t(2)] have "grow {a} (sadr vs @ (sadr vs' @ foot ks)) h h3" by simp
      then have g3: "grow {a} (sadr vs' @ sadr vs @ foot ks) h h3" by (rule grow_perm) simp
      show ?thesis
      proof (cases q2)
        case Null
        with e t(1) g3 show ?thesis unfolding mpost_def
          by (intro exI [of _ ty'] exI [of _ vs'] exI [of _ vi] exI [of _ vd] exI [of _ vs]
              exI [of _ ks] exI [of _ "[]"]) simp
      next
        case (Ptr v3)
        with q2 obtain r4 where r4: "pe = Ptr r4" "skip_text r4 = Some v3" by (cases pe) auto
        from rec_okD(5) [OF rec epre_grown [OF ep t(1,2)], of v3 r h'] e Ptr
        obtain ts where ts: "seg (mem h') p (?t # ts) 0" "grow {a} (foot ts) h3 h'"
          "\<forall>rest. r = Ptr rest \<longrightarrow> (\<exists>ms. jmembers False v3 ms rest \<and> jmems ms ts)"
          unfolding mspost_def by auto
        have "\<exists>ms. jmember False v ms rest \<and> jmems ms (?t # ts)" if r: "r = Ptr rest" for rest
        proof -
          from ts(3) r obtain ms where ms: "jmembers False v3 ms rest" "jmems ms ts" by blast
          from t(3) r4 obtain j where j: "jvalue False v2 j r4" "jrep j ?t" by blast
          from jm [OF s'(2) _ v2 j(1) r4(2) ms(1)] r1(2) w c
          have "jmember False v ((tk out, j) # ms) rest" by (simp add: s'(1))
          moreover have "jmems ((tk out, j) # ms) (?t # ts)" using j(2) ms(2) s'(4) by simp
          ultimately show ?thesis by blast
        qed
        moreover from grow_trans [OF g3 ts(2)]
        have "grow {a} (sadr vs' @ sadr vs @ foot ks @ foot ts) h h'" by simp
        ultimately show ?thesis using ts(1) unfolding mpost_def
          by (intro exI [of _ ty'] exI [of _ vs'] exI [of _ vi] exI [of _ vd] exI [of _ vs]
              exI [of _ ks] exI [of _ ts]) simp
      qed
    qed
  qed
qed

theorem parser_rec_ok: "rec_ok (parser f)"
proof (induction f)
  case 0
  then show ?case by (simp add: rec_ok_def)
next
  case (Suc f)
  show ?case
    unfolding rec_ok_def parser.simps parser_body.simps
    by (intro conjI allI impI value_body_ok [OF Suc] array_body_ok [OF Suc] object_body_ok [OF Suc]
        elems_body_ok [OF Suc] members_body_ok [OF Suc] member_body_ok [OF Suc])
qed

subsection \<open>cJSON_Parse\<close>

text \<open>
  What a call that is defined does: it allocates a tree that represents the value of the
  text it consumed, or it returns null and the memory is as it was.
\<close>

lemma grow_delete:
  assumes ok: "heap_ok h" and g: "grow {} (foot ts) h h'" and t: "seg (mem h') 0 ts 0"
  shows "\<exists>h2. cJSON_Delete (first ts 0) h' = Some h2 \<and> mem h2 = mem h \<and> heap_ok h2 \<and> room h2 = room h"
proof -
  have "distinct (foot ts)" using g by (simp add: grow_def)
  from cJSON_Delete_seg [OF t this] have
    "cJSON_Delete (first ts 0) h' = Some (without (foot ts) h')" .
  moreover have "mem (without (foot ts) h') = mem h"
  proof
    fix b
    have "brk h \<le> b \<Longrightarrow> mem h b = None" using ok by (simp add: heap_ok_def)
    then show "mem (without (foot ts) h') b = mem h b"
      using g by (auto simp: grow_def)
  qed
  moreover have "heap_ok (without (foot ts) h')" "room (without (foot ts) h') = room h" using grow_ok [OF g] g by (simp_all add: grow_def)
  ultimately show ?thesis by blast
qed

definition parsed :: "heap \<Rightarrow> string \<Rightarrow> addr \<Rightarrow> string \<Rightarrow> heap \<Rightarrow> bool" where
  "parsed h s c r h' \<longleftrightarrow> (\<exists>t j s0. jaddr t = c \<and> seg (mem h') 0 [t] 0 \<and> grow {} (foot [t]) h h'
     \<and> skip_text s = Some s0 \<and> jvalue False s0 j r \<and> jrep j t)"

lemma cJSON_ParseWithOpts_sound:
  assumes ok: "heap_ok h" and run: "cJSON_ParseWithOpts (Ptr s) req h = Some (c, e, h')"
  shows "heap_ok h' \<and> room h' = room h \<and> (if c = 0 then e = None \<and> mem h' = mem h
     else \<exists>r. parsed h s c r h'
       \<and> (if req then \<exists>z. skip_text r = Some (NUL # z) \<and> e = Some (Ptr (NUL # z)) else e = Some (Ptr r)))"
proof -
  obtain c0 h0 where new: "cJSON_New_Item h = (c0, h0)" by (cases "cJSON_New_Item h")
  show ?thesis
  proof (cases "c0 = 0")
    case True
    with run new have "c = 0" "e = None" "h' = h0\<lparr>ep := Null\<rparr>"
      by (auto simp: cJSON_ParseWithOpts_def)
    moreover have "mem h0 = mem h" "heap_ok h0" "room h0 = room h"
      using c_malloc_ok [OF ok new [unfolded cJSON_New_Item_def]] new True by (auto simp: cJSON_New_Item_def c_malloc_def split: if_splits)
    ultimately show ?thesis by (simp add: heap_ok_def)
  next
    case False
    let ?h1 = "h0\<lparr>ep := Null\<rparr>"
    note ni = new_item [OF ok new False]
    from run new False obtain s0 pe h2 where s0: "skip_text s = Some s0"
      and v: "parser (parse_fuel s0) (Value c0 (Ptr s0)) ?h1 = Some (pe, h2)"
      by (auto simp: cJSON_ParseWithOpts_def parse_value_def text_of_def monad_simps Let_def)
    note run1 = run [unfolded cJSON_ParseWithOpts_def new Let_def prod.case skip.simps s0
        option.map Option.bind.simps text_of_def cptr.case parse_value_def v]
    have pre: "vpre ?h1 0 0 (blank c0)"
      using ni(4) grow_ok [OF ni(1)] by (simp add: vpre_def blank_def heap_ok_def)
    from rec_okD(1) [OF parser_rec_ok pre, of _ s0 pe h2] v have "vpost ?h1 0 0 (blank c0) s0 pe h2"
      by (simp add: blank_def)
    then obtain ty vs vi vd ks where t: "seg (mem h2) 0 [Own c0 ty vs vi vd None ks] 0"
      "grow {c0} (sadr vs @ foot ks) ?h1 h2"
      "\<forall>rest. pe = Ptr rest \<longrightarrow> (\<exists>j. jvalue False s0 j rest \<and> jrep j (Own c0 ty vs vi vd None ks))"
      unfolding blank_def vpost_own by (elim exE conjE) (rule that; assumption)
    let ?t = "Own c0 ty vs vi vd None ks"
    have "grow {} [c0] h ?h1" using ni(1) by simp
    from grow_trans [OF this t(2)] have g: "grow {} (foot [?t]) h h2" by simp
    from grow_delete [OF ok g t(1)] obtain h3 where d: "cJSON_Delete c0 h2 = Some h3" "mem h3 = mem h"
      "heap_ok h3" "room h3 = room h" by auto
    have ro: "room h2 = room h" using g by (simp add: grow_def)
    show ?thesis
    proof (cases pe)
      case Null
      with run1 False d show ?thesis by (auto simp: heap_ok_def)
    next
      case (Ptr r)
      with t(3) obtain j where j: "jvalue False s0 j r" "jrep j ?t" by blast
      have p: "parsed h s c0 r h2" unfolding parsed_def
        using t(1) g s0 j by (intro exI [of _ ?t] exI [of _ j] exI [of _ s0]) simp
      show ?thesis
      proof (cases req)
        case False
        with run1 Ptr \<open>c0 \<noteq> 0\<close> p ro grow_ok [OF g] show ?thesis by auto
      next
        case True
        with run1 Ptr \<open>c0 \<noteq> 0\<close> obtain e1 x where e1: "skip_text r = Some e1" "deref e1 = Some x"
          by (auto elim!: bind_SomeE)
        then obtain z where z: "e1 = x # z" by (auto simp: deref_Some_iff)
        show ?thesis
        proof (cases "x = NUL")
          case True
          with run1 Ptr \<open>c0 \<noteq> 0\<close> \<open>req\<close> e1 z p ro grow_ok [OF g] show ?thesis by auto
        next
          case False
          with run1 Ptr \<open>c0 \<noteq> 0\<close> \<open>req\<close> e1 z d show ?thesis by (auto simp: heap_ok_def)
        qed
      qed
    qed
  qed
qed

end
