(* ===== verification/CJSON_Complete.thy ===== *)
theory CJSON_Complete
  imports CJSON_Grammar
begin

section \<open>What the parser accepts, and when it is safe\<close>

text \<open>
  Completeness: when the allocator does not fail, every value the strict grammar derives is
  parsed, with the fuel \<open>cJSON_ParseWithOpts\<close> supplies. Safety: on a zero terminated text
  whose escapes are complete and whose numbers are in range the parser reads and writes
  inside its objects whatever the rest of the text is and whichever allocations fail.
\<close>

subsection \<open>Escapes fit the buffer of the first pass\<close>

lemma hex_val_less: "hex_val c = Some v \<Longrightarrow> v < 16"
  by (auto simp: hex_val_def split: if_splits)

lemma parse_hex_less:
  "parse_hex k h s = Some u \<Longrightarrow> h < 16 ^ m \<Longrightarrow> u < 16 ^ (m + k)"
proof (induction k h s arbitrary: m rule: parse_hex.induct)
  case (1 h s)
  then show ?case by simp
next
  case (2 k h s)
  then obtain c where c: "deref s = Some c" by (auto simp: monad_simps)
  show ?case
  proof (cases "hex_val c")
    case None
    with 2(2) c show ?thesis by simp
  next
    case (Some v)
    with 2(3) hex_val_less [OF Some] have "16 * h + v < 16 ^ Suc m" by simp
    with 2(1) [OF c Some, of "Suc m"] 2(2) c Some show ?thesis by simp
  qed
qed

lemma parse_hex4_less: "parse_hex4 s = Some u \<Longrightarrow> u < 0x10000"
  using parse_hex_less [of 4 0 s u 0] by (simp add: parse_hex4_def)

lemma length_utf8_write: "length (utf8_write n k uc acc) = k + length acc"
  by (induction n k uc acc rule: utf8_write.induct) auto

lemma length_utf8_bytes [simp]: "length (utf8_bytes uc) = utf8_len uc"
  by (simp add: utf8_bytes_def length_utf8_write)

lemma is_hex_plain: "is_hex c \<Longrightarrow> c \<noteq> QUOTE \<and> c \<noteq> NUL \<and> c \<noteq> BSLASH"
  by (auto simp: is_hex_def hex_val_def code_def)

lemma hex4_cases:
  assumes "hex4 s"
  obtains a b c d s' where "s = a # b # c # d # s'" "is_hex a" "is_hex b" "is_hex c" "is_hex d"
proof -
  from assms obtain a b c d s' where "s = a # b # c # d # s'"
    by (auto simp: hex4_def numeral_eq_Suc Suc_le_length_iff)
  with assms that show ?thesis by (auto simp: hex4_def)
qed

lemma hex4_defined: "hex4 s \<Longrightarrow> \<exists>u. parse_hex4 s = Some u"
  by (erule hex4_cases) (auto simp: parse_hex4_def numeral_eq_Suc is_hex_def)

lemma scan_len_hex4: "hex4 s \<Longrightarrow> scan_len s = map_option ((+) 4) (scan_len (drop 4 s))"
  by (erule hex4_cases) (cases "scan_len (drop 4 s)"; auto simp: is_hex_plain)

lemma scan_len_bslash:
  "scan_len (BSLASH # e # s) = map_option Suc (scan_len s)"
  by simp

lemma unicode_escape_cases:
  assumes ok: "uni_ok s" and u: "unicode_escape s = Some (bs, s')"
  shows "s' = drop 4 s \<and> length bs \<le> 3
    \<or> (\<exists>s2. drop 4 s = BSLASH # CHR ''u'' # s2 \<and> hex4 s2 \<and> s' = drop 4 s2 \<and> length bs \<le> 4)"
proof -
  from u obtain uc where uc: "parse_hex4 s = Some uc" by (auto simp: unicode_escape_def monad_simps)
  have adv: "advance 4 s = Some (drop 4 s)" using ok by (simp add: uni_ok_def hex4_def advance_def)
  note u1 = u [unfolded unicode_escape_def uc adv Option.bind.simps]
  consider "(0xDC00 \<le> uc \<and> uc \<le> 0xDFFF) \<or> uc = 0" | "0xD800 \<le> uc" "uc < 0xDC00"
    | "uc < 0xD800 \<or> 0xDFFF < uc" "uc \<noteq> 0" by linarith
  then show ?thesis
  proof cases
    case 1
    with u1 show ?thesis by auto
  next
    case 3
    with u1 parse_hex4_less [OF uc] show ?thesis by (auto simp: utf8_len_def)
  next
    case 2
    then obtain c1 where c1: "deref (drop 4 s) = Some c1" using u1 by (auto simp: monad_simps)
    show ?thesis
    proof (cases "c1 = BSLASH")
      case False
      with 2 u1 c1 show ?thesis by auto
    next
      case b: True
      with 2 u1 c1 obtain c2 where c2: "deref (tl (drop 4 s)) = Some c2" by (auto simp: monad_simps)
      show ?thesis
      proof (cases "c2 = CHR ''u''")
        case False
        with 2 u1 c1 c2 b show ?thesis by auto
      next
        case True
        with c1 c2 b obtain s2 where s2: "drop 4 s = BSLASH # CHR ''u'' # s2"
          by (auto simp: deref_Some_iff)
        moreover have "drop 6 s = drop 2 (drop 4 s)" by simp
        ultimately have "take 2 (drop 4 s) = [BSLASH, CHR ''u'']" "drop 6 s = s2"
          by (simp_all add: numeral_2_eq_2)
        with ok have h: "hex4 s2" by (simp add: uni_ok_def)
        have "s' = drop 4 s2 \<and> length bs \<le> 4"
          using 2 u1 s2 by (auto simp: monad_simps advance_def utf8_len_def split: if_splits)
        with s2 h show ?thesis by blast
      qed
    qed
  qed
qed

lemma lit_scan_len: "lit b s out r \<Longrightarrow> b \<Longrightarrow> \<exists>n. scan_len s = Some n \<and> length out \<le> n"
proof (induction rule: lit.induct)
  case (lit_uni s bs s' b out r)
  then obtain n where n: "scan_len s' = Some n" "length out \<le> n" by blast
  have ok: "uni_ok s" using lit_uni by blast
  then have h: "hex4 s" by (simp add: uni_ok_def)
  from unicode_escape_cases [OF ok lit_uni(1)] show ?case
  proof (elim disjE exE conjE)
    assume "s' = drop 4 s" "length bs \<le> 3"
    with scan_len_hex4 [OF h] n show ?thesis by (auto simp: scan_len_bslash simp del: scan_len.simps)
  next
    fix s2 assume "drop 4 s = BSLASH # CHR ''u'' # s2" "hex4 s2" "s' = drop 4 s2" "length bs \<le> 4"
    with scan_len_hex4 [OF h] scan_len_hex4 [of s2] n show ?thesis
      by (auto simp: scan_len_bslash simp del: scan_len.simps)
  qed
qed auto

lemma lit_unesc:
  "lit b s out r \<Longrightarrow> b \<Longrightarrow> length o' + length out \<le> cap
     \<Longrightarrow> unesc s (cap, o') = Some ((cap, o' @ out), QUOTE # r)"
proof (induction arbitrary: o' rule: lit.induct)
  case (lit_uni s bs s' b out r)
  then show ?case by (subst unesc_unicode) (simp add: emit_def)
qed (auto simp: emit_def)

subsection \<open>Completeness\<close>

abbreviation roomy :: "heap \<Rightarrow> bool" where
  "roomy h \<equiv> room h = (\<lambda>_. True)"

lemma grow_room: "grow A X h h' \<Longrightarrow> room h' = room h"
  by (simp add: grow_def)

lemma upd_defined: "mem h a = Some (Node n) \<Longrightarrow> \<exists>h'. upd_node a f h = Some h'"
  by (simp add: upd_node_def mem_simps)

lemma upd_seg_defined: "seg (mem h) p (t # ts) q \<Longrightarrow> \<exists>h'. upd_node (jaddr t) f h = Some h'"
  using seg_Cons_node upd_defined by blast

lemma roomy_malloc:
  "heap_ok h \<Longrightarrow> roomy h \<Longrightarrow> \<exists>h'. c_malloc c h = (brk h, h') \<and> brk h \<noteq> 0"
  by (auto simp: c_malloc_def heap_ok_def)

text \<open>What a value call leaves lets the list go on.\<close>

lemma value_next:
  assumes rec: "rec_ok rec" and pre: "vpre h p 0 t"
    and v: "rec (Value (jaddr t) (Ptr s)) h = Some (pe, h1)"
  shows "\<exists>t'. jaddr t' = jaddr t \<and> epre h1 p t' \<and> room h1 = room h"
proof -
  from pre obtain a ty vi vd nm where t: "t = Own a ty None vi vd nm []" by (rule vpre_own)
  from rec_okD(1) [OF rec pre v] obtain ty vs vi vd ks where
    p: "seg (mem h1) p [Own a ty vs vi vd nm ks] 0" "grow {a} (sadr vs @ foot ks) h h1"
    unfolding t vpost_own by blast
  from pre have "epre h p t" by (simp add: vpre_def epre_def)
  from epre_grown [OF this [unfolded t] p] grow_room [OF p(2)] show ?thesis
    unfolding t by (intro exI [of _ "Own a ty vs vi vd nm ks"]) simp
qed

lemma parse_string_complete:
  assumes l: "lit True s out r" and h: "heap_ok h" "roomy h" "mem h a = Some (Node n)"
  shows "\<exists>h'. parse_string a (QUOTE # s) h = Some (Ptr r, h')"
proof -
  from lit_scan_len [OF l] obtain k where k: "scan_len s = Some k" "length out \<le> k" by auto
  obtain h1 where m: "c_malloc (Buf []) h = (brk h, h1)" "brk h \<noteq> 0"
    using roomy_malloc [OF h(1,2)] by blast
  have u: "unesc s (k + 1, []) = Some ((k + 1, out), QUOTE # r)"
    using lit_unesc [OF l, of "[]" "k + 1"] k by simp
  have "mem h1 a = Some (Node n)" "a \<noteq> brk h"
    using grow_malloc(2) [OF h(1) m] h(3) heap_ok_0 [OF h(1,3)] by auto
  then obtain h2 where "upd_node a (\<lambda>n. n\<lparr>j_valuestring := brk h, j_type := cJSON_String\<rparr>)
      (h1\<lparr>mem := (mem h1)(brk h := Some (Buf (tk out)))\<rparr>) = Some h2"
    using upd_defined [of "h1\<lparr>mem := (mem h1)(brk h := Some (Buf (tk out)))\<rparr>" a n] by auto
  with u k m show ?thesis by (simp add: parse_string_def emit_def)
qed

definition runs :: "nat \<Rightarrow> pcall \<Rightarrow> heap \<Rightarrow> string \<Rightarrow> bool" where
  "runs f c h r \<longleftrightarrow> (\<exists>h'. parser f c h = Some (Ptr r, h'))"

lemma runs_pred:
  assumes "\<And>f'. f = Suc f' \<Longrightarrow> k \<le> f' \<Longrightarrow> runs (Suc f') c h r" "Suc k \<le> f"
  shows "runs f c h r"
  using assms by (cases f) auto

lemma value_head:
  assumes "c \<notin> {CHR ''n'', CHR ''f'', CHR ''t''}"
  shows "parser (Suc f) (Value a (Ptr (c # s))) h =
     (if c = QUOTE then parse_string a (c # s) h
      else if c = CHR ''-'' \<or> is_digit c then parse_number a (c # s) h
      else if c = CHR ''['' then parser f (Array a (c # s)) h
      else if c = CHR ''{'' then parser f (Object a (c # s)) h
      else Some (Null, h\<lparr>ep := Ptr (c # s)\<rparr>))"
  using assms by (simp add: parse_value_body_def)

lemma value_literal:
  assumes "vpre h p q t" "\<not> is_ref T"
  shows "\<exists>h'. upd_node (jaddr t) f h = Some h'"
  using assms upd_seg_defined [of h p t "[]" q] by (simp add: vpre_def)

text \<open>An array whose first value and further elements run.\<close>

lemma array_runs:
  assumes pre: "vpre h p q t" and ro: "roomy h" and s1: "skip_text s = Some s1"
    and ne: "\<forall>w. s1 \<noteq> CHR '']'' # w" and r1: "skip_text r1 = Some r2"
    and V: "\<And>h p q t. vpre h p q t \<Longrightarrow> roomy h \<Longrightarrow> runs f (Value (jaddr t) (Ptr s1)) h r1"
    and E: "\<And>h p t. epre h p t \<Longrightarrow> roomy h \<Longrightarrow> runs f (Elems (jaddr t) r2) h r"
  shows "runs (Suc f) (Array (jaddr t) (CHR ''['' # s)) h r"
proof -
  from pre obtain a ty vi vd nm where t: "t = Own a ty None vi vd nm []" by (rule vpre_own)
  note pre = pre [unfolded t]
  obtain h1 where up: "upd_node a (\<lambda>n. n\<lparr>j_type := cJSON_Array\<rparr>) h = Some h1"
    using value_literal [OF pre is_ref_types(7)] by auto
  from upd_vnode [OF pre up, of cJSON_Array] have
    pre1: "vpre h1 p q (Own a cJSON_Array None vi vd nm [])" and g1: "grow {a} [] h h1" by simp_all
  have ok1: "heap_ok h1" "roomy h1" using grow_ok [OF g1] grow_room [OF g1] ro by simp_all
  obtain h2 where new: "cJSON_New_Item h1 = (brk h1, h2)" and b: "brk h1 \<noteq> 0"
    using roomy_malloc [OF ok1] unfolding cJSON_New_Item_def by blast
  note ni = new_item [OF ok1(1) new b]
  have "mem h2 a \<noteq> None \<and> (\<exists>n. mem h2 a = Some (Node n))"
    using pre1 ni(3) by (auto simp: vpre_def)
  then obtain h3 where up3: "upd_node a (\<lambda>n. n\<lparr>j_child := brk h1\<rparr>) h2 = Some h3"
    using upd_defined by blast
  note oc = open_child [OF pre1 new b up3]
  have ro3: "roomy h3" using grow_room [OF oc(2)] ok1(2) by simp
  have vp: "vpre h3 0 0 (blank (brk h1))" using oc(1) by (simp add: vpre_blank)
  from V [OF vp ro3] obtain h4 where h4: "parser f (Value (brk h1) (Ptr s1)) h3 = Some (Ptr r1, h4)"
    by (auto simp: runs_def blank_def)
  from value_next [OF parser_rec_ok vp, of f s1] h4 obtain t' where t': "jaddr t' = brk h1"
    "epre h4 0 t'" "room h4 = room h3" by (auto simp: blank_def)
  from E [OF t'(2)] t'(1,3) ro3 obtain h5 where "parser f (Elems (brk h1) r2) h4 = Some (Ptr r, h5)"
    by (auto simp: runs_def)
  moreover obtain c w where "s1 = c # w" "c \<noteq> CHR '']''"
    using ne s1 by (cases s1) (auto dest: skip_text_idem)
  ultimately show ?thesis
    using up s1 new b up3 skip_text_idem [OF s1] h4 r1
    by (simp add: runs_def t parse_array_body_def del: skip_text.simps)
qed

lemma object_runs:
  assumes pre: "vpre h p q t" and ro: "roomy h" and s1: "skip_text s = Some s1"
    and ne: "\<forall>w. s1 \<noteq> CHR ''}'' # w"
    and M: "\<And>h p a. epre h p (blank a) \<Longrightarrow> roomy h \<Longrightarrow> runs f (Member a s1) h r"
  shows "runs (Suc f) (Object (jaddr t) (CHR ''{'' # s)) h r"
proof -
  from pre obtain a ty vi vd nm where t: "t = Own a ty None vi vd nm []" by (rule vpre_own)
  note pre = pre [unfolded t]
  obtain h1 where up: "upd_node a (\<lambda>n. n\<lparr>j_type := cJSON_Object\<rparr>) h = Some h1"
    using value_literal [OF pre is_ref_types(7)] by auto
  from upd_vnode [OF pre up, of cJSON_Object] have
    pre1: "vpre h1 p q (Own a cJSON_Object None vi vd nm [])" and g1: "grow {a} [] h h1" by simp_all
  have ok1: "heap_ok h1" "roomy h1" using grow_ok [OF g1] grow_room [OF g1] ro by simp_all
  obtain h2 where new: "cJSON_New_Item h1 = (brk h1, h2)" and b: "brk h1 \<noteq> 0"
    using roomy_malloc [OF ok1] unfolding cJSON_New_Item_def by blast
  note ni = new_item [OF ok1(1) new b]
  have "\<exists>n. mem h2 a = Some (Node n)"
    using pre1 ni(3) by (auto simp: vpre_def)
  then obtain h3 where up3: "upd_node a (\<lambda>n. n\<lparr>j_child := brk h1\<rparr>) h2 = Some h3"
    using upd_defined by blast
  note oc = open_child [OF pre1 new b up3]
  have ro3: "roomy h3" using grow_room [OF oc(2)] ok1(2) by simp
  from M [OF oc(1) ro3] obtain h4 where "parser f (Member (brk h1) s1) h3 = Some (Ptr r, h4)"
    by (auto simp: runs_def)
  moreover obtain c w where "s1 = c # w" "c \<noteq> CHR ''}''"
    using ne s1 by (cases s1) (auto dest: skip_text_idem)
  ultimately show ?thesis
    using up s1 new b up3 skip_text_idem [OF s1]
    by (simp add: runs_def t parse_object_body_def del: skip_text.simps)
qed

text \<open>The two links written for a further item.\<close>

lemma append_runs:
  assumes pre: "epre h p t" and ro: "roomy h"
  obtains b h1 h2 h3 where "cJSON_New_Item h = (b, h1)" "b \<noteq> 0"
    "upd_node (jaddr t) (\<lambda>n. n\<lparr>j_next := b\<rparr>) h1 = Some h2"
    "upd_node b (\<lambda>n. n\<lparr>j_prev := jaddr t\<rparr>) h2 = Some h3"
    "epre h3 (jaddr t) (blank b)" "roomy h3"
proof -
  have ok: "heap_ok h" using pre by (simp add: epre_def)
  obtain h1 where new: "cJSON_New_Item h = (brk h, h1)" and b: "brk h \<noteq> 0"
    using roomy_malloc [OF ok ro] unfolding cJSON_New_Item_def by blast
  note ni = new_item [OF ok new b]
  have n: "mem h (jaddr t) = Some (Node (node_of p 0 t))"
    using pre seg_Cons_node [of "mem h" p t "[]" 0] by (simp add: epre_def)
  then have n1: "mem h1 (jaddr t) = Some (Node (node_of p 0 t))" "jaddr t \<noteq> brk h"
    using ni(3) heap_ok_0 [OF ok n] by auto
  then obtain h2 where u1: "upd_node (jaddr t) (\<lambda>n. n\<lparr>j_next := brk h\<rparr>) h1 = Some h2"
    using upd_defined by blast
  from grow_upd(3) [OF grow_ok [OF ni(1)] u1, of UNIV] n1 ni(3)
  have "mem h2 (brk h) = Some (Node zero_node)" by auto
  then obtain h3 where u2: "upd_node (brk h) (\<lambda>n. n\<lparr>j_prev := jaddr t\<rparr>) h2 = Some h3"
    using upd_defined by blast
  note ai = append_item [OF pre new b u1 u2]
  show thesis
    using that [OF new b u1 u2 ai(1)] grow_room [OF ai(2)] ro by simp
qed

lemma elems_runs:
  assumes pre: "epre h p t" and ro: "roomy h" and s1: "skip_text s = Some s1" and r1: "skip_text r1 = Some r2"
    and V: "\<And>h p q t. vpre h p q t \<Longrightarrow> roomy h \<Longrightarrow> runs f (Value (jaddr t) (Ptr s1)) h r1"
    and E: "\<And>h p t. epre h p t \<Longrightarrow> roomy h \<Longrightarrow> runs f (Elems (jaddr t) r2) h r"
  shows "runs (Suc f) (Elems (jaddr t) (CHR '','' # s)) h r"
proof -
  from append_runs [OF pre ro] obtain b h1 h2 h3 where a: "cJSON_New_Item h = (b, h1)" "b \<noteq> 0"
    "upd_node (jaddr t) (\<lambda>n. n\<lparr>j_next := b\<rparr>) h1 = Some h2"
    "upd_node b (\<lambda>n. n\<lparr>j_prev := jaddr t\<rparr>) h2 = Some h3" and e: "epre h3 (jaddr t) (blank b)" "roomy h3" .
  from e(1) have vp: "vpre h3 (jaddr t) 0 (blank b)" by (simp add: vpre_blank)
  from V [OF vp e(2)] obtain h4 where h4: "parser f (Value b (Ptr s1)) h3 = Some (Ptr r1, h4)"
    by (auto simp: runs_def blank_def)
  from value_next [OF parser_rec_ok vp, of f s1] h4 obtain t' where t': "jaddr t' = b"
    "epre h4 (jaddr t) t'" "room h4 = room h3" by (auto simp: blank_def)
  from E [OF t'(2)] t'(1,3) e(2) obtain h5 where "parser f (Elems b r2) h4 = Some (Ptr r, h5)"
    by (auto simp: runs_def)
  with a s1 h4 r1 show ?thesis by (simp add: runs_def parse_elems_body_def)
qed

lemma members_runs:
  assumes pre: "epre h p t" and ro: "roomy h" and s1: "skip_text s = Some s1"
    and M: "\<And>h p a. epre h p (blank a) \<Longrightarrow> roomy h \<Longrightarrow> runs f (Member a s1) h r"
  shows "runs (Suc f) (Members (jaddr t) (CHR '','' # s)) h r"
proof -
  from append_runs [OF pre ro] obtain b h1 h2 h3 where a: "cJSON_New_Item h = (b, h1)" "b \<noteq> 0"
    "upd_node (jaddr t) (\<lambda>n. n\<lparr>j_next := b\<rparr>) h1 = Some h2"
    "upd_node b (\<lambda>n. n\<lparr>j_prev := jaddr t\<rparr>) h2 = Some h3" and e: "epre h3 (jaddr t) (blank b)" "roomy h3" .
  from M [OF e] a s1 show ?thesis by (simp add: runs_def parse_members_body_def)
qed

text \<open>The node of a member after its name is read.\<close>

lemma parse_string_frame:
  assumes "heap_ok h" "seg (mem h) p [Own a ty None vi vd nm []] q" "a \<notin> set (sadr nm)"
    "parse_string a s h = Some (r, h')"
  obtains ty' vs where "seg (mem h') p [Own a ty' vs vi vd nm []] q" "grow {a} (sadr vs) h h'"
  using parse_string_grow [OF assms] by (elim exE conjE) (rule that; assumption)

lemma member_name:
  assumes pre: "epre h p (blank a)" and ps: "parse_string a (QUOTE # s) h = Some (Ptr r1, h1)"
    and up: "upd_node a (\<lambda>n. n\<lparr>j_string := j_valuestring n, j_valuestring := 0\<rparr>) h1 = Some h2"
  shows "\<exists>ty nm. vpre h2 p 0 (Own a ty None 0 (Fin False 0) nm []) \<and> room h2 = room h"
proof -
  have ok: "heap_ok h" and t0: "seg (mem h) p [Own a 0 None 0 (Fin False 0) None []] 0"
    and "a \<notin> set (sadr None)" using pre by (auto simp: epre_def blank_def)
  from parse_string_frame [OF this ps] obtain ty vs where
    s1: "seg (mem h1) p [Own a ty vs 0 (Fin False 0) None []] 0" and g1: "grow {a} (sadr vs) h h1" .
  have n1: "mem h1 a = Some (Node (node_of p 0 (Own a ty vs 0 (Fin False 0) None [])))"
    "str_in (mem h1) vs" "\<not> is_ref ty" using s1 by auto
  have av: "a \<notin> set (sadr vs)" "distinct (sadr vs)"
    using g1 heap_ok_0 [OF ok, of a] t0 by (auto simp: grow_def)
  note u = upd_own [OF grow_ok [OF g1] up n1(1), where p = p and q = 0 and ty = ty and vs = None
      and vi = 0 and vd = "Fin False 0" and nm = vs and ks = "[]"]
  have t2: "seg (mem h2) p [Own a ty None 0 (Fin False 0) vs []] 0" and g2: "grow {a} [] h1 h2"
    using u n1 av by simp_all
  with av grow_ok [OF g2] grow_room [OF g1] grow_room [OF g2] show ?thesis
    by (intro exI [of _ ty] exI [of _ vs]) (auto simp: vpre_def)
qed

lemma member_runs:
  assumes pre: "epre h p (blank a)" and ro: "roomy h" and l: "lit True s k r1"
    and r1: "skip_text r1 = Some (CHR '':'' # r2)" and r2: "skip_text r2 = Some r3"
    and r4: "skip_text r4 = Some r5"
    and V: "\<And>h p q t. vpre h p q t \<Longrightarrow> roomy h \<Longrightarrow> runs f (Value (jaddr t) (Ptr r3)) h r4"
    and E: "\<And>h p t. epre h p t \<Longrightarrow> roomy h \<Longrightarrow> runs f (Members (jaddr t) r5) h r"
  shows "runs (Suc f) (Member a (QUOTE # s)) h r"
proof -
  have ok: "heap_ok h" and n: "mem h a = Some (Node (node_of p 0 (blank a)))"
    using pre by (auto simp: epre_def blank_def)
  from parse_string_complete [OF l ok ro n] obtain h1 where
    ps: "parse_string a (QUOTE # s) h = Some (Ptr r1, h1)" by blast
  have t0: "seg (mem h) p [Own a 0 None 0 (Fin False 0) None []] 0" "a \<notin> set (sadr None)"
    using pre by (auto simp: epre_def blank_def)
  from parse_string_frame [OF ok t0 ps]
  obtain ty' vs where "seg (mem h1) p [Own a ty' vs 0 (Fin False 0) None []] 0" .
  then obtain h2 where up: "upd_node a (\<lambda>n. n\<lparr>j_string := j_valuestring n, j_valuestring := 0\<rparr>) h1 = Some h2"
    using upd_seg_defined by fastforce
  from member_name [OF pre ps up] obtain ty nm where
    vp: "vpre h2 p 0 (Own a ty None 0 (Fin False 0) nm [])" and ro2: "roomy h2" using ro by auto
  from V [OF vp ro2] obtain h3 where h3: "parser f (Value a (Ptr r3)) h2 = Some (Ptr r4, h3)"
    by (auto simp: runs_def)
  from value_next [OF parser_rec_ok vp, of f r3] h3 obtain t' where t': "jaddr t' = a"
    "epre h3 p t'" "room h3 = room h2" by auto
  from E [OF t'(2)] t'(1,3) ro2 obtain h5 where "parser f (Members a r5) h3 = Some (Ptr r, h5)"
    by (auto simp: runs_def)
  with ps r1 up r2 h3 r4 show ?thesis
    by (simp add: runs_def parse_member_body_def del: skip_text.simps)
qed

inductive_cases jvalue_ConsE: "jvalue b (c # s) j r"
inductive_cases jelems_ConsE: "jelems b (c # s) js r"
inductive_cases jmember_ConsE: "jmember b (c # s) ms r"
inductive_cases jmembers_ConsE: "jmembers b (c # s) ms r"

lemma is_digit_simps [simp]:
  "\<not> is_digit CHR '']''" "\<not> is_digit CHR ''}''" "\<not> is_digit CHR '',''" "\<not> is_digit QUOTE"
  "\<not> is_digit CHR ''[''" "\<not> is_digit CHR ''{''" "\<not> is_digit CHR ''n''" "\<not> is_digit CHR ''f''"
  "\<not> is_digit CHR ''t''" "\<not> is_digit CHR ''-''" "\<not> is_digit CHR '':''" "\<not> is_digit NUL"
  "\<not> is_digit CHR ''.''" "\<not> is_digit CHR ''e''" "\<not> is_digit CHR ''E''"
  by (simp_all add: is_digit_def code_def)

lemma jvalue_not_bracket: "jvalue b s j r \<Longrightarrow> s \<noteq> CHR '']'' # w"
  by (auto elim!: jvalue_ConsE)

lemma jmember_not_brace: "jmember b s ms r \<Longrightarrow> s \<noteq> CHR ''}'' # w"
  by (auto elim!: jmember_ConsE)

lemma jvalue_bracket [simp]: "\<not> jvalue b (CHR '']'' # w) j r"
  using jvalue_not_bracket by blast

lemma jmember_brace [simp]: "\<not> jmember b (CHR ''}'' # w) ms r"
  using jmember_not_brace by blast

lemma skip_length: "skip_text s = Some r \<Longrightarrow> length r \<le> length s"
  using sfx_length [OF skip_text_sfx] .

lemma number_runs:
  assumes "vpre h p q t" "c = CHR ''-'' \<or> is_digit c" "parse_number_text (c # s) = Some (n, r)"
    "to_int 64 n = Some i"
  shows "runs (Suc f) (Value (jaddr t) (Ptr (c # s))) h r"
proof -
  obtain h' where "upd_node (jaddr t) (\<lambda>x. x\<lparr>j_valuedouble := n, j_valueint := i, j_type := cJSON_Number\<rparr>) h
      = Some h'" using value_literal [OF assms(1) is_ref_types(1)] by blast
  moreover have "c \<notin> {CHR ''n'', CHR ''f'', CHR ''t''}" "c \<noteq> QUOTE" using assms(2) by auto
  ultimately show ?thesis using assms(2-)
    by (simp add: runs_def value_head parse_number_def del: parser.simps)
qed

lemma value_container_runs:
  "runs f (Array a (CHR ''['' # s)) h r \<Longrightarrow> runs (Suc f) (Value a (Ptr (CHR ''['' # s))) h r"
  "runs f (Object a (CHR ''{'' # s)) h r \<Longrightarrow> runs (Suc f) (Value a (Ptr (CHR ''{'' # s))) h r"
  by (simp_all add: runs_def value_head del: parser.simps)

lemma empty_runs:
  assumes "vpre h p q t"
  shows "skip_text s = Some (CHR '']'' # r) \<Longrightarrow> runs (Suc f) (Array (jaddr t) (CHR ''['' # s)) h r"
    "skip_text s = Some (CHR ''}'' # r) \<Longrightarrow> runs (Suc f) (Object (jaddr t) (CHR ''{'' # s)) h r"
  using value_literal [OF assms is_ref_types(7)]
  by (auto simp: runs_def parse_array_body_def parse_object_body_def monad_simps)

lemma literal_runs:
  assumes "vpre h p q t"
  shows "runs (Suc f) (Value (jaddr t) (Ptr (''null'' @ r))) h r"
    "runs (Suc f) (Value (jaddr t) (Ptr (''false'' @ r))) h r"
    "runs (Suc f) (Value (jaddr t) (Ptr (''true'' @ r))) h r"
  using value_literal [OF assms is_ref_types(7)]
  by (auto simp: runs_def parse_value_body_def monad_simps)

lemma string_runs:
  assumes "vpre h p q t" "roomy h" "lit True s out r"
  shows "runs (Suc f) (Value (jaddr t) (Ptr (QUOTE # s))) h r"
proof -
  have "heap_ok h" "mem h (jaddr t) = Some (Node (node_of p q t))"
    using assms(1) seg_Cons_node [of "mem h" p t "[]" q] by (auto simp: vpre_def)
  from parse_string_complete [OF assms(3) this(1) assms(2) this(2)] show ?thesis
    by (simp add: runs_def value_head del: parser.simps)
qed

lemma parser_complete:
  "jvalue b s j r \<Longrightarrow> b \<Longrightarrow> 2 * length s + 1 \<le> f \<Longrightarrow> vpre h p q t \<Longrightarrow> roomy h
     \<Longrightarrow> runs f (Value (jaddr t) (Ptr s)) h r"
  "jelems b s js r \<Longrightarrow> b \<Longrightarrow> 2 * length s \<le> f \<Longrightarrow> epre h p t \<Longrightarrow> roomy h
     \<Longrightarrow> runs f (Elems (jaddr t) s) h r"
  "jmember b s ms r \<Longrightarrow> b \<Longrightarrow> 2 * length s \<le> f \<Longrightarrow> epre h p (blank a) \<Longrightarrow> roomy h
     \<Longrightarrow> runs f (Member a s) h r"
  "jmembers b s ms r \<Longrightarrow> b \<Longrightarrow> 2 * length s \<le> f \<Longrightarrow> epre h p t \<Longrightarrow> roomy h
     \<Longrightarrow> runs f (Members (jaddr t) s) h r"
proof (induction arbitrary: f h p q t and f h p t and f h p a and f h p t
    rule: jvalue_jelems_jmember_jmembers.inducts)
  case (jv_null b r)
  then show ?case using literal_runs(1) [of h p q t] by (cases f) simp_all
next
  case (jv_false b r)
  then show ?case using literal_runs(2) [of h p q t] by (cases f) simp_all
next
  case (jv_true b r)
  then show ?case using literal_runs(3) [of h p q t] by (cases f) simp_all
next
  case (jv_str b s out r)
  then show ?case using string_runs [of h p q t s out r] by (cases f) auto
next
  case (jv_num c s n r i b)
  then show ?case using number_runs [of h p q t c s n r i] by (cases f) simp_all
next
  case (jv_arr_empty s r b)
  obtain f' where f: "f = Suc (Suc f')" using jv_arr_empty by (cases f; cases "f - 1") auto
  show ?case unfolding f
    by (rule value_container_runs(1) [OF empty_runs(1) [OF jv_arr_empty.prems(3) jv_arr_empty.hyps(1)]])
next
  case (jv_obj_empty s r b)
  obtain f' where f: "f = Suc (Suc f')" using jv_obj_empty by (cases f; cases "f - 1") auto
  show ?case unfolding f
    by (rule value_container_runs(2) [OF empty_runs(2) [OF jv_obj_empty.prems(3) jv_obj_empty.hyps(1)]])
next
  case (jv_arr s s1 b j r1 r2 js r)
  obtain f' where f: "f = Suc (Suc f')" using jv_arr by (cases f; cases "f - 1") auto
  have l: "2 * length s1 + 1 \<le> f'" "2 * length r2 \<le> f'"
    using jv_arr.prems(2) f skip_length [OF jv_arr.hyps(1)] sfx_length [OF jvalue_sfx(1) [OF jv_arr.hyps(2)]]
      skip_length [OF jv_arr.hyps(3)] by simp_all
  show ?case unfolding f
    by (rule value_container_runs(1) [OF array_runs [OF jv_arr.prems(3) jv_arr.prems(4) jv_arr.hyps(1) _ jv_arr.hyps(3)
          jv_arr.IH(1) [OF \<open>b\<close> l(1)] jv_arr.IH(2) [OF \<open>b\<close> l(2)]]])
      (use jvalue_not_bracket [OF jv_arr.hyps(2)] in auto)
next
  case (jv_obj s s1 b ms r)
  obtain f' where f: "f = Suc (Suc f')" using jv_obj by (cases f; cases "f - 1") auto
  have l: "2 * length s1 \<le> f'" using jv_obj.prems(2) f skip_length [OF jv_obj.hyps(1)] by simp
  show ?case unfolding f
    by (rule value_container_runs(2) [OF object_runs [OF jv_obj.prems(3) jv_obj.prems(4) jv_obj.hyps(1) _ jv_obj.IH(1) [OF \<open>b\<close> l]]])
      (use jmember_not_brace [OF jv_obj.hyps(2)] in auto)
next
  case (je_end b r)
  then show ?case by (cases f) (simp_all add: runs_def parse_elems_body_def)
next
  case (je_more s s1 b j r1 r2 js r)
  obtain f' where f: "f = Suc f'" using je_more by (cases f) auto
  have l: "2 * length s1 + 1 \<le> f'" "2 * length r2 \<le> f'"
    using je_more.prems(2) f skip_length [OF je_more.hyps(1)] sfx_length [OF jvalue_sfx(1) [OF je_more.hyps(2)]]
      skip_length [OF je_more.hyps(3)] by simp_all
  show ?case unfolding f
    by (rule elems_runs [OF je_more.prems(3) je_more.prems(4) je_more.hyps(1) je_more.hyps(3) je_more.IH(1) [OF \<open>b\<close> l(1)] je_more.IH(2) [OF \<open>b\<close> l(2)]])
next
  case (jm b s k r1 r2 r3 j r4 r5 ms r)
  obtain f' where f: "f = Suc f'" using jm by (cases f) auto
  have l: "2 * length r3 + 1 \<le> f'" "2 * length r5 \<le> f'"
    using jm f sfx_length [OF lit_sfx [OF jm.hyps(1)]] skip_length [OF jm.hyps(2)] skip_length [OF jm.hyps(3)]
      sfx_length [OF jvalue_sfx(1) [OF jm.hyps(4)]] skip_length [OF jm.hyps(5)] by simp_all
  have lt: "lit True s k r1" using jm by simp
  show ?case unfolding f
    by (rule member_runs [OF jm.prems(3) jm.prems(4) lt jm.hyps(2) jm.hyps(3) jm.hyps(5) jm.IH(1) [OF \<open>b\<close> l(1)] jm.IH(2) [OF \<open>b\<close> l(2)]])
next
  case (jms_end b r)
  then show ?case by (cases f) (simp_all add: runs_def parse_members_body_def)
next
  case (jms_more s s1 b ms r)
  obtain f' where f: "f = Suc f'" using jms_more by (cases f) auto
  have l: "2 * length s1 \<le> f'" using jms_more.prems(2) f skip_length [OF jms_more.hyps(1)] by simp
  show ?case unfolding f
    by (rule members_runs [OF jms_more.prems(3) jms_more.prems(4) jms_more.hyps(1) jms_more.IH(1) [OF \<open>b\<close> l]])
qed

subsection \<open>The grammar is deterministic\<close>

inductive_cases lit_ConsE: "lit b (c # s) out r"

lemma lit_det: "lit b s out r \<Longrightarrow> lit b' s out' r' \<Longrightarrow> out' = out \<and> r' = r"
proof (induction arbitrary: out' rule: lit.induct)
  case (lit_quote b r)
  then show ?case by (auto elim: lit_ConsE)
next
  case (lit_nul r)
  then show ?case by (auto elim: lit_ConsE)
next
  case (lit_char c b s out r)
  from lit_char.prems lit_char.hyps(1) obtain o2 where "out' = c # o2" "lit b' s o2 r'"
    by (auto elim: lit_ConsE)
  with lit_char.IH show ?case by blast
next
  case (lit_esc e b s out r)
  from lit_esc.prems lit_esc.hyps(1) obtain o2 where "out' = simple_escape e # o2" "lit b' s o2 r'"
    by (auto elim: lit_ConsE)
  with lit_esc.IH show ?case by blast
next
  case (lit_uni s bs s' b out r)
  from lit_uni.prems lit_uni.hyps(1) obtain o2 where "out' = bs @ o2" "lit b' s' o2 r'"
    by (auto elim: lit_ConsE)
  with lit_uni.IH show ?case by blast
qed

lemma jvalue_det:
  "jvalue b s j r \<Longrightarrow> jvalue b' s j' r' \<Longrightarrow> j' = j \<and> r' = r"
  "jelems b s js r \<Longrightarrow> jelems b' s js' r' \<Longrightarrow> js' = js \<and> r' = r"
  "jmember b s ms r \<Longrightarrow> jmember b' s ms' r' \<Longrightarrow> ms' = ms \<and> r' = r"
  "jmembers b s ms r \<Longrightarrow> jmembers b' s ms' r' \<Longrightarrow> ms' = ms \<and> r' = r"
proof (induction arbitrary: j' r' and js' r' and ms' r' and ms' r'
    rule: jvalue_jelems_jmember_jmembers.inducts)
  case (jv_null b r)
  then show ?case by (auto elim: jvalue_ConsE)
next
  case (jv_false b r)
  then show ?case by (auto elim: jvalue_ConsE)
next
  case (jv_true b r)
  then show ?case by (auto elim: jvalue_ConsE)
next
  case (jv_str b s out r)
  then show ?case by (auto elim!: jvalue_ConsE dest: lit_det)
next
  case (jv_num c s n r i b)
  then show ?case by (auto elim: jvalue_ConsE)
next
  case (jv_arr_empty s r b)
  from jv_arr_empty.prems show ?case
    by (rule jvalue_ConsE) (use jv_arr_empty.hyps in auto)
next
  case (jv_arr s s1 b j r1 r2 js r)
  from jv_arr.prems obtain j2 q1 q2 js2 where "j' = JArr (j2 # js2)" "jvalue b' s1 j2 q1"
    "skip_text q1 = Some q2" "jelems b' q2 js2 r'"
    by (rule jvalue_ConsE) (use jv_arr.hyps in auto)
  with jv_arr.IH jv_arr.hyps show ?case by (metis option.inject)
next
  case (jv_obj_empty s r b)
  from jv_obj_empty.prems show ?case
    by (rule jvalue_ConsE) (use jv_obj_empty.hyps in auto)
next
  case (jv_obj s s1 b ms r)
  from jv_obj.prems obtain ms2 where "j' = JObj ms2" "jmember b' s1 ms2 r'"
    by (rule jvalue_ConsE) (use jv_obj.hyps in auto)
  with jv_obj.IH show ?case by metis
next
  case (je_end b r)
  then show ?case by (auto elim: jelems_ConsE)
next
  case (je_more s s1 b j r1 r2 js r)
  from je_more.prems obtain j2 q1 q2 js2 where "js' = j2 # js2" "jvalue b' s1 j2 q1"
    "skip_text q1 = Some q2" "jelems b' q2 js2 r'"
    by (rule jelems_ConsE) (use je_more.hyps in auto)
  with je_more.IH je_more.hyps show ?case by (metis option.inject)
next
  case (jm b s k r1 r2 r3 j r4 r5 ms r)
  from jm.prems obtain k' q1 q2 q3 j2 q4 q5 ms2 where q: "ms' = (tk k', j2) # ms2" "lit b' s k' q1"
    "skip_text q1 = Some (CHR '':'' # q2)" "skip_text q2 = Some q3" "jvalue b' q3 j2 q4"
    "skip_text q4 = Some q5" "jmembers b' q5 ms2 r'"
    by (rule jmember_ConsE) auto
  from lit_det [OF jm.hyps(1) q(2)] have "k' = k" "q1 = r1" by auto
  with q jm.hyps have "q3 = r3" by simp
  with q jm.IH(1) have "j2 = j" "q4 = r4" by auto
  with q jm.hyps have "q5 = r5" by simp
  with q jm.IH(2) \<open>k' = k\<close> \<open>j2 = j\<close> show ?case by auto
next
  case (jms_end b r)
  then show ?case by (auto elim: jmembers_ConsE)
next
  case (jms_more s s1 b ms r)
  from jms_more.prems obtain "jmember b' s1 ms' r'"
    by (rule jmembers_ConsE) (use jms_more.hyps in auto)
  with jms_more.IH show ?case by metis
qed

subsection \<open>cJSON_ParseWithOpts on derivable texts\<close>

lemma cJSON_ParseWithOpts_complete:
  assumes ok: "heap_ok h" "roomy h" and s: "skip_text s = Some s0" and j: "jvalue True s0 j r"
  shows "\<exists>c h' t. cJSON_ParseWithOpts (Ptr s) False h = Some (c, Some (Ptr r), h') \<and> c \<noteq> 0
     \<and> seg (mem h') 0 [t] 0 \<and> grow {} (foot [t]) h h' \<and> jaddr t = c \<and> jrep j t"
proof -
  obtain h0 where new: "cJSON_New_Item h = (brk h, h0)" and b: "brk h \<noteq> 0"
    using roomy_malloc [OF ok] unfolding cJSON_New_Item_def by blast
  note ni = new_item [OF ok(1) new b]
  let ?h1 = "h0\<lparr>ep := Null\<rparr>"
  have pre: "vpre ?h1 0 0 (blank (brk h))"
    using ni(4) grow_ok [OF ni(1)] by (simp add: vpre_def blank_def heap_ok_def)
  have ro: "roomy ?h1" using grow_room [OF ni(1)] ok(2) by simp
  from parser_complete(1) [OF j TrueI _ pre ro, of "parse_fuel s0"] obtain h2 where
    "parser (parse_fuel s0) (Value (brk h) (Ptr s0)) ?h1 = Some (Ptr r, h2)"
    by (auto simp: runs_def blank_def parse_fuel_def)
  with new b s have run: "cJSON_ParseWithOpts (Ptr s) False h = Some (brk h, Some (Ptr r), h2)"
    by (simp add: cJSON_ParseWithOpts_def text_of_def parse_value_def)
  with cJSON_ParseWithOpts_sound [OF ok(1) run] b obtain t j' where t: "jaddr t = brk h"
    "seg (mem h2) 0 [t] 0" "grow {} (foot [t]) h h2" "jvalue False s0 j' r" "jrep j' t"
    using s by (auto simp: parsed_def)
  from jvalue_det(1) [OF j t(4)] t(5) have "jrep j t" by simp
  with run b t show ?thesis by blast
qed

end
