(* ===== verification/CJSON_Safe.thy ===== *)
theory CJSON_Safe
  imports CJSON_Complete
begin

section \<open>The parser stays inside its objects\<close>

text \<open>
  On a text that holds a zero byte, whose backslashes introduce complete escapes and whose
  numbers are in range (\<open>safe_text\<close>), every call of the parser is defined: it terminates
  within its fuel and neither reads nor writes outside an object, for every content and
  whichever allocations fail.
\<close>

definition good_escape :: "string \<Rightarrow> bool" where
  "good_escape r = (case r of [] \<Rightarrow> False
     | e # r' \<Rightarrow> e \<noteq> NUL \<and> (e = CHR ''u'' \<longrightarrow> uni_ok r'))"

definition good_number :: "string \<Rightarrow> bool" where
  "good_number v = (case parse_number_text v of None \<Rightarrow> False | Some (n, r) \<Rightarrow> to_int 64 n \<noteq> None)"

fun safe_text :: "string \<Rightarrow> bool" where
  "safe_text [] = True"
| "safe_text (c # s) = ((c = BSLASH \<longrightarrow> good_escape s)
     \<and> (c = CHR ''-'' \<or> is_digit c \<longrightarrow> good_number (c # s)) \<and> safe_text s)"

definition ztext :: "string \<Rightarrow> bool" where
  "ztext s \<longleftrightarrow> NUL \<in> set s \<and> safe_text s"

lemma safe_text_sfx: "safe_text s \<Longrightarrow> sfx s r \<Longrightarrow> safe_text r"
proof -
  have "safe_text (x @ r) \<Longrightarrow> safe_text r" for x by (induction x) auto
  then show "safe_text s \<Longrightarrow> sfx s r \<Longrightarrow> safe_text r" by (auto simp: sfx_def)
qed

lemma ztext_zkeep: "ztext s \<Longrightarrow> zkeep s r \<Longrightarrow> ztext r"
  using safe_text_sfx by (auto simp: ztext_def zkeep_def)

lemma ztext_Cons: "ztext (c # s) \<Longrightarrow> c \<noteq> NUL \<Longrightarrow> ztext s"
  by (auto simp: ztext_def)

lemma ztext_Nil [simp]: "\<not> ztext []"
  by (simp add: ztext_def)

lemma ztext_skip: "ztext s \<Longrightarrow> \<exists>r. skip_text s = Some r \<and> ztext r \<and> length r \<le> length s"
proof -
  assume z: "ztext s"
  have "NUL \<in> set s \<Longrightarrow> skip_text s \<noteq> None" by (induction s) auto
  with z obtain r where "skip_text s = Some r" by (auto simp: ztext_def)
  with z skip_text_zkeep show ?thesis using skip_length ztext_zkeep by blast
qed

lemma ztext_strncmp: "NUL \<in> set v \<Longrightarrow> \<exists>b. strncmp_eq v l = Some b"
  by (induction v l rule: strncmp_eq.induct) auto

text \<open>A complete escape is consumed before the terminator.\<close>

lemma drop4_hex4: "hex4 s \<Longrightarrow> NUL \<in> set s \<Longrightarrow> NUL \<in> set (drop 4 s)"
  by (erule hex4_cases) (auto dest: is_hex_plain)

lemma unicode_escape_ztext:
  assumes ok: "uni_ok s" and z: "ztext s" and u: "unicode_escape s = Some (bs, s')"
  shows "ztext s'"
proof -
  have "hex4 s" using ok by (simp add: uni_ok_def)
  then have "NUL \<in> set (drop 4 s)" using drop4_hex4 z by (simp add: ztext_def)
  with unicode_escape_cases [OF ok u] have "NUL \<in> set s'" using drop4_hex4 by auto
  with safe_text_sfx [OF _ unicode_escape_sfx [OF u]] z show ?thesis by (simp add: ztext_def)
qed

lemma unicode_escape_defined:
  assumes ok: "uni_ok s" and z: "NUL \<in> set s"
  shows "\<exists>bs s'. unicode_escape s = Some (bs, s')"
proof -
  have h: "hex4 s" using ok by (simp add: uni_ok_def)
  obtain uc where uc: "parse_hex4 s = Some uc" using hex4_defined [OF h] by blast
  have adv: "advance 4 s = Some (drop 4 s)" using h by (simp add: hex4_def advance_def)
  obtain c1 w where w: "drop 4 s = c1 # w" "NUL \<in> set (c1 # w)"
    using drop4_hex4 [OF h z] by (cases "drop 4 s") auto
  show ?thesis
  proof (cases "c1 = BSLASH")
    case False
    then show ?thesis by (auto simp: unicode_escape_def uc adv w)
  next
    case b: True
    with w obtain c2 w2 where w2: "w = c2 # w2" by (cases w) auto
    show ?thesis
    proof (cases "c2 = CHR ''u''")
      case False
      then show ?thesis by (auto simp: unicode_escape_def uc adv w w2)
    next
      case True
      have "drop 6 s = drop 2 (drop 4 s)" by simp
      then have "drop 6 s = w2" using w w2 by (simp add: numeral_2_eq_2)
      moreover have "take 2 (drop 4 s) = [BSLASH, CHR ''u'']" using w w2 b True by (simp add: numeral_2_eq_2)
      ultimately have h2: "hex4 w2" using ok by (auto simp: uni_ok_def)
      obtain uc2 where uc2: "parse_hex4 w2 = Some uc2" using hex4_defined [OF h2] by blast
      have "\<exists>r2. advance 6 (c1 # w) = Some r2" using h2 w2 by (simp add: hex4_def advance_def)
      with uc2 show ?thesis using w w2 b True by (auto simp: unicode_escape_def uc adv)
    qed
  qed
qed

lemma scan_len_uni: "uni_ok s \<Longrightarrow> unicode_escape s = Some (bs, s') \<Longrightarrow> scan_len s' = Some n
    \<Longrightarrow> \<exists>m. scan_len s = Some m \<and> length bs + n \<le> Suc m"
proof -
  assume ok: "uni_ok s" and u: "unicode_escape s = Some (bs, s')" and n: "scan_len s' = Some n"
  have h: "hex4 s" using ok by (simp add: uni_ok_def)
  from unicode_escape_cases [OF ok u] show ?thesis
  proof (elim disjE exE conjE)
    assume "s' = drop 4 s" "length bs \<le> 3"
    with scan_len_hex4 [OF h] n show ?thesis by auto
  next
    fix s2 assume "drop 4 s = BSLASH # CHR ''u'' # s2" "hex4 s2" "s' = drop 4 s2" "length bs \<le> 4"
    with scan_len_hex4 [OF h] scan_len_hex4 [of s2] n show ?thesis
      by (auto simp: scan_len_bslash simp del: scan_len.simps)
  qed
qed

definition unesc_fits :: "string \<Rightarrow> nat \<Rightarrow> bool" where
  "unesc_fits s n \<longleftrightarrow> (\<forall>cap out. length out + n \<le> cap \<longrightarrow>
     (\<exists>out' p. unesc s (cap, out) = Some ((cap, out'), p) \<and> ztext p \<and> length out' \<le> length out + n))"

lemma unesc_fits_D:
  "unesc_fits s n \<Longrightarrow> length out + n \<le> cap \<Longrightarrow>
     \<exists>out' p. unesc s (cap, out) = Some ((cap, out'), p) \<and> ztext p \<and> length out' \<le> length out + n"
  by (simp add: unesc_fits_def)

lemma unesc_safe: "ztext s \<Longrightarrow> \<exists>n. scan_len s = Some n \<and> unesc_fits s n"
proof (induction s rule: length_induct)
  case (1 s)
  obtain c t where s: "s = c # t" using 1(2) by (cases s) auto
  consider "c = QUOTE \<or> c = NUL" | "c \<noteq> QUOTE" "c \<noteq> NUL" "c \<noteq> BSLASH" | "c = BSLASH" by blast
  then show ?case
  proof cases
    case 1
    with s \<open>ztext s\<close> show ?thesis by (auto simp: unesc_fits_def)
  next
    case 2
    then have "ztext t" using ztext_Cons [of c t] s \<open>ztext s\<close> by blast
    with 1(1) s obtain n where n: "scan_len t = Some n" "unesc_fits t n" by auto
    have "unesc_fits s (Suc n)"
      unfolding unesc_fits_def
    proof (intro allI impI)
      fix cap and out :: string assume "length out + Suc n \<le> cap"
      with unesc_fits_D [OF n(2), of "out @ [c]" cap] 2 s
      show "\<exists>out' p. unesc s (cap, out) = Some ((cap, out'), p) \<and> ztext p \<and> length out' \<le> length out + Suc n"
        by (auto simp: emit_def)
    qed
    with n 2 s show ?thesis by auto
  next
    case 3
    with s \<open>ztext s\<close> have g: "good_escape t" by (simp add: ztext_def)
    then obtain e r where t: "t = e # r" "e \<noteq> NUL" "e = CHR ''u'' \<longrightarrow> uni_ok r"
      by (cases t) (auto simp: good_escape_def)
    have zr: "ztext r" using ztext_Cons [of BSLASH t] ztext_Cons [of e r] s t 3 \<open>ztext s\<close> by simp
    show ?thesis
    proof (cases "e = CHR ''u''")
      case True
      with t have ok: "uni_ok r" by simp
      obtain bs r' where u: "unicode_escape r = Some (bs, r')"
        using unicode_escape_defined [OF ok] zr by (auto simp: ztext_def)
      have r': "ztext r'" "length r' < length s"
        using unicode_escape_ztext [OF ok zr u] unicode_escape_shorter [OF u] s t by auto
      with 1(1) obtain n where n: "scan_len r' = Some n" "unesc_fits r' n" by blast
      obtain m where m: "scan_len r = Some m" "length bs + n \<le> Suc m"
        using scan_len_uni [OF ok u n(1)] by blast
      have "unesc_fits s (Suc m)"
        unfolding unesc_fits_def
      proof (intro allI impI)
        fix cap and out :: string assume c: "length out + Suc m \<le> cap"
        with m(2) have "length (out @ bs) + n \<le> cap" by simp
        from unesc_fits_D [OF n(2) this] c m(2) s t 3 True u unesc_unicode [of r "(cap, out)"]
        show "\<exists>out' p. unesc s (cap, out) = Some ((cap, out'), p) \<and> ztext p \<and> length out' \<le> length out + Suc m"
          by (fastforce simp: emit_def simp del: unesc.simps)
      qed
      with m(1) s t 3 True show ?thesis by auto
    next
      case False
      have "length r < length s" using s t by simp
      with 1(1) zr obtain n where n: "scan_len r = Some n" "unesc_fits r n" by blast
      have "unesc_fits s (Suc n)"
        unfolding unesc_fits_def
      proof (intro allI impI)
        fix cap and out :: string assume "length out + Suc n \<le> cap"
        with unesc_fits_D [OF n(2), of "out @ [simple_escape e]" cap] 3 s t False
        show "\<exists>out' p. unesc s (cap, out) = Some ((cap, out'), p) \<and> ztext p \<and> length out' \<le> length out + Suc n"
          by (auto simp: emit_def)
      qed
      with n(1) s t 3 show ?thesis by auto
    qed
  qed
qed

lemma lit_ztext: "lit b s out r \<Longrightarrow> ztext s \<Longrightarrow> ztext r"
proof (induction rule: lit.induct)
  case (lit_uni s bs s' b out r)
  from lit_uni.prems have ok: "uni_ok s" by (simp add: ztext_def good_escape_def)
  have "ztext s" using ztext_Cons [OF ztext_Cons [OF lit_uni.prems]] by simp
  with unicode_escape_ztext [OF ok _ lit_uni.hyps(1)] lit_uni.IH show ?case by blast
qed (auto simp: ztext_def good_escape_def)

lemma jvalue_ztext:
  "jvalue b s j r \<Longrightarrow> ztext s \<Longrightarrow> ztext r"
  "jelems b s js r \<Longrightarrow> ztext s \<Longrightarrow> ztext r"
  "jmember b s ms r \<Longrightarrow> ztext s \<Longrightarrow> ztext r"
  "jmembers b s ms r \<Longrightarrow> ztext s \<Longrightarrow> ztext r"
proof (induction rule: jvalue_jelems_jmember_jmembers.inducts)
  case (jv_null b r)
  then show ?case by (auto dest!: ztext_Cons)
next
  case (jv_false b r)
  then show ?case by (auto dest!: ztext_Cons)
next
  case (jv_true b r)
  then show ?case by (auto dest!: ztext_Cons)
next
  case (jv_str b s out r)
  then show ?case using lit_ztext ztext_Cons by blast
next
  case (jv_num c s n r i b)
  then show ?case using parse_number_text_zkeep ztext_zkeep by blast
next
  case (jv_arr_empty s r b)
  have "ztext s" using ztext_Cons [OF jv_arr_empty.prems] by simp
  with jv_arr_empty.hyps have "ztext (CHR '']'' # r)" using skip_text_zkeep ztext_zkeep by blast
  from ztext_Cons [OF this] show ?case by simp
next
  case (jv_arr s s1 b j r1 r2 js r)
  have "ztext s" using ztext_Cons [OF jv_arr.prems] by simp
  with jv_arr show ?case by (meson skip_text_zkeep ztext_zkeep)
next
  case (jv_obj_empty s r b)
  have "ztext s" using ztext_Cons [OF jv_obj_empty.prems] by simp
  with jv_obj_empty.hyps have "ztext (CHR ''}'' # r)" using skip_text_zkeep ztext_zkeep by blast
  from ztext_Cons [OF this] show ?case by simp
next
  case (jv_obj s s1 b ms r)
  have "ztext s" using ztext_Cons [OF jv_obj.prems] by simp
  with jv_obj show ?case by (meson skip_text_zkeep ztext_zkeep)
next
  case (je_end b r)
  then show ?case using ztext_Cons by blast
next
  case (je_more s s1 b j r1 r2 js r)
  have "ztext s" using ztext_Cons [OF je_more.prems] by simp
  with je_more show ?case by (meson skip_text_zkeep ztext_zkeep)
next
  case (jm b s k r1 r2 r3 j r4 r5 ms r)
  have "ztext s" using ztext_Cons [OF jm.prems] by simp
  then have "ztext (CHR '':'' # r2)"
    using lit_ztext [OF jm.hyps(1)] skip_text_zkeep [OF jm.hyps(2)] ztext_zkeep by blast
  from ztext_Cons [OF this] have "ztext r2" by simp
  with jm.hyps jm.IH show ?case by (meson skip_text_zkeep ztext_zkeep)
next
  case (jms_end b r)
  then show ?case using ztext_Cons by blast
next
  case (jms_more s s1 b ms r)
  have "ztext s" using ztext_Cons [OF jms_more.prems] by simp
  with jms_more show ?case by (meson skip_text_zkeep ztext_zkeep)
qed

subsection \<open>Every call is defined\<close>

lemma parse_string_total:
  assumes z: "ztext v" and h: "heap_ok h" "mem h a = Some (Node n)"
  shows "\<exists>r h'. parse_string a v h = Some (r, h')"
proof -
  obtain c s where v: "v = c # s" using z by (cases v) auto
  show ?thesis
  proof (cases "c = QUOTE")
    case False
    then show ?thesis by (simp add: parse_string_def v)
  next
    case True
    then have "ztext s" using ztext_Cons [of c s] z v by simp
    then obtain k where k: "scan_len s = Some k" "unesc_fits s k" using unesc_safe by blast
    obtain out h1 where m: "c_malloc (Buf []) h = (out, h1)" by (cases "c_malloc (Buf []) h")
    show ?thesis
    proof (cases "out = 0")
      case True
      with k m \<open>c = QUOTE\<close> show ?thesis by (simp add: parse_string_def v)
    next
      case False
      from unesc_fits_D [OF k(2), of "[]" "k + 1"] obtain out' p where
        u: "unesc s (k + 1, []) = Some ((k + 1, out'), p)" "ztext p" "length out' \<le> k" by auto
      have e: "emit [NUL] (k + 1, out') = Some (k + 1, out' @ [NUL])" using u(3) by (simp add: emit_def)
      obtain d where d: "deref p = Some d" using u(2) by (cases p) auto
      have "mem h1 a = Some (Node n)" "a \<noteq> out"
        using grow_malloc(2,3) [OF h(1) m False] h(2) heap_ok_0 [OF h] by auto
      then obtain h2 where "upd_node a (\<lambda>n. n\<lparr>j_valuestring := out, j_type := cJSON_String\<rparr>)
          (h1\<lparr>mem := (mem h1)(out := Some (Buf (tk out')))\<rparr>) = Some h2"
        using upd_defined [of "h1\<lparr>mem := (mem h1)(out := Some (Buf (tk out')))\<rparr>" a n] by auto
      with k m u(1) e d False \<open>c = QUOTE\<close> show ?thesis by (simp add: parse_string_def v)
    qed
  qed
qed

lemma vpre_node: "vpre h p q t \<Longrightarrow> heap_ok h \<and> mem h (jaddr t) = Some (Node (node_of p q t))"
  using seg_Cons_node [of "mem h" p t "[]" q] by (simp add: vpre_def)

lemma epre_node: "epre h p t \<Longrightarrow> heap_ok h \<and> mem h (jaddr t) = Some (Node (node_of p 0 t))"
  using seg_Cons_node [of "mem h" p t "[]" 0] by (simp add: epre_def)

text \<open>The text a value call leaves.\<close>

lemma value_rest:
  assumes pre: "vpre h p 0 t" and v: "parser f (Value (jaddr t) (Ptr s)) h = Some (pe, h1)" and z: "ztext s"
  shows "\<exists>k. skip pe = Some k \<and> (\<forall>v3. k = Ptr v3 \<longrightarrow> ztext v3 \<and> length v3 \<le> length s)"
proof (cases pe)
  case (Ptr r)
  from rec_okD(1) [OF parser_rec_ok pre v] Ptr obtain j where "jvalue False s j r"
    by (auto simp: vpost_def)
  then have "ztext r" "length r \<le> length s"
    using jvalue_ztext(1) z sfx_length [OF jvalue_sfx(1)] by blast+
  with ztext_skip [of r] Ptr show ?thesis by auto
qed simp

definition total :: "nat \<Rightarrow> bool" where
  "total f \<longleftrightarrow>
     (\<forall>h p q t v. vpre h p q t \<longrightarrow> ztext v \<longrightarrow> 2 * length v + 1 \<le> f \<longrightarrow> parser f (Value (jaddr t) (Ptr v)) h \<noteq> None)
   \<and> (\<forall>h p q t v. vpre h p q t \<longrightarrow> ztext v \<longrightarrow> 2 * length v \<le> f \<longrightarrow> parser f (Array (jaddr t) v) h \<noteq> None)
   \<and> (\<forall>h p q t v. vpre h p q t \<longrightarrow> ztext v \<longrightarrow> 2 * length v \<le> f \<longrightarrow> parser f (Object (jaddr t) v) h \<noteq> None)
   \<and> (\<forall>h p t v. epre h p t \<longrightarrow> ztext v \<longrightarrow> 2 * length v \<le> f \<longrightarrow> parser f (Elems (jaddr t) v) h \<noteq> None)
   \<and> (\<forall>h p t v. epre h p t \<longrightarrow> ztext v \<longrightarrow> 2 * length v \<le> f \<longrightarrow> parser f (Members (jaddr t) v) h \<noteq> None)
   \<and> (\<forall>h p a v. epre h p (blank a) \<longrightarrow> ztext v \<longrightarrow> 2 * length v \<le> f \<longrightarrow> parser f (Member a v) h \<noteq> None)"

lemma totalD:
  assumes "total f" "ztext v"
  shows "vpre h p q t \<Longrightarrow> 2 * length v + 1 \<le> f \<Longrightarrow> parser f (Value (jaddr t) (Ptr v)) h \<noteq> None"
    "vpre h p q t \<Longrightarrow> 2 * length v \<le> f \<Longrightarrow> parser f (Array (jaddr t) v) h \<noteq> None"
    "vpre h p q t \<Longrightarrow> 2 * length v \<le> f \<Longrightarrow> parser f (Object (jaddr t) v) h \<noteq> None"
    "epre h p t \<Longrightarrow> 2 * length v \<le> f \<Longrightarrow> parser f (Elems (jaddr t) v) h \<noteq> None"
    "epre h p t \<Longrightarrow> 2 * length v \<le> f \<Longrightarrow> parser f (Members (jaddr t) v) h \<noteq> None"
    "epre h p (blank a) \<Longrightarrow> 2 * length v \<le> f \<Longrightarrow> parser f (Member a v) h \<noteq> None"
  using assms(2) by (meson assms(1) [unfolded total_def])+

lemma value_total:
  assumes T: "total f" and pre: "vpre h p q t" and z: "ztext v" and f: "2 * length v + 1 \<le> Suc f"
  shows "parse_value_body (parser f) (jaddr t) (Ptr v) h \<noteq> None"
proof -
  have n: "heap_ok h" "mem h (jaddr t) = Some (Node (node_of p q t))" using vpre_node [OF pre] by auto
  have up: "\<exists>h'. upd_node (jaddr t) g h = Some h'" for g using upd_defined [OF n(2)] .
  have N: "NUL \<in> set v" using z by (simp add: ztext_def)
  obtain b1 b2 b3 where b: "strncmp_eq v ''null'' = Some b1" "strncmp_eq v ''false'' = Some b2"
    "strncmp_eq v ''true'' = Some b3" using ztext_strncmp [OF N] by metis
  obtain c s where v: "v = c # s" using z by (cases v) auto
  have num: "parse_number (jaddr t) v h \<noteq> None" if "c = CHR ''-'' \<or> is_digit c"
  proof -
    from z that v have "good_number v" by (auto simp: ztext_def)
    with up show ?thesis
      by (auto simp: good_number_def parse_number_def monad_simps split: option.splits)
  qed
  have ps: "parse_string (jaddr t) v h \<noteq> None" using parse_string_total [OF z n] by auto
  have cont: "parser f (Array (jaddr t) v) h \<noteq> None" "parser f (Object (jaddr t) v) h \<noteq> None"
    using totalD(2,3) [OF T z pre] f by auto
  have lit: "(do { h' \<leftarrow> upd_node (jaddr t) g h; Some (Ptr r, h') }) \<noteq> None" for g r
    using up [of g] by auto
  show ?thesis
    using b lit num ps cont v
    by (auto simp: parse_value_body_def simp del: strncmp_eq.simps split: if_splits)
qed

lemma array_total:
  assumes T: "total f" and pre: "vpre h p q t" and z: "ztext v" and f: "2 * length v \<le> Suc f"
  shows "parse_array_body (parser f) (jaddr t) v h \<noteq> None"
proof -
  from pre obtain a ty vi vd nm where t: "t = Own a ty None vi vd nm []" by (rule vpre_own)
  note pre = pre [unfolded t]
  obtain c s where v: "v = c # s" using z by (cases v) auto
  show ?thesis
  proof (cases "c = CHR ''[''")
    case False
    then show ?thesis by (simp add: parse_array_body_def v)
  next
    case True
    then have zs: "ztext s" using ztext_Cons [of c s] z v by simp
    obtain h1 where up: "upd_node a (\<lambda>n. n\<lparr>j_type := cJSON_Array\<rparr>) h = Some h1"
      using value_literal [OF pre is_ref_types(7)] by auto
    obtain v1 where v1: "skip_text s = Some v1" "ztext v1" "length v1 \<le> length s"
      using ztext_skip [OF zs] by blast
    then obtain c1 w where w: "v1 = c1 # w" by (cases v1) auto
    obtain ch h2 where new: "cJSON_New_Item h1 = (ch, h2)" by (cases "cJSON_New_Item h1")
    from upd_vnode [OF pre up, of cJSON_Array] have
      pre1: "vpre h1 p q (Own a cJSON_Array None vi vd nm [])" by simp
    have ok1: "heap_ok h1" using vpre_node [OF pre1] by simp
    have "\<exists>n. mem h2 a = Some (Node n)"
      using c_malloc_ok(5,6) [OF ok1 new [unfolded cJSON_New_Item_def]] vpre_node [OF pre1] by auto
    then obtain h3 where up3: "upd_node a (\<lambda>n. n\<lparr>j_child := ch\<rparr>) h2 = Some h3"
      using upd_defined by blast
    note run = parse_array_body_def v True up v1(1) w new up3
    show ?thesis
    proof (cases "c1 = CHR '']'' \<or> ch = 0")
      case True
      then show ?thesis by (auto simp: run t)
    next
      case False
      note co = container_open [OF pre up is_ref_types(7) new up3]
      have vp: "vpre h3 0 0 (blank ch)" using co(2) False by (simp add: vpre_blank)
      have "parser f (Value ch (Ptr v1)) h3 \<noteq> None"
        using totalD(1) [OF T v1(2) vp] v1(3) f v by (simp add: blank_def)
      then obtain pe h4 where pv: "parser f (Value ch (Ptr v1)) h3 = Some (pe, h4)" by auto
      have pv': "parser f (Value (jaddr (blank ch)) (Ptr v1)) h3 = Some (pe, h4)" using pv by (simp add: blank_def)
      obtain k where k: "skip pe = Some k" "\<forall>v3. k = Ptr v3 \<longrightarrow> ztext v3 \<and> length v3 \<le> length v1"
        using value_rest [OF vp pv' v1(2)] by blast
      obtain t' where t': "jaddr t' = ch" "epre h4 0 t'"
        using value_next [OF parser_rec_ok vp pv'] by (auto simp: blank_def)
      have "parser f (Elems ch v3) h4 \<noteq> None" if "k = Ptr v3" for v3
        using totalD(4) [OF T _ t'(2), of v3] k(2) that v1(3) f v t'(1) by auto
      then show ?thesis using False pv k(1) skip_text_idem [OF v1(1)]
        by (auto simp: run t simp del: skip_text.simps split: cptr.splits)
    qed
  qed
qed

lemma object_total:
  assumes T: "total f" and pre: "vpre h p q t" and z: "ztext v" and f: "2 * length v \<le> Suc f"
  shows "parse_object_body (parser f) (jaddr t) v h \<noteq> None"
proof -
  from pre obtain a ty vi vd nm where t: "t = Own a ty None vi vd nm []" by (rule vpre_own)
  note pre = pre [unfolded t]
  obtain c s where v: "v = c # s" using z by (cases v) auto
  show ?thesis
  proof (cases "c = CHR ''{''")
    case False
    then show ?thesis by (simp add: parse_object_body_def v)
  next
    case True
    then have zs: "ztext s" using ztext_Cons [of c s] z v by simp
    obtain h1 where up: "upd_node a (\<lambda>n. n\<lparr>j_type := cJSON_Object\<rparr>) h = Some h1"
      using value_literal [OF pre is_ref_types(7)] by auto
    obtain v1 where v1: "skip_text s = Some v1" "ztext v1" "length v1 \<le> length s"
      using ztext_skip [OF zs] by blast
    then obtain c1 w where w: "v1 = c1 # w" by (cases v1) auto
    obtain ch h2 where new: "cJSON_New_Item h1 = (ch, h2)" by (cases "cJSON_New_Item h1")
    from upd_vnode [OF pre up, of cJSON_Object] have
      pre1: "vpre h1 p q (Own a cJSON_Object None vi vd nm [])" by simp
    have ok1: "heap_ok h1" using vpre_node [OF pre1] by simp
    have "\<exists>n. mem h2 a = Some (Node n)"
      using c_malloc_ok(5,6) [OF ok1 new [unfolded cJSON_New_Item_def]] vpre_node [OF pre1] by auto
    then obtain h3 where up3: "upd_node a (\<lambda>n. n\<lparr>j_child := ch\<rparr>) h2 = Some h3"
      using upd_defined by blast
    note run = parse_object_body_def v True up v1(1) w new up3
    show ?thesis
    proof (cases "c1 = CHR ''}'' \<or> ch = 0")
      case True
      then show ?thesis by (auto simp: run t)
    next
      case False
      note co = container_open [OF pre up is_ref_types(8) new up3]
      have "epre h3 0 (blank ch)" using co(2) False by simp
      then have "parser f (Member ch v1) h3 \<noteq> None"
        using totalD(6) [OF T v1(2)] v1(3) f v by simp
      then show ?thesis using False skip_text_idem [OF v1(1)] w
        by (simp add: run t del: skip_text.simps)
    qed
  qed
qed

text \<open>The links for a further item can always be written.\<close>

lemma append_total:
  assumes pre: "epre h p t" and new: "cJSON_New_Item h = (b, h1)" "b \<noteq> 0"
  obtains h2 h3 where "upd_node (jaddr t) (\<lambda>n. n\<lparr>j_next := b\<rparr>) h1 = Some h2"
    "upd_node b (\<lambda>n. n\<lparr>j_prev := jaddr t\<rparr>) h2 = Some h3" "epre h3 (jaddr t) (blank b)"
proof -
  have ok: "heap_ok h" and n: "mem h (jaddr t) = Some (Node (node_of p 0 t))"
    using epre_node [OF pre] by auto
  note ni = new_item [OF ok new]
  have n1: "mem h1 (jaddr t) = Some (Node (node_of p 0 t))" "jaddr t \<noteq> b"
    using n ni(2,3) heap_ok_0 [OF ok n] by auto
  then obtain h2 where u1: "upd_node (jaddr t) (\<lambda>n. n\<lparr>j_next := b\<rparr>) h1 = Some h2"
    using upd_defined by blast
  from grow_upd(3) [OF grow_ok [OF ni(1)] u1, of UNIV] n1 ni(3)
  have "mem h2 b = Some (Node zero_node)" by auto
  then obtain h3 where u2: "upd_node b (\<lambda>n. n\<lparr>j_prev := jaddr t\<rparr>) h2 = Some h3"
    using upd_defined by blast
  from append_item [OF pre new u1 u2] that u1 u2 show thesis by blast
qed

lemma elems_total:
  assumes T: "total f" and pre: "epre h p t" and z: "ztext v" and f: "2 * length v \<le> Suc f"
  shows "parse_elems_body (parser f) (jaddr t) v h \<noteq> None"
proof -
  obtain c s where v: "v = c # s" using z by (cases v) auto
  obtain b h1 where new: "cJSON_New_Item h = (b, h1)" by (cases "cJSON_New_Item h")
  show ?thesis
  proof (cases "c = CHR '','' \<and> b \<noteq> 0")
    case False
    with new show ?thesis by (auto simp: parse_elems_body_def v)
  next
    case True
    then have zs: "ztext s" using ztext_Cons [of c s] z v by simp
    obtain v1 where v1: "skip_text s = Some v1" "ztext v1" "length v1 \<le> length s"
      using ztext_skip [OF zs] by blast
    from append_total [OF pre new] True obtain h2 h3 where u: "upd_node (jaddr t) (\<lambda>n. n\<lparr>j_next := b\<rparr>) h1 = Some h2"
      "upd_node b (\<lambda>n. n\<lparr>j_prev := jaddr t\<rparr>) h2 = Some h3" and e: "epre h3 (jaddr t) (blank b)" by blast
    have vp: "vpre h3 (jaddr t) 0 (blank b)" using e by (simp add: vpre_blank)
    have "parser f (Value (jaddr (blank b)) (Ptr v1)) h3 \<noteq> None"
      using totalD(1) [OF T v1(2) vp] v1(3) f v by simp
    then obtain pe h4 where pv: "parser f (Value (jaddr (blank b)) (Ptr v1)) h3 = Some (pe, h4)" by auto
    obtain k where k: "skip pe = Some k" "\<forall>v3. k = Ptr v3 \<longrightarrow> ztext v3 \<and> length v3 \<le> length v1"
      using value_rest [OF vp pv v1(2)] by blast
    obtain t' where t': "jaddr t' = b" "epre h4 (jaddr t) t'"
      using value_next [OF parser_rec_ok vp pv] by (auto simp: blank_def)
    have "parser f (Elems b v3) h4 \<noteq> None" if "k = Ptr v3" for v3
      using totalD(4) [OF T _ t'(2), of v3] k(2) that v1(3) f v t'(1) by auto
    then show ?thesis using True pv k(1) v1(1) u new
      by (auto simp: parse_elems_body_def v blank_def split: cptr.splits)
  qed
qed

lemma members_total:
  assumes T: "total f" and pre: "epre h p t" and z: "ztext v" and f: "2 * length v \<le> Suc f"
  shows "parse_members_body (parser f) (jaddr t) v h \<noteq> None"
proof -
  obtain c s where v: "v = c # s" using z by (cases v) auto
  obtain b h1 where new: "cJSON_New_Item h = (b, h1)" by (cases "cJSON_New_Item h")
  show ?thesis
  proof (cases "c = CHR '','' \<and> b \<noteq> 0")
    case False
    with new show ?thesis by (auto simp: parse_members_body_def v)
  next
    case True
    then have zs: "ztext s" using ztext_Cons [of c s] z v by simp
    obtain v1 where v1: "skip_text s = Some v1" "ztext v1" "length v1 \<le> length s"
      using ztext_skip [OF zs] by blast
    from append_total [OF pre new] True obtain h2 h3 where u: "upd_node (jaddr t) (\<lambda>n. n\<lparr>j_next := b\<rparr>) h1 = Some h2"
      "upd_node b (\<lambda>n. n\<lparr>j_prev := jaddr t\<rparr>) h2 = Some h3" and e: "epre h3 (jaddr t) (blank b)" by blast
    have "parser f (Member b v1) h3 \<noteq> None"
      using totalD(6) [OF T v1(2) e] v1(3) f v by simp
    then show ?thesis using True v1(1) u new
      by (auto simp: parse_members_body_def v)
  qed
qed

lemma member_total:
  assumes T: "total f" and pre: "epre h p (blank a)" and z: "ztext v" and f: "2 * length v \<le> Suc f"
  shows "parse_member_body (parser f) a v h \<noteq> None"
proof -
  have n: "heap_ok h" "mem h a = Some (Node (node_of p 0 (blank a)))"
    using epre_node [OF pre] by (auto simp: blank_def)
  have t0: "seg (mem h) p [Own a 0 None 0 (Fin False 0) None []] 0" "a \<notin> set (sadr None)"
    using pre by (auto simp: epre_def blank_def)
  obtain ps h1 where ps: "parse_string a v h = Some (ps, h1)" using parse_string_total [OF z n] by auto
  show ?thesis
  proof (cases ps)
    case Null
    with ps show ?thesis by (simp add: parse_member_body_def)
  next
    case (Ptr r1)
    from parse_string_grow [OF n(1) t0 ps] Ptr obtain s out where
      s: "v = QUOTE # s" "lit False s out r1" by (elim exE conjE) auto
    have "ztext s" using ztext_Cons [of QUOTE s] z s(1) by simp
    then have z1: "ztext r1" using lit_ztext [OF s(2)] by simp
    have l1: "length r1 \<le> length s" using sfx_length [OF lit_sfx [OF s(2)]] .
    obtain v1 where v1: "skip_text r1 = Some v1" "ztext v1" "length v1 \<le> length r1"
      using ztext_skip [OF z1] by blast
    then obtain c w where w: "v1 = c # w" by (cases v1) auto
    from parse_string_frame [OF n(1) t0 ps]
    obtain ty' vs where "seg (mem h1) p [Own a ty' vs 0 (Fin False 0) None []] 0" .
    then obtain h2 where up: "upd_node a (\<lambda>n. n\<lparr>j_string := j_valuestring n, j_valuestring := 0\<rparr>) h1 = Some h2"
      using upd_seg_defined by fastforce
    note run = parse_member_body_def ps Ptr v1(1) w up
    show ?thesis
    proof (cases "c = CHR '':''")
      case False
      then show ?thesis by (simp add: run)
    next
      case True
      then have "ztext w" using ztext_Cons [of c w] v1(2) w by simp
      then obtain v2 where v2: "skip_text w = Some v2" "ztext v2" "length v2 \<le> length w"
        using ztext_skip by blast
      obtain ty nm where vp: "vpre h2 p 0 (Own a ty None 0 (Fin False 0) nm [])"
        using member_name [OF pre ps [unfolded s(1) Ptr] up] by blast
      have "parser f (Value (jaddr (Own a ty None 0 (Fin False 0) nm [])) (Ptr v2)) h2 \<noteq> None"
        using totalD(1) [OF T v2(2) vp] v2(3) v1(3) l1 f s(1) w by simp
      then obtain pe h3 where pv: "parser f (Value (jaddr (Own a ty None 0 (Fin False 0) nm [])) (Ptr v2)) h2 = Some (pe, h3)"
        by auto
      obtain k where k: "skip pe = Some k" "\<forall>v3. k = Ptr v3 \<longrightarrow> ztext v3 \<and> length v3 \<le> length v2"
        using value_rest [OF vp pv v2(2)] by blast
      obtain t' where t': "jaddr t' = a" "epre h3 p t'"
        using value_next [OF parser_rec_ok vp pv] by auto
      have "parser f (Members a v3) h3 \<noteq> None" if "k = Ptr v3" for v3
        using totalD(5) [OF T _ t'(2), of v3] k(2) that v2(3) v1(3) l1 f s(1) w t'(1) by auto
      then show ?thesis using True pv k(1) v2(1)
        by (auto simp: run simp del: skip_text.simps split: cptr.splits)
    qed
  qed
qed

lemma parser_total: "total f"
proof (induction f)
  case 0
  then show ?case by (auto simp: total_def)
next
  case (Suc f)
  show ?case
    unfolding total_def parser.simps parser_body.simps
    by (intro conjI allI impI value_total [OF Suc] array_total [OF Suc] object_total [OF Suc]
        elems_total [OF Suc] members_total [OF Suc] member_total [OF Suc])
qed

lemma cJSON_ParseWithOpts_total:
  assumes ok: "heap_ok h" and z: "ztext s"
  shows "\<exists>c e h'. cJSON_ParseWithOpts (Ptr s) req h = Some (c, e, h')"
proof -
  obtain c0 h0 where new: "cJSON_New_Item h = (c0, h0)" by (cases "cJSON_New_Item h")
  show ?thesis
  proof (cases "c0 = 0")
    case True
    with new show ?thesis by (simp add: cJSON_ParseWithOpts_def)
  next
    case False
    let ?h1 = "h0\<lparr>ep := Null\<rparr>"
    note ni = new_item [OF ok new False]
    obtain s0 where s0: "skip_text s = Some s0" "ztext s0" using ztext_skip [OF z] by blast
    have pre: "vpre ?h1 0 0 (blank c0)"
      using ni(4) grow_ok [OF ni(1)] by (simp add: vpre_def blank_def heap_ok_def)
    have "parser (parse_fuel s0) (Value (jaddr (blank c0)) (Ptr s0)) ?h1 \<noteq> None"
      by (rule totalD(1) [OF parser_total s0(2) pre]) (simp add: parse_fuel_def)
    then obtain pe h2 where pv: "parser (parse_fuel s0) (Value (jaddr (blank c0)) (Ptr s0)) ?h1 = Some (pe, h2)"
      by auto
    obtain k where k: "skip pe = Some k" "\<forall>v3. k = Ptr v3 \<longrightarrow> ztext v3 \<and> length v3 \<le> length s0"
      using value_rest [OF pre pv s0(2)] by blast
    obtain t' where t': "jaddr t' = c0" "epre h2 0 t'"
      using value_next [OF parser_rec_ok pre pv] by (auto simp: blank_def)
    have "cJSON_Delete (first [t'] 0) h2 \<noteq> None"
      using cJSON_Delete_seg [of h2 0 "[t']"] t'(2) by (simp add: epre_def)
    then obtain h3 where d: "cJSON_Delete c0 h2 = Some h3" using t'(1) by auto
    have pv0: "parser (parse_fuel s0) (Value c0 (Ptr s0)) ?h1 = Some (pe, h2)"
      using pv by (simp add: blank_def)
    show ?thesis
    proof (cases pe)
      case Null
      with new False s0 pv0 d show ?thesis
        by (simp add: cJSON_ParseWithOpts_def parse_value_def text_of_def)
    next
      case (Ptr r)
      with k obtain v3 where "skip_text r = Some v3" "ztext v3" by auto
      then obtain x y where "skip_text r = Some (x # y)" by (cases v3) auto
      with Ptr new False s0 pv0 d show ?thesis
        by (simp add: cJSON_ParseWithOpts_def parse_value_def text_of_def)
    qed
  qed
qed

end
