(* ===== verification/CJSON_Print.thy ===== *)
theory CJSON_Print
  imports CJSON_Grammar
begin

section \<open>The cJSON printer\<close>

text \<open>
  \<open>print_number\<close>, \<open>print_string_ptr\<close>, \<open>print_value\<close>, \<open>print_array\<close>, \<open>print_object\<close>,
  \<open>cJSON_Print\<close> and \<open>cJSON_PrintUnformatted\<close> of \<open>common/cJSON.c\<close>. Every output buffer is
  a writer of the size the code computed for it, so a theorem that the printer is defined
  says that the computed sizes are enough. The contents of the temporary pointer arrays
  are the lists the loops return; their cells are allocated and freed as in the code.
\<close>

subsection \<open>Numbers and strings\<close>

definition DBL_EPSILON :: fl where "DBL_EPSILON = Fin False (1 / 2 ^ 52)"

text \<open>The text of a number and the size of the buffer allocated for it.\<close>

definition number_text :: "int \<Rightarrow> fl \<Rightarrow> nat \<times> string" where
  "number_text i d =
     (if fle (fabs (fsub binary64 (of_int_fl binary64 i) d)) DBL_EPSILON
         \<and> fle d (int_fl INT_MAX) \<and> fle (int_fl INT_MIN) d
      then (21, dec_int i)
      else (64,
        if fle (fabs (fsub binary64 (ffloor d) d)) DBL_EPSILON
           \<and> flt (fabs d) (of_val binary64 False (10 ^ 60)) then fmt_f 0 d
        else if flt (fabs d) (of_val binary64 False (1 / 10 ^ 6))
           \<or> flt (of_val binary64 False (10 ^ 9)) (fabs d) then fmt_e d
        else fmt_f 6 d))"

definition set_buf :: "addr \<Rightarrow> string \<Rightarrow> heap \<Rightarrow> heap" where
  "set_buf a s h = h\<lparr>mem := (mem h)(a := Some (Buf s))\<rparr>"

text \<open>Allocate \<open>cap\<close> bytes and format or copy \<open>s\<close> into them.\<close>

definition new_text :: "nat \<Rightarrow> string \<Rightarrow> heap \<Rightarrow> (addr \<times> heap) option" where
  "new_text cap s h = (let (out, h1) = c_malloc (Buf []) h in
     if out = 0 then Some (0, h1)
     else do { w \<leftarrow> emit_str s (cap, []); Some (out, set_buf out (snd w) h1) })"

definition print_number :: "cJSON \<Rightarrow> heap \<Rightarrow> (addr \<times> heap) option" where
  "print_number item h = (let (cap, s) = number_text (j_valueint item) (j_valuedouble item)
     in new_text cap s h)"

definition short_escape :: "char \<Rightarrow> char option" where
  "short_escape c =
     (if c = BSLASH then Some BSLASH else if c = QUOTE then Some QUOTE
      else if c = CHR 0x08 then Some CHR ''b'' else if c = CHR 0x0C then Some CHR ''f''
      else if c = CHR 0x0A then Some CHR ''n'' else if c = CHR 0x0D then Some CHR ''r''
      else if c = CHR 0x09 then Some CHR ''t'' else None)"

fun print_len :: "string \<Rightarrow> nat" where
  "print_len [] = 0"
| "print_len (c # s) =
     (if short_escape c \<noteq> None then 2 else if code c < 32 then 6 else 1) + print_len s"

definition is_plain :: "char \<Rightarrow> bool" where
  "is_plain c \<longleftrightarrow> 31 < code c \<and> c \<noteq> QUOTE \<and> c \<noteq> BSLASH"

fun print_chars :: "string \<Rightarrow> writer \<Rightarrow> writer option" where
  "print_chars [] w = Some w"
| "print_chars (c # s) w =
     (if is_plain c then do { w1 \<leftarrow> emit [c] w; print_chars s w1 }
      else do {
        w1 \<leftarrow> emit [BSLASH] w;
        w2 \<leftarrow> (case short_escape c of
                 Some e \<Rightarrow> emit [e] w1
               | None \<Rightarrow> emit_str (CHR ''u'' # CHR ''0'' # CHR ''0'' # hex02 (code c)) w1);
        print_chars s w2
      })"

definition print_string_ptr :: "string option \<Rightarrow> heap \<Rightarrow> (addr \<times> heap) option" where
  "print_string_ptr str h = (case str of
     None \<Rightarrow> Some (cJSON_strdup [] h)
   | Some s \<Rightarrow>
       (let (out, h1) = c_malloc (Buf []) h in
        if out = 0 then Some (0, h1)
        else do {
          w \<leftarrow> emit [QUOTE] (print_len s + 3, []);
          w \<leftarrow> print_chars s w;
          w \<leftarrow> emit [QUOTE] w;
          w' \<leftarrow> emit [NUL] w;
          Some (out, set_buf out (snd w) h1)
        }))"

definition print_string :: "cJSON \<Rightarrow> heap \<Rightarrow> (addr \<times> heap) option" where
  "print_string item h = do { s \<leftarrow> ld_nstr (j_valuestring item) h; print_string_ptr s h }"

subsection \<open>Arrays and objects\<close>

text \<open>\<open>while (child) numentries++, child = child->next\<close>; a cyclic list never ends.\<close>

partial_function (option) count_items :: "addr \<Rightarrow> heap \<Rightarrow> nat option" where
  "count_items c h =
     (if c = 0 then Some 0
      else do { n \<leftarrow> ld c h; k \<leftarrow> count_items (j_next n) h; Some (Suc k) })"

declare count_items.simps [code]

type_synonym printer = "addr \<Rightarrow> nat \<Rightarrow> heap \<Rightarrow> (addr \<times> heap) option"

text \<open>
  The collecting loops. The first argument is the room left in the pointer arrays; an
  item beyond it would be written outside. The results: the pointers, the bytes to add to
  the length, whether a rendering failed, the heap.
\<close>

fun print_entries ::
  "printer \<Rightarrow> bool \<Rightarrow> nat \<Rightarrow> nat \<Rightarrow> addr \<Rightarrow> heap \<Rightarrow> (addr list \<times> nat \<times> bool \<times> heap) option" where
  "print_entries rec fmt d 0 c h = (if c = 0 then Some ([], 0, False, h) else None)"
| "print_entries rec fmt d (Suc k) c h =
     (if c = 0 then Some ([], 0, False, h)
      else do {
        (ret, h1) \<leftarrow> rec c (d + 1) h;
        n \<leftarrow> ld c h1;
        (if ret = 0 then Some ([ret], 0, True, h1)
         else do {
           s \<leftarrow> ld_str ret h1;
           (rets, len, fail, h2) \<leftarrow> print_entries rec fmt d k (j_next n) h1;
           Some (ret # rets, length s + 2 + (if fmt then 1 else 0) + len, fail, h2)
         })
      })"

fun print_members ::
  "printer \<Rightarrow> bool \<Rightarrow> nat \<Rightarrow> nat \<Rightarrow> addr \<Rightarrow> heap
     \<Rightarrow> ((addr \<times> addr) list \<times> nat \<times> bool \<times> heap) option" where
  "print_members rec fmt d 0 c h = (if c = 0 then Some ([], 0, False, h) else None)"
| "print_members rec fmt d (Suc k) c h =
     (if c = 0 then Some ([], 0, False, h)
      else do {
        n \<leftarrow> ld c h;
        nm \<leftarrow> ld_nstr (j_string n) h;
        (str, h1) \<leftarrow> print_string_ptr nm h;
        (ret, h2) \<leftarrow> rec c d h1;
        n2 \<leftarrow> ld c h2;
        l \<leftarrow> (if str \<noteq> 0 \<and> ret \<noteq> 0 then do {
               a \<leftarrow> ld_str ret h2;
               b \<leftarrow> ld_str str h2;
               Some (length a + length b + 2 + (if fmt then 2 + d else 0))
             } else Some 0);
        (rets, len, fail, h3) \<leftarrow> print_members rec fmt d k (j_next n2) h2;
        Some ((str, ret) # rets, l + len, str = 0 \<or> ret = 0 \<or> fail, h3)
      })"

fun free_list :: "addr list \<Rightarrow> heap \<Rightarrow> heap option" where
  "free_list [] h = Some h"
| "free_list (a # as) h = do { h1 \<leftarrow> (if a \<noteq> 0 then c_free a h else Some h); free_list as h1 }"

fun compose_elems :: "bool \<Rightarrow> addr list \<Rightarrow> writer \<Rightarrow> heap \<Rightarrow> (writer \<times> heap) option" where
  "compose_elems fmt [] w h = Some (w, h)"
| "compose_elems fmt (e # es) w h = do {
     s \<leftarrow> ld_str e h;
     w1 \<leftarrow> emit_str s w;
     w2 \<leftarrow> (if es \<noteq> []
            then do { w \<leftarrow> emit (if fmt then '', '' else '','') w1; emit_str [] w }
            else Some w1);
     h1 \<leftarrow> c_free e h;
     compose_elems fmt es w2 h1
   }"

definition tabs :: "nat \<Rightarrow> string" where
  "tabs k = replicate k CHR 0x09"

fun compose_members ::
  "bool \<Rightarrow> nat \<Rightarrow> (addr \<times> addr) list \<Rightarrow> writer \<Rightarrow> heap \<Rightarrow> (writer \<times> heap) option" where
  "compose_members fmt d [] w h = Some (w, h)"
| "compose_members fmt d ((nm, e) # es) w h = do {
     w \<leftarrow> (if fmt then emit (tabs d) w else Some w);
     ns \<leftarrow> ld_str nm h;
     w \<leftarrow> emit_str ns w;
     w \<leftarrow> emit '':'' w;
     w \<leftarrow> (if fmt then emit [CHR 0x09] w else Some w);
     s \<leftarrow> ld_str e h;
     w \<leftarrow> emit_str s w;
     w \<leftarrow> (if es \<noteq> [] then emit '','' w else Some w);
     w \<leftarrow> (if fmt then emit [CHR 0x0A] w else Some w);
     w \<leftarrow> emit_str [] w;
     h1 \<leftarrow> c_free nm h;
     h2 \<leftarrow> c_free e h1;
     compose_members fmt d es w h2
   }"

definition print_array :: "printer \<Rightarrow> bool \<Rightarrow> printer" where
  "print_array rec fmt item depth h = do {
     n \<leftarrow> ld item h;
     k \<leftarrow> count_items (j_child n) h;
     if k = 0 then new_text 3 ''[]'' h
     else do {
       let (ents, h1) = c_malloc (Ptrs (replicate k 0)) h;
       if ents = 0 then Some (0, h1)
       else do {
         (rets, len, fail, h2) \<leftarrow> print_entries rec fmt depth k (j_child n) h1;
         let (out, h3) = (if fail then (0, h2) else c_malloc (Buf []) h2);
         if out = 0 then do {
           h4 \<leftarrow> free_list rets h3;
           h5 \<leftarrow> c_free ents h4;
           Some (0, h5)
         }
         else do {
           w \<leftarrow> emit_str ''['' (5 + len, []);
           (w, h4) \<leftarrow> compose_elems fmt rets w h3;
           h5 \<leftarrow> c_free ents h4;
           w \<leftarrow> emit '']'' w;
           w' \<leftarrow> emit [NUL] w;
           Some (out, set_buf out (snd w) h5)
         }
       }
     }
   }"

definition print_object :: "printer \<Rightarrow> bool \<Rightarrow> printer" where
  "print_object rec fmt item depth h = do {
     n \<leftarrow> ld item h;
     k \<leftarrow> count_items (j_child n) h;
     if k = 0 then do {
       let (out, h1) = c_malloc (Buf []) h;
       if out = 0 then Some (0, h1)
       else do {
         w \<leftarrow> emit ''{'' (if fmt then depth + 4 else 3, []);
         w \<leftarrow> (if fmt then emit (CHR 0x0A # tabs (depth - 1)) w else Some w);
         w \<leftarrow> emit ''}'' w;
         w' \<leftarrow> emit [NUL] w;
         Some (out, set_buf out (snd w) h1)
       }
     }
     else do {
       let (ents, h1) = c_malloc (Ptrs (replicate k 0)) h;
       if ents = 0 then Some (0, h1)
       else do {
         let (names, h2) = c_malloc (Ptrs (replicate k 0)) h1;
         if names = 0 then do { h3 \<leftarrow> c_free ents h2; Some (0, h3) }
         else do {
           let d = depth + 1;
           (rets, len, fail, h3) \<leftarrow> print_members rec fmt d k (j_child n) h2;
           let (out, h4) = (if fail then (0, h3) else c_malloc (Buf []) h3);
           if out = 0 then do {
             h5 \<leftarrow> free_list (concat (map (\<lambda>(a, b). [a, b]) rets)) h4;
             h6 \<leftarrow> c_free names h5;
             h7 \<leftarrow> c_free ents h6;
             Some (0, h7)
           }
           else do {
             w \<leftarrow> emit ''{'' (7 + (if fmt then d else 0) + len, []);
             w \<leftarrow> (if fmt then emit [CHR 0x0A] w else Some w);
             w \<leftarrow> emit_str [] w;
             (w, h5) \<leftarrow> compose_members fmt d rets w h4;
             h6 \<leftarrow> c_free names h5;
             h7 \<leftarrow> c_free ents h6;
             w \<leftarrow> (if fmt then emit (tabs (d - 1)) w else Some w);
             w \<leftarrow> emit ''}'' w;
             w' \<leftarrow> emit [NUL] w;
             Some (out, set_buf out (snd w) h7)
           }
         }
       }
     }
   }"

definition print_value_body :: "printer \<Rightarrow> bool \<Rightarrow> printer" where
  "print_value_body rec fmt item depth h =
     (if item = 0 then Some (0, h)
      else do {
        n \<leftarrow> ld item h;
        let ty = j_type n AND 255;
        if ty = cJSON_NULL then Some (cJSON_strdup ''null'' h)
        else if ty = cJSON_False then Some (cJSON_strdup ''false'' h)
        else if ty = cJSON_True then Some (cJSON_strdup ''true'' h)
        else if ty = cJSON_Number then print_number n h
        else if ty = cJSON_String then print_string n h
        else if ty = cJSON_Array then print_array rec fmt item depth h
        else if ty = cJSON_Object then print_object rec fmt item depth h
        else Some (0, h)
      })"

text \<open>The recursion goes as deep as the tree: fuel bounds the nesting.\<close>

primrec print_value :: "nat \<Rightarrow> bool \<Rightarrow> printer" where
  "print_value 0 fmt = (\<lambda>item depth h. None)"
| "print_value (Suc f) fmt = print_value_body (print_value f fmt) fmt"

text \<open>A tree is no deeper than the number of addresses handed out.\<close>

definition cJSON_Print :: "addr \<Rightarrow> heap \<Rightarrow> (addr \<times> heap) option" where
  "cJSON_Print item h = print_value (brk h) True item 0 h"

definition cJSON_PrintUnformatted :: "addr \<Rightarrow> heap \<Rightarrow> (addr \<times> heap) option" where
  "cJSON_PrintUnformatted item h = print_value (brk h) False item 0 h"

subsection \<open>The abstract rendering\<close>

definition esc_char :: "char \<Rightarrow> string" where
  "esc_char c = (if is_plain c then [c]
     else BSLASH # (case short_escape c of Some e \<Rightarrow> [e]
                    | None \<Rightarrow> CHR ''u'' # CHR ''0'' # CHR ''0'' # hex02 (code c)))"

definition escape :: "string \<Rightarrow> string" where
  "escape s = concat (map esc_char s)"

definition quoted :: "string \<Rightarrow> string" where
  "quoted s = QUOTE # escape s @ [QUOTE]"

definition member_text :: "bool \<Rightarrow> nat \<Rightarrow> string \<Rightarrow> string \<Rightarrow> bool \<Rightarrow> string" where
  "member_text fmt d k v again =
     (if fmt then tabs d else []) @ k @ '':'' @ (if fmt then [CHR 0x09] else []) @ v
       @ (if again then '','' else []) @ (if fmt then [CHR 0x0A] else [])"

fun
  pj :: "bool \<Rightarrow> nat \<Rightarrow> json \<Rightarrow> string" and
  pjs :: "bool \<Rightarrow> nat \<Rightarrow> json list \<Rightarrow> string" and
  pms :: "bool \<Rightarrow> nat \<Rightarrow> (string \<times> json) list \<Rightarrow> string" where
  "pj fmt d JNull = ''null''"
| "pj fmt d JFalse = ''false''"
| "pj fmt d JTrue = ''true''"
| "pj fmt d (JNum i x) = snd (number_text i x)"
| "pj fmt d (JStr s) = quoted s"
| "pj fmt d (JArr js) = ''['' @ pjs fmt (d + 1) js @ '']''"
| "pj fmt d (JObj ms) =
     (if ms = [] then ''{'' @ (if fmt then CHR 0x0A # tabs (d - 1) else []) @ ''}''
      else ''{'' @ (if fmt then [CHR 0x0A] else []) @ pms fmt (d + 1) ms
           @ (if fmt then tabs d else []) @ ''}'')"
| "pjs fmt d [] = []"
| "pjs fmt d (j # js) = pj fmt d j
     @ (if js = [] then [] else (if fmt then '', '' else '','') @ pjs fmt d js)"
| "pms fmt d [] = []"
| "pms fmt d ((k, j) # ms) =
     member_text fmt d (quoted k) (pj fmt d j) (ms \<noteq> []) @ pms fmt d ms"

subsection \<open>Numbers fit their buffers\<close>

definition is_double :: "fl \<Rightarrow> bool" where
  "is_double d = (case d of Fin s q \<Rightarrow> q = 0 \<or> (p2 (- 1074) \<le> q \<and> q < p2 1024) | _ \<Rightarrow> True)"

definition is_llong :: "int \<Rightarrow> bool" where
  "is_llong i \<longleftrightarrow> - (2 ^ 63) \<le> i \<and> i < 2 ^ 63"

lemma length_dec_int: "is_llong i \<Longrightarrow> length (dec_int i) \<le> 20"
proof -
  assume i: "is_llong i"
  have "length (dec (nat j)) \<le> 19" if "j \<le> 2 ^ 63" for j :: int
  proof (rule dec_length_le)
    have "nat j \<le> nat (2 ^ 63)" using that by (rule nat_mono)
    then show "nat j < 10 ^ 19" by simp
  qed simp
  from this [of i] this [of "- i"] i show ?thesis by (auto simp: dec_int_def is_llong_def)
qed

lemma length_sign_str: "length (sign_str s) \<le> 1"
  by (simp add: sign_str_def)

lemma length_digits_after:
  assumes "n < 10 ^ (k + m)" "0 < m"
  shows "length (digits_after k n) \<le> m + 1 + k"
proof -
  have "n div 10 ^ k < 10 ^ m" using assms(1) by (simp add: power_add less_mult_imp_div_less mult.commute)
  then have "length (dec (n div 10 ^ k)) \<le> m" using assms(2) by (rule dec_length_le)
  moreover have "length (pad_left CHR ''0'' k (dec (n mod 10 ^ k))) \<le> k" if "k \<noteq> 0"
    using dec_length_le [of "n mod 10 ^ k" k] that by (simp add: length_pad_left)
  ultimately show ?thesis by (auto simp: digits_after_def)
qed

lemma rne_le_of: "x \<le> of_nat n \<Longrightarrow> nat (rne x) \<le> n"
  using rne_mono [of x "of_nat n"] rne_of_int [of "int n"] by simp

lemma fround_le_double:
  assumes q: "1 \<le> q" and r: "fround binary64 False q = Fin s r"
  shows "r \<le> 2 * q"
proof -
  have "0 \<le> ilog 2 q"
  proof -
    have "p2 0 < p2 (ilog 2 q + 1)" using ilog2_bounds [of q] q by simp
    then show ?thesis unfolding p2_less_iff by simp
  qed
  then have "\<bar>r - q\<bar> \<le> q / 2 ^ 53"
    using fround_error [of q binary64 False r] q r by (auto simp: fround_def Let_def split: if_splits)
  also have "\<dots> \<le> q" using q by (simp add: field_simps)
  finally show ?thesis by simp
qed

lemma flt_bound:
  assumes "flt (fabs d) (of_val binary64 False (10 ^ k))" "d = Fin s q"
  shows "q \<le> 2 * 10 ^ k \<or> (\<exists>s. of_val binary64 False (10 ^ k) = Inf s)"
proof (cases "of_val binary64 False (10 ^ k)")
  case (Fin s' r)
  have "(1 :: rat) \<le> 10 ^ k" by simp
  then have "r \<le> 2 * 10 ^ k" using fround_le_double [of "10 ^ k" s' r] Fin by (simp add: of_val_def)
  moreover have "q \<le> fval (Fin s' r)" using assms Fin by (simp add: flt_def)
  moreover have "fround binary64 False (10 ^ k) = Fin s' r" using Fin by (simp add: of_val_def)
  then have "\<not> s'" by (auto simp: fround_def Let_def split: if_splits)
  ultimately show ?thesis by simp
next
  case NaN
  then show ?thesis using assms by (simp add: flt_def)
qed simp

lemma ten60_finite: "of_val binary64 False (10 ^ 60) \<noteq> Inf s"
proof -
  define q :: rat where "q = 10 ^ 60"
  have q: "0 < q" "1 \<le> q" by (simp_all add: q_def)
  define e where "e = ilog 2 q - 52"
  have e0: "0 \<le> ilog 2 q"
  proof -
    have "p2 0 < p2 (ilog 2 q + 1)" using ilog2_bounds [OF q(1)] q(2) by simp
    then show ?thesis unfolding p2_less_iff by simp
  qed
  have m: "max (emin binary64) (ilog 2 q - int (prec binary64) + 1) = e" using e0 by (simp add: e_def)
  have "\<bar>of_int (rne (q / p2 e)) - q / p2 e\<bar> \<le> 1 / 2" by (rule rne_error)
  then have "of_int (rne (q / p2 e)) \<le> q / p2 e + 1 / 2" by linarith
  then have "of_int (rne (q / p2 e)) * p2 e \<le> (q / p2 e + 1 / 2) * p2 e"
    by (intro mult_right_mono) simp_all
  also have "\<dots> = q + p2 e / 2" by (simp add: field_simps)
  also have "p2 e \<le> p2 (ilog 2 q)" by (rule p2_mono) (simp add: e_def)
  also have "p2 (ilog 2 q) \<le> q" using ilog2_bounds [OF q(1)] by simp
  finally have "of_int (rne (q / p2 e)) * p2 e \<le> 2 * q" using q(1) by linarith
  moreover have "2 * q < p2 1024" unfolding q_def p2_def by simp
  ultimately have "\<not> p2 (emax binary64 + int (prec binary64)) \<le> of_int (rne (q / p2 e)) * p2 e"
    by simp
  then show ?thesis using q(1) m unfolding of_val_def fround_def q_def [symmetric] by (simp add: Let_def)
qed

lemma length_fmt_f0:
  assumes "flt (fabs d) (of_val binary64 False (10 ^ 60))"
  shows "length (fmt_f 0 d) \<le> 63"
proof (cases d)
  case (Fin s q)
  then have "q \<le> 2 * 10 ^ 60" using flt_bound [OF assms] ten60_finite by blast
  then have "q * 10 ^ 0 \<le> of_nat (2 * 10 ^ 60)" by simp
  then have "nat (rne (q * 10 ^ 0)) \<le> 2 * 10 ^ 60" by (rule rne_le_of)
  also have "\<dots> < 10 ^ (0 + 61)" by simp
  finally have "length (digits_after 0 (nat (rne (q * 10 ^ 0)))) \<le> 61 + 1 + 0"
    by (rule length_digits_after) simp
  then show ?thesis using Fin length_sign_str [of s] by simp
qed (simp_all add: sign_str_def)

lemma length_fmt_f6:
  assumes "\<not> flt (of_val binary64 False (10 ^ 9)) (fabs d)"
  shows "length (fmt_f 6 d) \<le> 63"
proof (cases d)
  case (Fin s q)
  have "of_val binary64 False (of_int (10 ^ 9)) = int_fl (10 ^ 9)"
    by (subst of_val_int) (simp_all add: int_fl_def)
  then have "of_val binary64 False (10 ^ 9) = int_fl (10 ^ 9)" by simp
  with assms Fin have "q \<le> 10 ^ 9" by (auto simp: flt_def int_fl_def)
  then have "q * 10 ^ 6 \<le> of_nat (10 ^ 15)" by simp
  then have "nat (rne (q * 10 ^ 6)) \<le> 10 ^ 15" by (rule rne_le_of)
  also have "\<dots> < 10 ^ (6 + 10)" by simp
  finally have "length (digits_after 6 (nat (rne (q * 10 ^ 6)))) \<le> 10 + 1 + 6"
    by (rule length_digits_after) simp
  then show ?thesis using Fin length_sign_str [of s] by simp
qed (simp_all add: sign_str_def)

lemma ndig10_le:
  assumes "n \<le> 2 ^ k" "0 < n"
  shows "ndig 10 n \<le> k + 1"
proof -
  have b: "10 ^ (ndig 10 n - 1) \<le> n" using ndig_bounds [of 10 n] assms(2) by simp
  have "(2 :: nat) ^ k \<le> 10 ^ k" by (rule power_mono) simp_all
  with assms(1) b have "(10 :: nat) ^ (ndig 10 n - 1) \<le> 10 ^ k" by linarith
  then have "ndig 10 n - 1 \<le> k" by (rule power_le_imp_le_exp [rotated]) simp
  then show ?thesis by simp
qed

lemma ilog10_bound:
  assumes "p2 (- 1074) \<le> q" "q < p2 1024"
  shows "\<bar>ilog 10 q\<bar> \<le> 1075"
proof (cases "1 \<le> q")
  case True
  have "\<lfloor>q\<rfloor> \<le> 2 ^ 1024"
  proof -
    have "\<lfloor>q\<rfloor> \<le> \<lfloor>(2 ^ 1024 :: rat)\<rfloor>" using assms(2) by (intro floor_mono) (simp add: p2_def)
    also have "(2 ^ 1024 :: rat) = of_int (2 ^ 1024)" by simp
    finally show ?thesis unfolding floor_of_int .
  qed
  then have "nat \<lfloor>q\<rfloor> \<le> nat (2 ^ 1024)" by (rule nat_mono)
  also have "nat (2 ^ 1024) = 2 ^ 1024" by (simp add: nat_power_eq)
  finally have "ndig 10 (nat \<lfloor>q\<rfloor>) \<le> 1024 + 1" using True by (intro ndig10_le) simp_all
  then show ?thesis using True by (simp add: ilog_def)
next
  case False
  have q: "0 < q" using assms(1) p2_pos [of "- 1074"] by linarith
  have "1 / q \<le> 1 / p2 (- 1074)" using assms(1) q by (intro divide_left_mono) simp_all
  then have "\<lceil>1 / q\<rceil> \<le> \<lceil>(2 ^ 1074 :: rat)\<rceil>" by (intro ceiling_mono) (simp add: p2_def)
  also have "(2 ^ 1074 :: rat) = of_int (2 ^ 1074)" by simp
  finally have c: "\<lceil>1 / q\<rceil> \<le> 2 ^ 1074" unfolding ceiling_of_int .
  have "1 < 1 / q" using False q by (simp add: field_simps)
  then have c2: "2 \<le> \<lceil>1 / q\<rceil>" by linarith
  from c have "nat (\<lceil>1 / q\<rceil> - 1) \<le> nat (2 ^ 1074)" by (intro nat_mono) linarith
  also have "nat (2 ^ 1074) = 2 ^ 1074" by (simp add: nat_power_eq)
  finally have "ndig 10 (nat (\<lceil>1 / q\<rceil> - 1)) \<le> 1074 + 1" using c2 by (intro ndig10_le) simp_all
  then show ?thesis using False by (simp add: ilog_def)
qed

lemma length_fmt_e:
  assumes "is_double d"
  shows "length (fmt_e d) \<le> 63"
proof (cases d)
  case (Fin s q)
  define x0 where "x0 = (if q = 0 then 0 else ilog 10 q)"
  have x0: "\<bar>x0\<bar> \<le> 1075" using assms Fin ilog10_bound [of q] by (auto simp: x0_def is_double_def)
  define m0 where "m0 = rne (q / p10 x0 * 10 ^ 6)"
  define m where "m = (if 10 ^ 7 \<le> m0 then 10 ^ 6 else m0)"
  define x where "x = (if 10 ^ 7 \<le> m0 then x0 + 1 else x0)"
  have "nat m < 10 ^ (6 + 1)" by (auto simp: m_def)
  then have "length (digits_after 6 (nat m)) \<le> 1 + 1 + 6" by (rule length_digits_after) simp
  moreover have "length (dec (nat \<bar>x\<bar>)) \<le> 4"
    by (rule dec_length_le) (use x0 in \<open>auto simp: x_def\<close>)
  moreover have "fmt_e d = sign_str s @ digits_after 6 (nat m) @ ''e'' @ (if x < 0 then ''-'' else ''+'')
      @ pad_left CHR ''0'' 2 (dec (nat \<bar>x\<bar>))"
    unfolding Fin fmt_e.simps Let_def x0_def [symmetric] m0_def [symmetric] m_def [symmetric]
      x_def [symmetric] ..
  ultimately show ?thesis using length_sign_str [of s]
    by (cases "x < 0") (auto simp: length_pad_left max_def)
qed (simp_all add: sign_str_def)

lemma number_text_fits:
  assumes "is_llong i" "is_double d"
  shows "length (snd (number_text i d)) < fst (number_text i d)"
  using length_dec_int [OF assms(1)] length_fmt_e [OF assms(2)] length_fmt_f0 [of d] length_fmt_f6 [of d]
  by (auto simp: number_text_def less_Suc_eq_le)

subsection \<open>Strings\<close>

lemma length_esc_char:
  "length (esc_char c) = (if short_escape c \<noteq> None then 2 else if code c < 32 then 6 else 1)"
proof (cases "is_plain c")
  case True
  then have "short_escape c = None" "\<not> code c < 32"
    by (auto simp: is_plain_def short_escape_def code_def)
  with True show ?thesis by (simp add: esc_char_def)
next
  case False
  then have "short_escape c \<noteq> None \<or> code c < 32"
    by (auto simp: is_plain_def short_escape_def)
  with False show ?thesis by (auto simp: esc_char_def hex02_def)
qed

lemma length_escape: "length (escape s) = print_len s"
  by (induction s) (simp_all add: escape_def length_esc_char)

lemma print_chars_ok:
  "length out + print_len s < cap \<Longrightarrow> print_chars s (cap, out) = Some (cap, out @ escape s)"
proof (induction s arbitrary: out)
  case Nil
  then show ?case by (simp add: escape_def)
next
  case (Cons c s)
  have e: "escape (c # s) = esc_char c @ escape s" by (simp add: escape_def)
  have l: "length (out @ esc_char c) + print_len s < cap"
    using Cons.prems by (simp add: length_esc_char)
  note IH = Cons.IH [OF l]
  show ?case
    using IH l unfolding e
    by (cases "is_plain c") (auto simp: emit_def emit_str_def esc_char_def hex02_def split: option.splits)
qed

definition rendered :: "heap \<Rightarrow> addr \<Rightarrow> heap \<Rightarrow> string \<Rightarrow> bool" where
  "rendered h r h' s \<longleftrightarrow>
     (if r = 0 then grow {} [] h h' else grow {} [r] h h' \<and> mem h' r = Some (Buf s))
     \<and> (room h = (\<lambda>_. True) \<longrightarrow> r \<noteq> 0)"

lemma heap_ok_set_buf: "heap_ok h \<Longrightarrow> mem h a \<noteq> None \<Longrightarrow> heap_ok (set_buf a s h)"
  using heap_ok_0 [of h a] by (auto simp: heap_ok_def set_buf_def)

lemma grow_set_buf:
  "grow A X h h' \<Longrightarrow> a \<in> set X \<Longrightarrow> mem h' a \<noteq> None \<Longrightarrow> grow A X h (set_buf a s h')"
  using heap_ok_set_buf [of h' a s] by (auto simp: grow_def set_buf_def)

lemma set_buf_mem [simp]: "mem (set_buf a s h) = (mem h)(a := Some (Buf s))"
  by (simp add: set_buf_def)

lemma malloc_rendered:
  assumes ok: "heap_ok h" and m: "c_malloc (Buf []) h = (out, h1)"
  shows "rendered h out (if out = 0 then h1 else set_buf out s h1) s"
proof (cases "out = 0")
  case True
  then show ?thesis
    using grow_malloc_fail [OF ok m [unfolded True], of "{}"] c_malloc_ok(7) [OF ok m] ok
    by (auto simp: rendered_def heap_ok_def)
next
  case False
  from grow_malloc(1) [OF ok m False, of "{}"] grow_malloc(2) [OF ok m False]
  have "grow {} [out] h h1" "mem h1 out = Some (Buf [])" by simp_all
  from grow_set_buf [OF this(1), of out s] this(2) False show ?thesis by (simp add: rendered_def)
qed

lemma new_text_ok:
  assumes "heap_ok h" "length s < cap"
  shows "\<exists>r h'. new_text cap s h = Some (r, h') \<and> rendered h r h' s"
proof -
  obtain out h1 where m: "c_malloc (Buf []) h = (out, h1)" by (cases "c_malloc (Buf []) h")
  from malloc_rendered [OF assms(1) m, of s] m assms(2) show ?thesis
    by (cases "out = 0") (simp_all add: new_text_def emit_str_def)
qed

lemma strdup_ok:
  assumes "heap_ok h"
  shows "\<exists>r h'. cJSON_strdup s h = (r, h') \<and> rendered h r h' s"
proof -
  obtain r h' where m: "c_malloc (Buf s) h = (r, h')" by (cases "c_malloc (Buf s) h")
  have "rendered h r h' s"
  proof (cases "r = 0")
    case True
    with grow_malloc_fail [OF assms m [unfolded True], of "{}"] c_malloc_ok(7) [OF assms m] assms
    show ?thesis by (auto simp: rendered_def heap_ok_def)
  next
    case False
    with grow_malloc(1) [OF assms m False, of "{}"] grow_malloc(2) [OF assms m False]
    show ?thesis by (simp add: rendered_def)
  qed
  with m show ?thesis by (simp add: cJSON_strdup_def)
qed

lemma print_string_ptr_ok:
  assumes "heap_ok h"
  shows "\<exists>r h'. print_string_ptr (Some s) h = Some (r, h') \<and> rendered h r h' (quoted s)"
proof -
  obtain out h1 where m: "c_malloc (Buf []) h = (out, h1)" by (cases "c_malloc (Buf []) h")
  have e: "emit [QUOTE] (print_len s + 3, []) = Some (print_len s + 3, [QUOTE])" by (simp add: emit_def)
  have p: "print_chars s (print_len s + 3, [QUOTE]) = Some (print_len s + 3, [QUOTE] @ escape s)"
    by (rule print_chars_ok) simp
  from malloc_rendered [OF assms m, of "quoted s"] m e p show ?thesis
    by (cases "out = 0") (simp_all add: print_string_ptr_def emit_def length_escape quoted_def)
qed

subsection \<open>Freeing what was collected\<close>

lemma grow_free:
  assumes ok: "heap_ok h" and g: "grow {} (r # X) h h'" and l: "mem h' r \<noteq> None"
  shows "c_free r h' = Some (without [r] h')" "grow {} X h (without [r] h')"
proof -
  obtain c where c: "mem h' r = Some c" using l by auto
  have "r \<noteq> 0" using heap_ok_0 [OF grow_ok [OF g] c] by simp
  then show "c_free r h' = Some (without [r] h')" using l by (rule c_free_without)
  have "brk h \<le> r" using grow_range [OF g, of r] by simp
  then have "mem h r = None" using ok by (simp add: heap_ok_def)
  then show "grow {} X h (without [r] h')" using g by (auto simp: grow_def)
qed

definition live :: "addr list \<Rightarrow> heap \<Rightarrow> bool" where
  "live as h \<longleftrightarrow> (\<forall>a\<in>set as. mem h a \<noteq> None)"

lemma free_list_ok:
  assumes ok: "heap_ok h"
  shows "grow {} (filter (\<lambda>a. a \<noteq> 0) rets @ Y) h h' \<Longrightarrow> live (filter (\<lambda>a. a \<noteq> 0) rets) h'
    \<Longrightarrow> \<exists>h''. free_list rets h' = Some h'' \<and> grow {} Y h h'' \<and> (\<forall>a. a \<in> set Y \<longrightarrow> mem h'' a = mem h' a)"
proof (induction rets arbitrary: h')
  case Nil
  then show ?case by simp
next
  case (Cons r rets)
  show ?case
  proof (cases "r = 0")
    case True
    with Cons show ?thesis by (auto simp: live_def)
  next
    case False
    from Cons.prems False have g: "grow {} (r # (filter (\<lambda>a. a \<noteq> 0) rets @ Y)) h h'" by simp
    from Cons.prems False have l: "mem h' r \<noteq> None" by (simp add: live_def)
    note f = grow_free [OF ok g l]
    have r: "r \<notin> set rets" "r \<notin> set Y" using g False by (auto simp: grow_def)
    then have "live (filter (\<lambda>a. a \<noteq> 0) rets) (without [r] h')"
      using Cons.prems by (auto simp: live_def)
    from Cons.IH [OF f(2) this] obtain h'' where "free_list rets (without [r] h') = Some h''"
      "grow {} Y h h''" "\<forall>a. a \<in> set Y \<longrightarrow> mem h'' a = mem (without [r] h') a" by blast
    with f(1) False r show ?thesis by auto
  qed
qed

lemma count_items_ok: "seg (mem h) p ts 0 \<Longrightarrow> count_items (first ts 0) h = Some (length ts)"
proof (induction ts arbitrary: p)
  case Nil
  then show ?case by (simp add: count_items.simps)
next
  case (Cons t ts)
  note n = seg_Cons_node [OF Cons.prems]
  with Cons.IH [of "jaddr t"] show ?case
    by (subst count_items.simps) (simp add: ld_Node)
qed

lemma jreps_all2: "jreps js ts = list_all2 jrep js ts"
  by (induction js arbitrary: ts) (auto split: list.splits simp: list_all2_Cons1)

subsection \<open>Collecting and composing an array\<close>

definition prints :: "printer \<Rightarrow> nat \<Rightarrow> string \<Rightarrow> jt \<Rightarrow> bool" where
  "prints rec d s t \<longleftrightarrow> (\<forall>h p q. heap_ok h \<longrightarrow> seg (mem h) p [t] q \<longrightarrow>
     (\<exists>r h'. rec (jaddr t) d h = Some (r, h') \<and> rendered h r h' s))"

lemma printsD:
  "prints rec d s t \<Longrightarrow> heap_ok h \<Longrightarrow> seg (mem h) p [t] q
     \<Longrightarrow> \<exists>r h'. rec (jaddr t) d h = Some (r, h') \<and> rendered h r h' s"
  unfolding prints_def by blast

text \<open>The state of a collecting loop: what it allocated, and the texts when nothing failed.\<close>

definition collected :: "heap \<Rightarrow> addr list \<Rightarrow> bool \<Rightarrow> string list \<Rightarrow> heap \<Rightarrow> bool" where
  "collected h as fail ss h' \<longleftrightarrow>
     grow {} (filter (\<lambda>a. a \<noteq> 0) as) h h' \<and> live (filter (\<lambda>a. a \<noteq> 0) as) h'
     \<and> (\<not> fail \<longrightarrow> list_all2 (\<lambda>a s. a \<noteq> 0 \<and> mem h' a = Some (Buf s)) as ss)
     \<and> (room h = (\<lambda>_. True) \<longrightarrow> \<not> fail)"

lemma collected_Nil: "heap_ok h \<Longrightarrow> collected h [] False [] h"
  by (simp add: collected_def live_def)

lemma grow_keeps:
  "heap_ok h \<Longrightarrow> grow {} X h h' \<Longrightarrow> mem h a = Some c \<Longrightarrow> mem h' a = Some c"
  using heap_ok_0 [of h a c] grow_same [of "{}" X h h' a] by simp

lemma collected_Cons:
  assumes ok: "heap_ok h" and r: "rendered h r h1 s" and c: "collected h1 as fail ss h2"
  shows "collected h (r # as) (r = 0 \<or> fail) (s # ss) h2"
proof (cases "r = 0")
  case True
  with r have g: "grow {} [] h h1" and n: "room h \<noteq> (\<lambda>_. True)" by (auto simp: rendered_def)
  from c have g2: "grow {} (filter (\<lambda>a. a \<noteq> 0) as) h1 h2" by (simp add: collected_def)
  from grow_trans [OF g g2] True c n show ?thesis by (simp add: collected_def)
next
  case False
  with r have g: "grow {} [r] h h1" and m: "mem h1 r = Some (Buf s)" by (auto simp: rendered_def)
  from c have g2: "grow {} (filter (\<lambda>a. a \<noteq> 0) as) h1 h2" by (simp add: collected_def)
  have m2: "mem h2 r = Some (Buf s)" using grow_keeps [OF grow_ok [OF g] g2 m] .
  have ro: "room h1 = room h" using g by (simp add: grow_def)
  from grow_trans [OF g g2] False c m2 ro show ?thesis
    by (auto simp: collected_def live_def)
qed

definition sep_len :: "bool \<Rightarrow> nat" where
  "sep_len fmt = (if fmt then 3 else 2)"

lemma print_entries_ok:
  assumes "list_all2 (\<lambda>s t. prints rec (d + 1) s t) ss ts"
  shows "heap_ok h \<Longrightarrow> seg (mem h) p ts 0 \<Longrightarrow>
    \<exists>rets len fail h'. print_entries rec fmt d (length ts) (first ts 0) h = Some (rets, len, fail, h')
      \<and> collected h rets fail ss h'
      \<and> (\<not> fail \<longrightarrow> len = sum_list (map (\<lambda>s. length s + sep_len fmt) ss))"
  using assms
proof (induction ss arbitrary: ts h p)
  case Nil
  then show ?case using collected_Nil by auto
next
  case (Cons s ss)
  then obtain t ts' where ts: "ts = t # ts'" and t: "prints rec (d + 1) s t"
    and r: "list_all2 (\<lambda>s t. prints rec (d + 1) s t) ss ts'" by (auto simp: list_all2_Cons1)
  have s1: "seg (mem h) p [t] (first ts' 0)" and s2: "seg (mem h) (jaddr t) ts' 0"
    using Cons.prems(2) seg_append [of "mem h" p "[t]" ts' 0] ts by auto
  from printsD [OF t Cons.prems(1) s1] obtain a h1 where
    a: "rec (jaddr t) (d + 1) h = Some (a, h1)" and rd: "rendered h a h1 s" by blast
  have g: "grow {} (if a = 0 then [] else [a]) h h1" using rd by (auto simp: rendered_def)
  have ok1: "heap_ok h1" using grow_ok [OF g] .
  have n: "jaddr t \<noteq> 0" "ld (jaddr t) h1 = Some (node_of p (first ts' 0) t)"
    using seg_Cons_node [OF s1] grow_keeps [OF Cons.prems(1) g] by (auto simp: ld_Node)
  show ?case
  proof (cases "a = 0")
    case True
    have "collected h [0] True (s # ss) h1"
      using True rd by (auto simp: collected_def rendered_def live_def)
    with True a n ts show ?thesis by auto
  next
    case False
    have l: "ld_str a h1 = Some s" using rd False by (auto simp: rendered_def ld_str_Buf)
    have s3: "seg (mem h1) (jaddr t) ts' 0" using grow_seg [OF g s2 _ Cons.prems(1)] by simp
    from Cons.IH [OF ok1 s3 r] obtain rets len fail h' where
      e: "print_entries rec fmt d (length ts') (first ts' 0) h1 = Some (rets, len, fail, h')"
      and c: "collected h1 rets fail ss h'"
      and le: "\<not> fail \<longrightarrow> len = sum_list (map (\<lambda>s. length s + sep_len fmt) ss)" by blast
    from collected_Cons [OF Cons.prems(1) rd c] False have
      "collected h (a # rets) fail (s # ss) h'" by simp
    moreover have "print_entries rec fmt d (length ts) (first ts 0) h
        = Some (a # rets, length s + 2 + (if fmt then 1 else 0) + len, fail, h')"
      using a n l e False ts by simp
    ultimately show ?thesis using le by (auto simp: sep_len_def)
  qed
qed

fun join :: "bool \<Rightarrow> string list \<Rightarrow> string" where
  "join fmt [] = []"
| "join fmt (s # ss) = s @ (if ss = [] then [] else (if fmt then '', '' else '','') @ join fmt ss)"

lemma length_join: "length (join fmt ss) \<le> sum_list (map (\<lambda>s. length s + sep_len fmt) ss)"
  by (induction fmt ss rule: join.induct) (auto simp: sep_len_def)

lemma compose_elems_ok:
  assumes ok: "heap_ok h"
  shows "grow {} (es @ Y) h h1 \<Longrightarrow> list_all2 (\<lambda>a s. a \<noteq> 0 \<and> mem h1 a = Some (Buf s)) es ss
    \<Longrightarrow> length out + length (join fmt ss) < cap
    \<Longrightarrow> \<exists>h2. compose_elems fmt es (cap, out) h1 = Some ((cap, out @ join fmt ss), h2)
      \<and> grow {} Y h h2 \<and> (\<forall>a\<in>set Y. mem h2 a = mem h1 a)"
proof (induction es arbitrary: ss out h1)
  case Nil
  then show ?case by auto
next
  case (Cons e es)
  then obtain s ss' where ss: "ss = s # ss'" and e: "e \<noteq> 0" "mem h1 e = Some (Buf s)"
    and r: "list_all2 (\<lambda>a s. a \<noteq> 0 \<and> mem h1 a = Some (Buf s)) es ss'" by (auto simp: list_all2_Cons1)
  have emp: "es = [] \<longleftrightarrow> ss' = []" using r by auto
  have g: "grow {} (e # (es @ Y)) h h1" using Cons.prems(1) by simp
  note f = grow_free [OF ok g]
  have fr: "c_free e h1 = Some (without [e] h1)" and g2: "grow {} (es @ Y) h (without [e] h1)"
    using f e by auto
  have ne: "e \<notin> set es" "e \<notin> set Y" using g by (auto simp: grow_def)
  have r2: "list_all2 (\<lambda>a s. a \<noteq> 0 \<and> mem (without [e] h1) a = Some (Buf s)) es ss'"
    using r ne(1) by (induction rule: list_all2_induct) auto
  define sep where "sep = (if ss' = [] then [] else if fmt then '', '' else '','')"
  have j: "join fmt ss = s @ sep @ join fmt ss'" by (auto simp: ss sep_def)
  have l: "length (out @ s @ sep) + length (join fmt ss') < cap"
    using Cons.prems(3) unfolding j by simp
  from Cons.IH [OF g2 r2 l] obtain h2 where
    h2: "compose_elems fmt es (cap, out @ s @ sep) (without [e] h1) = Some ((cap, (out @ s @ sep) @ join fmt ss'), h2)"
    "grow {} Y h h2" "\<forall>a\<in>set Y. mem h2 a = mem (without [e] h1) a" by auto
  have "compose_elems fmt (e # es) (cap, out) h1 = Some ((cap, out @ join fmt ss), h2)"
    using h2(1) e fr l emp unfolding j
    by (auto simp: ld_str_Buf emit_def emit_str_def sep_def)
  with h2 ne show ?case by auto
qed

text \<open>No output buffer: a rendering or the allocation failed.\<close>

lemma out_failed:
  assumes g: "grow {} X h h2" and c: "collected h1 as fail ss h2" and ro: "room h1 = room h"
    and o: "(if fail then (0, h2) else c_malloc (Buf []) h2) = (0, h3)"
  shows "grow {} [] h2 h3 \<and> mem h3 = mem h2 \<and> room h \<noteq> (\<lambda>_. True)"
proof (cases fail)
  case True
  with o have "h3 = h2" by simp
  moreover have "room h \<noteq> (\<lambda>_. True)" using c True ro by (auto simp: collected_def)
  ultimately show ?thesis using grow_ok [OF g] by simp
next
  case False
  with o have m: "c_malloc (Buf []) h2 = (0, h3)" by simp
  have ok: "heap_ok h2" using grow_ok [OF g] .
  have b: "brk h2 \<noteq> 0" using ok by (simp add: heap_ok_def)
  have "room h2 = room h" using g by (simp add: grow_def)
  then show ?thesis
    using grow_malloc_fail [OF ok m] c_malloc_ok(5,7) [OF ok m] b by auto
qed

lemma print_array_ok:
  assumes ok: "heap_ok h" and t: "seg (mem h) p [Own a ty vs vi vd nm ks] q"
    and ch: "list_all2 (\<lambda>s t. prints rec (d + 1) s t) ss ks"
  shows "\<exists>r h'. print_array rec fmt a d h = Some (r, h') \<and> rendered h r h' (''['' @ join fmt ss @ '']'')"
proof -
  have n: "ld a h = Some (node_of p q (Own a ty vs vi vd nm ks))" using t by (simp add: ld_Node)
  have k: "seg (mem h) 0 ks 0" using t by simp
  have cnt: "count_items (first ks 0) h = Some (length ks)" using count_items_ok [OF k] .
  have len_eq: "length ss = length ks" using ch by (rule list_all2_lengthD)
  show ?thesis
  proof (cases "ks = []")
    case True
    with new_text_ok [OF ok, of "''[]''" 3] n cnt len_eq show ?thesis by (auto simp: print_array_def)
  next
    case ne: False
    obtain ents h1 where m: "c_malloc (Ptrs (replicate (length ks) 0)) h = (ents, h1)"
      by (cases "c_malloc (Ptrs (replicate (length ks) 0)) h")
    show ?thesis
    proof (cases "ents = 0")
      case True
      with m n cnt ne grow_malloc_fail [OF ok m [unfolded True], of "{}"] c_malloc_ok(7) [OF ok m] ok
      show ?thesis by (auto simp: print_array_def rendered_def heap_ok_def)
    next
      case False
      note gm = grow_malloc(1) [OF ok m False, of "{}"] grow_malloc(2) [OF ok m False]
      have me: "mem h1 ents \<noteq> None" using gm(2) by simp
      have ok1: "heap_ok h1" using grow_ok [OF gm(1)] .
      have ro1: "room h1 = room h" using gm(1) by (simp add: grow_def)
      have k1: "seg (mem h1) 0 ks 0" using grow_seg [OF gm(1) k _ ok] by simp
      from print_entries_ok [OF ch ok1 k1] obtain rets len fail h2 where
        e: "print_entries rec fmt d (length ks) (first ks 0) h1 = Some (rets, len, fail, h2)"
        and c: "collected h1 rets fail ss h2"
        and le: "\<not> fail \<longrightarrow> len = sum_list (map (\<lambda>s. length s + sep_len fmt) ss)" by blast
      let ?nz = "filter (\<lambda>a. a \<noteq> 0) rets"
      have g2: "grow {} (ents # ?nz) h h2" using grow_trans [OF gm(1)] c by (auto simp: collected_def)
      obtain out h3 where o: "(if fail then (0, h2) else c_malloc (Buf []) h2) = (out, h3)"
        by (cases "if fail then (0, h2) else c_malloc (Buf []) h2")
      note run = print_array_def n cnt m e o
      have me2: "mem h2 ents \<noteq> None"
        using me grow_keeps [OF ok1, of ?nz h2 ents] c by (auto simp: collected_def)
      show ?thesis
      proof (cases "out = 0")
        case True
        have g3: "grow {} [] h2 h3" and m3: "mem h3 = mem h2"
          and ro: "room h \<noteq> (\<lambda>_. True)"
          using out_failed [OF g2 c ro1 o [unfolded True]] by auto
        have "grow {} (?nz @ [ents]) h h3" by (rule grow_perm [OF grow_trans [OF g2 g3]]) simp_all
        moreover have "live ?nz h3" using c m3 by (simp add: collected_def live_def)
        ultimately obtain h4 where f: "free_list rets h3 = Some h4" "grow {} [ents] h h4"
          "mem h4 ents = mem h3 ents" using free_list_ok [OF ok, of rets "[ents]" h3] by auto
        from grow_free [OF ok f(2)] f(3) me2 m3
        have "c_free ents h4 = Some (without [ents] h4)" "grow {} [] h (without [ents] h4)" by auto
        with f True False ne ro show ?thesis by (simp add: run rendered_def)
      next
        case out: False
        then have nf: "\<not> fail" and mo: "c_malloc (Buf []) h2 = (out, h3)" using o by (auto split: if_splits)
        from c nf have la: "list_all2 (\<lambda>a s. a \<noteq> 0 \<and> mem h2 a = Some (Buf s)) rets ss"
          by (simp add: collected_def)
        then have nz: "?nz = rets" by (induction rule: list_all2_induct) auto
        note gmo = grow_malloc(1) [OF grow_ok [OF g2] mo out, of "{}"] grow_malloc(2) [OF grow_ok [OF g2] mo out]
        have g3: "grow {} (rets @ [ents, out]) h h3"
          by (rule grow_perm [OF grow_trans [OF g2 [unfolded nz] gmo(1)]]) simp_all
        have la3: "list_all2 (\<lambda>a s. a \<noteq> 0 \<and> mem h3 a = Some (Buf s)) rets ss"
          using la grow_keeps [OF grow_ok [OF g2] gmo(1)] by (auto elim!: list_all2_mono)
        have l: "length ''['' + length (join fmt ss) < 5 + len"
          using length_join [of fmt ss] le nf by simp
        from compose_elems_ok [OF ok g3 la3 l] obtain h4 where
          c4: "compose_elems fmt rets (5 + len, ''['') h3 = Some ((5 + len, ''['' @ join fmt ss), h4)"
          "grow {} [ents, out] h h4" "mem h4 ents = mem h3 ents" "mem h4 out = mem h3 out" by auto
        have e4: "mem h4 ents \<noteq> None" using c4(3) me2 gmo grow_keeps [OF grow_ok [OF g2] gmo(1)] by auto
        note f5 = grow_free [OF ok c4(2) e4]
        have o5: "mem (without [ents] h4) out \<noteq> None" "out \<noteq> ents"
          using c4(2,4) gmo(2) by (auto simp: grow_def)
        have "rendered h out (set_buf out (''['' @ join fmt ss @ '']'') (without [ents] h4)) (''['' @ join fmt ss @ '']'')"
          using grow_set_buf [OF f5(2) _ o5(1)] out by (simp add: rendered_def)
        moreover have "length (join fmt ss) + 3 \<le> 5 + len"
          using length_join [of fmt ss] le nf by simp
        ultimately show ?thesis using c4(1) f5(1) out False ne
          by (simp add: run emit_def emit_str_def)
      qed
    qed
  qed
qed

subsection \<open>Collecting and composing an object\<close>

definition flat :: "('a \<times> 'a) list \<Rightarrow> 'a list" where
  "flat ps = concat (map (\<lambda>(a, b). [a, b]) ps)"

lemma flat_simps [simp]: "flat [] = []" "flat ((a, b) # ps) = a # b # flat ps"
  by (simp_all add: flat_def)

definition named :: "string \<Rightarrow> jt \<Rightarrow> bool" where
  "named k t \<longleftrightarrow> (\<exists>x. jname t = Some (x, k))"

lemma seg_name:
  "seg m p [t] q \<Longrightarrow> jname t = Some (x, k) \<Longrightarrow> x \<noteq> 0 \<and> m x = Some (Buf k)"
  by (cases t) auto

lemma print_members_ok:
  assumes "list_all2 (\<lambda>(k, s) t. named k t \<and> prints rec d s t) kss ts"
  shows "heap_ok h \<Longrightarrow> seg (mem h) p ts 0 \<Longrightarrow>
    \<exists>rets len fail h'. print_members rec fmt d (length ts) (first ts 0) h = Some (rets, len, fail, h')
      \<and> collected h (flat rets) fail (flat (map (\<lambda>(k, s). (quoted k, s)) kss)) h'
      \<and> (\<not> fail \<longrightarrow> len = sum_list (map (\<lambda>(k, s). length s + length (quoted k) + 2 + (if fmt then 2 + d else 0)) kss))"
  using assms
proof (induction kss arbitrary: ts h p)
  case Nil
  then show ?case using collected_Nil by auto
next
  case (Cons ks kss)
  obtain k s where ks: "ks = (k, s)" by (cases ks)
  with Cons.prems(3) obtain t ts' where ts: "ts = t # ts'" and t: "named k t" "prints rec d s t"
    and r: "list_all2 (\<lambda>(k, s) t. named k t \<and> prints rec d s t) kss ts'" by (auto simp: list_all2_Cons1)
  have s1: "seg (mem h) p [t] (first ts' 0)" and s2: "seg (mem h) (jaddr t) ts' 0"
    using Cons.prems(2) seg_append [of "mem h" p "[t]" ts' 0] ts by auto
  obtain x where x: "jname t = Some (x, k)" using t(1) by (auto simp: named_def)
  note ok = Cons.prems(1)
  have n0: "jaddr t \<noteq> 0" "ld (jaddr t) h = Some (node_of p (first ts' 0) t)"
    "ld_nstr (ladr (jname t)) h = Some (Some k)"
    using seg_Cons_node [OF s1] seg_name [OF s1 x] x by (auto simp: ld_Node ld_nstr_def ld_str_Buf)
  obtain str h1 where str: "print_string_ptr (Some k) h = Some (str, h1)" "rendered h str h1 (quoted k)"
    using print_string_ptr_ok [OF ok] by blast
  have g1: "grow {} (if str = 0 then [] else [str]) h h1" using str by (auto simp: rendered_def)
  have ok1: "heap_ok h1" using grow_ok [OF g1] .
  have s11: "seg (mem h1) p [t] (first ts' 0)" using grow_seg [OF g1 s1 _ ok] by simp
  from printsD [OF t(2) ok1 s11] obtain a h2 where
    a: "rec (jaddr t) d h1 = Some (a, h2)" and rd: "rendered h1 a h2 s" by blast
  have g2: "grow {} (if a = 0 then [] else [a]) h1 h2" using rd by (auto simp: rendered_def)
  have ok2: "heap_ok h2" using grow_ok [OF g2] .
  have n2: "ld (jaddr t) h2 = Some (node_of p (first ts' 0) t)"
    using seg_Cons_node [OF s11] grow_keeps [OF ok1 g2] by (auto simp: ld_Node)
  have "seg (mem h1) (jaddr t) ts' 0" using grow_seg [OF g1 s2 _ ok] by simp
  then have s3: "seg (mem h2) (jaddr t) ts' 0" using grow_seg [OF g2 _ _ ok1] by simp
  have l: "str \<noteq> 0 \<Longrightarrow> ld_str str h2 = Some (quoted k)" "a \<noteq> 0 \<Longrightarrow> ld_str a h2 = Some s"
    using str(2) rd grow_keeps [OF ok1 g2] by (auto simp: rendered_def ld_str_Buf)
  from Cons.IH [OF ok2 s3 r] obtain rets len fail h' where
    e: "print_members rec fmt d (length ts') (first ts' 0) h2 = Some (rets, len, fail, h')"
    and c: "collected h2 (flat rets) fail (flat (map (\<lambda>(k, s). (quoted k, s)) kss)) h'"
    and le: "\<not> fail \<longrightarrow> len = sum_list (map (\<lambda>(k, s). length s + length (quoted k) + 2 + (if fmt then 2 + d else 0)) kss)"
    by blast
  from collected_Cons [OF ok str(2) collected_Cons [OF ok1 rd c]] have
    "collected h (flat ((str, a) # rets)) (str = 0 \<or> a = 0 \<or> fail)
       (flat (map (\<lambda>(k, s). (quoted k, s)) (ks # kss))) h'" by (simp add: ks)
  moreover define l0 where "l0 = (if str \<noteq> 0 \<and> a \<noteq> 0 then length s + length (quoted k) + 2 + (if fmt then 2 + d else 0) else 0)"
  have "print_members rec fmt d (length ts) (first ts 0) h
      = Some ((str, a) # rets, l0 + len, str = 0 \<or> a = 0 \<or> fail, h')"
    using n0 str(1) a n2 l e ts by (simp add: l0_def)
  ultimately show ?case using le by (auto simp: ks l0_def)
qed

fun mjoin :: "bool \<Rightarrow> nat \<Rightarrow> (string \<times> string) list \<Rightarrow> string" where
  "mjoin fmt d [] = []"
| "mjoin fmt d ((k, s) # kss) = member_text fmt d (quoted k) s (kss \<noteq> []) @ mjoin fmt d kss"

definition mlen :: "bool \<Rightarrow> nat \<Rightarrow> (string \<times> string) list \<Rightarrow> nat" where
  "mlen fmt d kss =
     sum_list (map (\<lambda>(k, s). length s + length (quoted k) + 2 + (if fmt then 2 + d else 0)) kss)"

lemma length_tabs [simp]: "length (tabs k) = k"
  by (simp add: tabs_def)

lemma length_mjoin: "length (mjoin fmt d kss) \<le> mlen fmt d kss"
  by (induction fmt d kss rule: mjoin.induct) (auto simp: mlen_def member_text_def)

lemma compose_members_ok:
  assumes ok: "heap_ok h"
  shows "grow {} (flat es @ Y) h h1
    \<Longrightarrow> list_all2 (\<lambda>a s. a \<noteq> 0 \<and> mem h1 a = Some (Buf s)) (flat es) (flat (map (\<lambda>(k, s). (quoted k, s)) kss))
    \<Longrightarrow> length out + length (mjoin fmt d kss) < cap
    \<Longrightarrow> \<exists>h2. compose_members fmt d es (cap, out) h1 = Some ((cap, out @ mjoin fmt d kss), h2)
      \<and> grow {} Y h h2 \<and> (\<forall>a\<in>set Y. mem h2 a = mem h1 a)"
proof (induction es arbitrary: kss out h1)
  case Nil
  then have "kss = []" by (cases kss) auto
  with Nil show ?case by auto
next
  case (Cons e es)
  obtain nm v where e: "e = (nm, v)" by (cases e)
  with Cons.prems(2) obtain k s kss' where kss: "kss = (k, s) # kss'" by (cases kss) auto
  from Cons.prems(2) have m: "nm \<noteq> 0" "mem h1 nm = Some (Buf (quoted k))" "v \<noteq> 0" "mem h1 v = Some (Buf s)"
    and r: "list_all2 (\<lambda>a s. a \<noteq> 0 \<and> mem h1 a = Some (Buf s)) (flat es) (flat (map (\<lambda>(k, s). (quoted k, s)) kss'))"
    by (simp_all add: e kss)
  have emp: "es = [] \<longleftrightarrow> kss' = []" using r by (cases es; cases kss') auto
  have g: "grow {} (nm # (v # (flat es @ Y))) h h1" using Cons.prems(1) by (simp add: e)
  have nl: "mem h1 nm \<noteq> None" using m by simp
  note f = grow_free [OF ok g nl]
  have d: "nm \<noteq> v" "nm \<notin> set (flat es)" "nm \<notin> set Y" "v \<notin> set (flat es)" "v \<notin> set Y"
    using g by (auto simp: grow_def)
  have vl: "mem (without [nm] h1) v \<noteq> None" using m d by simp
  note f2 = grow_free [OF ok f(2) vl]
  let ?h2 = "without [v] (without [nm] h1)"
  have r2: "list_all2 (\<lambda>a s. a \<noteq> 0 \<and> mem ?h2 a = Some (Buf s)) (flat es) (flat (map (\<lambda>(k, s). (quoted k, s)) kss'))"
    using r d(2,4) by (induction rule: list_all2_induct) auto
  define mt where "mt = member_text fmt d (quoted k) s (kss' \<noteq> [])"
  have j: "mjoin fmt d kss = mt @ mjoin fmt d kss'" by (simp add: kss mt_def)
  have l: "length (out @ mt) + length (mjoin fmt d kss') < cap" using Cons.prems(3) unfolding j by simp
  from Cons.IH [OF f2(2) r2 l] obtain h3 where
    h3: "compose_members fmt d es (cap, out @ mt) ?h2 = Some ((cap, (out @ mt) @ mjoin fmt d kss'), h3)"
    "grow {} Y h h3" "\<forall>a\<in>set Y. mem h3 a = mem ?h2 a" by auto
  have "compose_members fmt d (e # es) (cap, out) h1 = compose_members fmt d es (cap, out @ mt) ?h2"
    using m f(1) f2(1) l emp unfolding e
    by (cases fmt) (auto simp: ld_str_Buf emit_def emit_str_def mt_def member_text_def)
  with h3 d show ?case unfolding j by auto
qed

lemma print_object_ok:
  assumes ok: "heap_ok h" and t: "seg (mem h) p [Own a ty vs vi vd nm ks] q"
    and ch: "list_all2 (\<lambda>(k, s) t. named k t \<and> prints rec (d + 1) s t) kss ks"
  shows "\<exists>r h'. print_object rec fmt a d h = Some (r, h') \<and> rendered h r h'
     (if kss = [] then ''{'' @ (if fmt then CHR 0x0A # tabs (d - 1) else []) @ ''}''
      else ''{'' @ (if fmt then [CHR 0x0A] else []) @ mjoin fmt (d + 1) kss @ (if fmt then tabs d else []) @ ''}'')"
    (is "\<exists>r h'. _ \<and> rendered h r h' ?text")
proof -
  have n: "ld a h = Some (node_of p q (Own a ty vs vi vd nm ks))" using t by (simp add: ld_Node)
  have k: "seg (mem h) 0 ks 0" using t by simp
  have cnt: "count_items (first ks 0) h = Some (length ks)" using count_items_ok [OF k] .
  have emp: "kss = [] \<longleftrightarrow> ks = []" using ch by auto
  show ?thesis
  proof (cases "ks = []")
    case True
    obtain out h1 where m: "c_malloc (Buf []) h = (out, h1)" by (cases "c_malloc (Buf []) h")
    from malloc_rendered [OF ok m, of ?text] m n cnt True emp show ?thesis
      by (cases "out = 0"; cases fmt) (auto simp: print_object_def emit_def)
  next
    case ne: False
    have lz: "length ks \<noteq> 0" using ne by simp
    obtain ents h1 where m: "c_malloc (Ptrs (replicate (length ks) 0)) h = (ents, h1)"
      by (cases "c_malloc (Ptrs (replicate (length ks) 0)) h")
    show ?thesis
    proof (cases "ents = 0")
      case True
      with m n cnt lz grow_malloc_fail [OF ok m [unfolded True], of "{}"] c_malloc_ok(7) [OF ok m] ok
      show ?thesis by (auto simp: print_object_def rendered_def heap_ok_def)
    next
      case e0: False
      note gm = grow_malloc(1) [OF ok m e0, of "{}"] grow_malloc(2) [OF ok m e0]
      have ok1: "heap_ok h1" and ro1: "room h1 = room h" using grow_ok [OF gm(1)] gm(1) by (simp_all add: grow_def)
      obtain names h2 where m2: "c_malloc (Ptrs (replicate (length ks) 0)) h1 = (names, h2)"
        by (cases "c_malloc (Ptrs (replicate (length ks) 0)) h1")
      have me1: "mem h1 ents \<noteq> None" using gm(2) by simp
      show ?thesis
      proof (cases "names = 0")
        case True
        have g2: "grow {} [ents] h h2" and me2: "mem h2 ents \<noteq> None" and ro: "room h \<noteq> (\<lambda>_. True)"
          using grow_trans [OF gm(1) grow_malloc_fail [OF ok1 m2 [unfolded True]]] c_malloc_ok(5,7) [OF ok1 m2]
            True me1 ok1 ro1 by (auto simp: heap_ok_def)
        from grow_free [OF ok g2 me2] m m2 n cnt lz e0 True ro show ?thesis
          by (simp add: print_object_def rendered_def)
      next
        case n0: False
        note gm2 = grow_malloc(1) [OF ok1 m2 n0, of "{}"] grow_malloc(2) [OF ok1 m2 n0]
        have g2: "grow {} [ents, names] h h2" using grow_trans [OF gm(1) gm2(1)] by simp
        have ok2: "heap_ok h2" and ro2: "room h2 = room h" using grow_ok [OF g2] g2 by (simp_all add: grow_def)
        have me2: "mem h2 ents \<noteq> None" "mem h2 names \<noteq> None" using me1 gm2(2) by auto
        have k2: "seg (mem h2) 0 ks 0" using grow_seg [OF g2 k _ ok] by simp
        from print_members_ok [OF ch ok2 k2] obtain rets len fail h3 where
          e: "print_members rec fmt (d + 1) (length ks) (first ks 0) h2 = Some (rets, len, fail, h3)"
          and c: "collected h2 (flat rets) fail (flat (map (\<lambda>(k, s). (quoted k, s)) kss)) h3"
          and le: "\<not> fail \<longrightarrow> len = mlen fmt (d + 1) kss" unfolding mlen_def by blast
        let ?nz = "filter (\<lambda>a. a \<noteq> 0) (flat rets)"
        have g3: "grow {} ([ents, names] @ ?nz) h h3" using grow_trans [OF g2] c by (auto simp: collected_def)
        have me3: "mem h3 ents \<noteq> None" "mem h3 names \<noteq> None"
          using me2 grow_keeps [OF ok2, of ?nz h3] c by (auto simp: collected_def)
        obtain out h4 where o: "(if fail then (0, h3) else c_malloc (Buf []) h3) = (out, h4)"
          by (cases "if fail then (0, h3) else c_malloc (Buf []) h3")
        note run = print_object_def n cnt m m2 e [unfolded Suc_eq_plus1 [symmetric]] o
        show ?thesis
        proof (cases "out = 0")
          case True
          from out_failed [OF g3 c ro2 o [unfolded True]] have
            g4: "grow {} [] h3 h4" and m4: "mem h4 = mem h3" and ro: "room h \<noteq> (\<lambda>_. True)" by auto
          have "grow {} (?nz @ [names, ents]) h h4" by (rule grow_perm [OF grow_trans [OF g3 g4]]) simp_all
          moreover have "live ?nz h4" using c m4 by (simp add: collected_def live_def)
          ultimately obtain h5 where f: "free_list (flat rets) h4 = Some h5" "grow {} [names, ents] h h5"
            "mem h5 ents = mem h4 ents" "mem h5 names = mem h4 names"
            using free_list_ok [OF ok, of "flat rets" "[names, ents]" h4] by auto
          have "mem h5 names \<noteq> None" using f(4) me3 m4 by simp
          note f6 = grow_free [OF ok f(2) this]
          have "names \<noteq> ents" using f(2) by (auto simp: grow_def)
          then have "mem (without [names] h5) ents \<noteq> None" using f(3) me3 m4 by simp
          note f7 = grow_free [OF ok f6(2) this]
          from f f6 f7 True e0 n0 lz ro show ?thesis by (simp add: run rendered_def flat_def)
        next
          case out: False
          then have nf: "\<not> fail" and mo: "c_malloc (Buf []) h3 = (out, h4)" using o by (auto split: if_splits)
          from c nf have la: "list_all2 (\<lambda>a s. a \<noteq> 0 \<and> mem h3 a = Some (Buf s)) (flat rets) (flat (map (\<lambda>(k, s). (quoted k, s)) kss))"
            by (simp add: collected_def)
          then have nz: "?nz = flat rets" by (induction rule: list_all2_induct) auto
          note gmo = grow_malloc(1) [OF grow_ok [OF g3] mo out, of "{}"] grow_malloc(2) [OF grow_ok [OF g3] mo out]
          have g4: "grow {} (flat rets @ [names, ents, out]) h h4"
            by (rule grow_perm [OF grow_trans [OF g3 [unfolded nz] gmo(1)]]) simp_all
          have la4: "list_all2 (\<lambda>a s. a \<noteq> 0 \<and> mem h4 a = Some (Buf s)) (flat rets) (flat (map (\<lambda>(k, s). (quoted k, s)) kss))"
            using la grow_keeps [OF grow_ok [OF g3] gmo(1)] by (auto elim!: list_all2_mono)
          have lm: "length (mjoin fmt (d + 1) kss) \<le> len" using length_mjoin [of fmt "d + 1" kss] le nf by simp
          let ?pre = "''{'' @ (if fmt then [CHR 0x0A] else [])"
          let ?cap = "7 + (if fmt then d + 1 else 0) + len"
          have l: "length ?pre + length (mjoin fmt (d + 1) kss) < ?cap"
            using lm by (cases fmt) simp_all
          from compose_members_ok [OF ok g4 la4 l] obtain h5 where
            c5: "compose_members fmt (d + 1) rets (?cap, ?pre) h4 = Some ((?cap, ?pre @ mjoin fmt (d + 1) kss), h5)"
            "grow {} [names, ents, out] h h5" "mem h5 ents = mem h4 ents" "mem h5 names = mem h4 names"
            "mem h5 out = mem h4 out" by auto
          have e5: "mem h5 names \<noteq> None" "mem h5 ents \<noteq> None"
            using c5(3,4) me3 grow_keeps [OF grow_ok [OF g3] gmo(1)] by auto
          note f6 = grow_free [OF ok c5(2) e5(1)]
          have dd: "names \<noteq> ents" "names \<noteq> out" "ents \<noteq> out" using c5(2) by (auto simp: grow_def)
          have "mem (without [names] h5) ents \<noteq> None" using e5 dd by simp
          note f7 = grow_free [OF ok f6(2) this]
          have o7: "mem (without [ents] (without [names] h5)) out \<noteq> None" using c5(5) gmo(2) dd by auto
          have "rendered h out (set_buf out ?text (without [ents] (without [names] h5))) ?text"
            using grow_set_buf [OF f7(2) _ o7] out by (simp add: rendered_def)
          with c5(1) [unfolded Suc_eq_plus1 [symmetric]] e [unfolded Suc_eq_plus1 [symmetric]]
            f6(1) f7(1) out e0 n0 lz lm emp ne show ?thesis
            by (cases fmt) (simp_all add: print_object_def n cnt m m2 o emit_def emit_str_def)
        qed
      qed
    qed
  qed
qed

subsection \<open>Every tree that represents a value is printed\<close>

fun
  jdepth :: "json \<Rightarrow> nat" and
  jdepths :: "json list \<Rightarrow> nat" and
  jdepthm :: "(string \<times> json) list \<Rightarrow> nat" where
  "jdepth (JArr js) = Suc (jdepths js)"
| "jdepth (JObj ms) = Suc (jdepthm ms)"
| "jdepth j = 1"
| "jdepths [] = 0"
| "jdepths (j # js) = max (jdepth j) (jdepths js)"
| "jdepthm [] = 0"
| "jdepthm ((k, j) # ms) = max (jdepth j) (jdepthm ms)"

text \<open>The numbers of a value are machine numbers.\<close>

fun
  jnums :: "json \<Rightarrow> bool" and
  jnumss :: "json list \<Rightarrow> bool" and
  jnumsm :: "(string \<times> json) list \<Rightarrow> bool" where
  "jnums (JNum i d) = (is_llong i \<and> is_double d)"
| "jnums (JArr js) = jnumss js"
| "jnums (JObj ms) = jnumsm ms"
| "jnums j = True"
| "jnumss [] = True"
| "jnumss (j # js) = (jnums j \<and> jnumss js)"
| "jnumsm [] = True"
| "jnumsm ((k, j) # ms) = (jnums j \<and> jnumsm ms)"

lemma pjs_join: "pjs fmt d js = join fmt (map (pj fmt d) js)"
  by (induction js) auto

lemma pms_mjoin: "pms fmt d ms = mjoin fmt d (map (\<lambda>(k, j). (k, pj fmt d j)) ms)"
  by (induction ms) auto

lemma type_and_255 [simp]:
  "cJSON_NULL AND 255 = cJSON_NULL" "cJSON_False AND 255 = cJSON_False" "cJSON_True AND 255 = cJSON_True"
  "cJSON_Number AND 255 = cJSON_Number" "cJSON_String AND 255 = cJSON_String"
  "cJSON_Array AND 255 = cJSON_Array" "cJSON_Object AND 255 = cJSON_Object"
  by (simp_all add: cJSON_types)

lemma types_distinct [simp]:
  "cJSON_False \<noteq> cJSON_NULL" "cJSON_True \<noteq> cJSON_NULL" "cJSON_True \<noteq> cJSON_False"
  "cJSON_Number \<noteq> cJSON_NULL" "cJSON_Number \<noteq> cJSON_False" "cJSON_Number \<noteq> cJSON_True"
  "cJSON_String \<noteq> cJSON_NULL" "cJSON_String \<noteq> cJSON_False" "cJSON_String \<noteq> cJSON_True"
  "cJSON_String \<noteq> cJSON_Number" "cJSON_Array \<noteq> cJSON_NULL" "cJSON_Array \<noteq> cJSON_False"
  "cJSON_Array \<noteq> cJSON_True" "cJSON_Array \<noteq> cJSON_Number" "cJSON_Array \<noteq> cJSON_String"
  "cJSON_Object \<noteq> cJSON_NULL" "cJSON_Object \<noteq> cJSON_False" "cJSON_Object \<noteq> cJSON_True"
  "cJSON_Object \<noteq> cJSON_Number" "cJSON_Object \<noteq> cJSON_String" "cJSON_Object \<noteq> cJSON_Array"
  by (simp_all add: cJSON_types)

lemma prints_node:
  assumes "\<And>h p q. heap_ok h \<Longrightarrow> seg (mem h) p [t] q \<Longrightarrow> ld (jaddr t) h = Some (node_of p q t)
     \<Longrightarrow> jaddr t \<noteq> 0 \<Longrightarrow> \<exists>r h'. print_value_body rec fmt (jaddr t) d h = Some (r, h') \<and> rendered h r h' s"
  shows "prints (print_value_body rec fmt) d s t"
  unfolding prints_def
proof (intro allI impI)
  fix h p q assume a: "heap_ok h" "seg (mem h) p [t] q"
  with seg_Cons_node [OF a(2)] show "\<exists>r h'. print_value_body rec fmt (jaddr t) d h = Some (r, h') \<and> rendered h r h' s"
    by (intro assms) (auto simp: ld_Node)
qed

lemma prints_literal:
  assumes "t = Own a T vs vi vd nm ks"
    "T = cJSON_NULL \<and> s = ''null'' \<or> T = cJSON_False \<and> s = ''false'' \<or> T = cJSON_True \<and> s = ''true''"
  shows "prints (print_value_body rec fmt) d s t"
proof (rule prints_node)
  fix h p q assume ok: "heap_ok h" and l: "ld (jaddr t) h = Some (node_of p q t)" and z: "jaddr t \<noteq> 0"
  from strdup_ok [OF ok, of s] l z assms
  show "\<exists>r h'. print_value_body rec fmt (jaddr t) d h = Some (r, h') \<and> rendered h r h' s"
    by (auto simp: print_value_body_def)
qed

lemma prints_number:
  assumes "t = Own a cJSON_Number vs vi vd nm ks" "is_llong vi" "is_double vd"
  shows "prints (print_value_body rec fmt) d (snd (number_text vi vd)) t"
proof (rule prints_node)
  fix h p q assume ok: "heap_ok h" and l: "ld (jaddr t) h = Some (node_of p q t)" and z: "jaddr t \<noteq> 0"
  from new_text_ok [OF ok number_text_fits [OF assms(2,3)]] l z assms(1)
  show "\<exists>r h'. print_value_body rec fmt (jaddr t) d h = Some (r, h')
      \<and> rendered h r h' (snd (number_text vi vd))"
    by (auto simp: print_value_body_def print_number_def split: prod.splits)
qed

lemma prints_string:
  assumes "t = Own a cJSON_String (Some (x, s)) vi vd nm ks"
  shows "prints (print_value_body rec fmt) d (quoted s) t"
proof (rule prints_node)
  fix h p q assume ok: "heap_ok h" and t: "seg (mem h) p [t] q"
    and l: "ld (jaddr t) h = Some (node_of p q t)" and z: "jaddr t \<noteq> 0"
  have "ld_nstr x h = Some (Some s)" using t assms by (auto simp: ld_nstr_def ld_str_Buf)
  with print_string_ptr_ok [OF ok, of s] l z assms
  show "\<exists>r h'. print_value_body rec fmt (jaddr t) d h = Some (r, h') \<and> rendered h r h' (quoted s)"
    by (auto simp: print_value_body_def print_string_def)
qed

lemma print_value_prints:
  "jrep j t \<Longrightarrow> jnums j \<Longrightarrow> jdepth j \<le> f \<Longrightarrow> prints (print_value f fmt) d (pj fmt d j) t"
  "jreps js ts \<Longrightarrow> jnumss js \<Longrightarrow> jdepths js \<le> f
     \<Longrightarrow> list_all2 (\<lambda>s t. prints (print_value f fmt) d s t) (map (pj fmt d) js) ts"
  "jmems ms ts \<Longrightarrow> jnumsm ms \<Longrightarrow> jdepthm ms \<le> f
     \<Longrightarrow> list_all2 (\<lambda>(k, s) t. named k t \<and> prints (print_value f fmt) d s t)
           (map (\<lambda>(k, j). (k, pj fmt d j)) ms) ts"
proof (induction j t and js ts and ms ts arbitrary: f d and f d and f d rule: jrep_jreps_jmems.induct)
  case (2 a ty vs vi vd nm ks)
  then obtain f' where "f = Suc f'" by (cases f) auto
  with 2 prints_literal show ?case by auto
next
  case (3 a ty vs vi vd nm ks)
  then obtain f' where "f = Suc f'" by (cases f) auto
  with 3 prints_literal show ?case by auto
next
  case (4 a ty vs vi vd nm ks)
  then obtain f' where "f = Suc f'" by (cases f) auto
  with 4 prints_literal show ?case by auto
next
  case (5 i d' a ty vs vi vd nm ks)
  then obtain f' where "f = Suc f'" by (cases f) auto
  with 5 prints_number show ?case by auto
next
  case (6 s a ty vs vi vd nm ks)
  then obtain f' where "f = Suc f'" by (cases f) auto
  with 6 prints_string show ?case by auto
next
  case (7 js a ty vs vi vd nm ks)
  then obtain f' where f: "f = Suc f'" "jdepths js \<le> f'" by (cases f) auto
  have ch: "list_all2 (\<lambda>s t. prints (print_value f' fmt) (d + 1) s t) (map (pj fmt (d + 1)) js) ks"
    using 7 f(2) by auto
  have "prints (print_value_body (print_value f' fmt) fmt) d (pj fmt d (JArr js)) (Own a ty vs vi vd nm ks)"
  proof (rule prints_node)
    fix h p q assume ok: "heap_ok h" and t: "seg (mem h) p [Own a ty vs vi vd nm ks] q"
      and l: "ld (jaddr (Own a ty vs vi vd nm ks)) h = Some (node_of p q (Own a ty vs vi vd nm ks))"
      and z: "jaddr (Own a ty vs vi vd nm ks) \<noteq> 0"
    from print_array_ok [OF ok t ch, of fmt] l z 7(2)
    show "\<exists>r h'. print_value_body (print_value f' fmt) fmt (jaddr (Own a ty vs vi vd nm ks)) d h
        = Some (r, h') \<and> rendered h r h' (pj fmt d (JArr js))"
      by (simp add: print_value_body_def pjs_join)
  qed
  then show ?case using f by simp
next
  case (8 ms a ty vs vi vd nm ks)
  then obtain f' where f: "f = Suc f'" "jdepthm ms \<le> f'" by (cases f) auto
  have ch: "list_all2 (\<lambda>(k, s) t. named k t \<and> prints (print_value f' fmt) (d + 1) s t)
      (map (\<lambda>(k, j). (k, pj fmt (d + 1) j)) ms) ks"
    using 8 f(2) by auto
  have "prints (print_value_body (print_value f' fmt) fmt) d (pj fmt d (JObj ms)) (Own a ty vs vi vd nm ks)"
  proof (rule prints_node)
    fix h p q assume ok: "heap_ok h" and t: "seg (mem h) p [Own a ty vs vi vd nm ks] q"
      and l: "ld (jaddr (Own a ty vs vi vd nm ks)) h = Some (node_of p q (Own a ty vs vi vd nm ks))"
      and z: "jaddr (Own a ty vs vi vd nm ks) \<noteq> 0"
    have "print_value_body (print_value f' fmt) fmt (jaddr (Own a ty vs vi vd nm ks)) d h
        = print_object (print_value f' fmt) fmt a d h"
      using l z 8(2) by (simp add: print_value_body_def)
    moreover have "pj fmt d (JObj ms) = (if map (\<lambda>(k, j). (k, pj fmt (d + 1) j)) ms = []
        then ''{'' @ (if fmt then CHR 0x0A # tabs (d - 1) else []) @ ''}''
        else ''{'' @ (if fmt then [CHR 0x0A] else [])
          @ mjoin fmt (d + 1) (map (\<lambda>(k, j). (k, pj fmt (d + 1) j)) ms)
          @ (if fmt then tabs d else []) @ ''}'')"
      by (simp add: pms_mjoin)
    ultimately show "\<exists>r h'. print_value_body (print_value f' fmt) fmt (jaddr (Own a ty vs vi vd nm ks)) d h
        = Some (r, h') \<and> rendered h r h' (pj fmt d (JObj ms))"
      using print_object_ok [OF ok t ch, of fmt] by (simp only:)
  qed
  then show ?case using f by simp
next
  case (12 k j ms ts)
  then show ?case by (auto simp: named_def split: list.splits)
qed (auto split: list.splits)

end
