(* ===== verification/CJSON_RoundTrip.thy ===== *)
theory CJSON_RoundTrip
  imports CJSON_Complete CJSON_Print
begin

section \<open>Printing and parsing back\<close>

text \<open>
  The rendering of a value is derived by the strict grammar, so the parser reads back what
  the printer wrote: strings byte for byte (escapes included), integers of the \<open>int\<close>
  range exactly, formatted and unformatted alike.
\<close>

subsection \<open>Integers\<close>

fun undigits :: "nat \<Rightarrow> string \<Rightarrow> nat" where
  "undigits a [] = a"
| "undigits a (c # s) = undigits (10 * a + digit_val c) s"

lemma undigits_undec: "undigits 0 s = undec s"
proof -
  have "undigits a s = foldl (\<lambda>n c. 10 * n + digit_val c) a s" for a
    by (induction s arbitrary: a) auto
  then show ?thesis by (simp add: undec_def)
qed

lemma undigits_ge: "a \<le> undigits a s"
proof (induction s arbitrary: a)
  case (Cons c s)
  from Cons [of "10 * a + digit_val c"] show ?case by simp
qed simp

definition stops :: "string \<Rightarrow> bool" where
  "stops r \<longleftrightarrow> r \<noteq> [] \<and> \<not> is_digit (hd r) \<and> hd r \<notin> {CHR ''.'', CHR ''e'', CHR ''E''}"

lemma digits_loop_int:
  "list_all is_digit ds \<Longrightarrow> stops r \<Longrightarrow> undigits a ds < 2 ^ 53
     \<Longrightarrow> digits_loop (ds @ r) (int_fl (int a)) = Some (int_fl (int (undigits a ds)), r)"
proof (induction ds arbitrary: a)
  case Nil
  then show ?case by (cases r) (auto simp: stops_def)
next
  case (Cons c ds)
  have d: "is_digit c" "digit_val c < 10" using Cons.prems(1) digit_val_less by auto
  have le: "10 * a + digit_val c < 2 ^ 53"
    using Cons.prems(3) undigits_ge [of "10 * a + digit_val c" ds] by simp
  then have "int (10 * a + digit_val c) < int (2 ^ 53)" by (simp only: of_nat_less_iff)
  then have a: "int a * 10 < 2 ^ 53" "int a * 10 + int (digit_val c) < 2 ^ 53" by simp_all
  have "fadd binary64 (fmul binary64 (int_fl (int a)) (int_fl 10)) (of_int_fl binary64 (int (digit_val c)))
      = int_fl (int (10 * a + digit_val c))"
    using a d(2) by (simp add: fmul_int of_int_fl_exact fadd_int algebra_simps)
  with Cons.IH [of "10 * a + digit_val c"] Cons.prems d(1) show ?case by simp
qed

lemma parse_exponent_stops: "stops r \<Longrightarrow> parse_exponent r = Some (0, r)"
  by (cases r) (auto simp: stops_def parse_exponent_def)

lemma dec_Cons: "\<exists>c s. dec n = c # s \<and> is_digit c"
  using dec_nonempty [of n] dec_digits [of n] by (cases "dec n") auto

lemma is_digit_minus: "is_digit c \<Longrightarrow> c \<noteq> CHR ''-'' \<and> c \<noteq> CHR ''.''"
  by auto

lemma parse_nat:
  assumes n: "n < 2 ^ 53" and r: "stops r" and sg: "sg = int_fl 1 \<or> sg = int_fl (- 1)"
  shows "(do {
     c1 \<leftarrow> deref (dec n @ r);
     let s1 = (if c1 = CHR ''0'' then tl (dec n @ r) else dec n @ r);
     c2 \<leftarrow> deref s1;
     (n2, s2) \<leftarrow> (if is_digit c2 \<and> c2 \<noteq> CHR ''0'' then digits_loop s1 (int_fl 0)
                  else Some (int_fl 0, s1));
     c3 \<leftarrow> deref s2;
     (n3, scale, s3) \<leftarrow> (if c3 = CHR ''.'' then do {
                            d \<leftarrow> deref (tl s2);
                            if is_digit d then frac_loop (tl s2) n2 0 else Some (n2, 0, s2)
                          } else Some (n2, 0, s2));
     (e, s4) \<leftarrow> parse_exponent s3;
     Some (fmul binary64 (fmul binary64 sg n3) (pow10 (scale + e)), s4)
   }) = Some (fmul binary64 (fmul binary64 sg (int_fl (int n))) (pow10 0), r)"
proof (cases "n = 0")
  case True
  with r parse_exponent_stops [OF r] show ?thesis by (cases r) (auto simp: stops_def)
next
  case False
  obtain c s where c: "dec n = c # s" "is_digit c" using dec_Cons by blast
  have c0: "c \<noteq> CHR ''0''" using hd_dec [of n] False c by simp
  have l: "digits_loop (dec n @ r) (int_fl 0) = Some (int_fl (int n), r)"
    using digits_loop_int [of "dec n" r 0] dec_digits [of n] r n by (simp add: undigits_undec)
  obtain c3 r' where r': "r = c3 # r'" "c3 \<noteq> CHR ''.''" using r by (cases r) (auto simp: stops_def)
  with l c c0 parse_exponent_stops [OF r] show ?thesis by simp
qed

lemma parse_number_int:
  assumes i: "INT_MIN \<le> i" "i \<le> INT_MAX" and r: "stops r"
  shows "parse_number_text (dec_int i @ r) = Some (int_fl i, r)"
proof (cases "i < 0")
  case True
  have n: "nat (- i) < 2 ^ 53" using i True by (simp add: INT_MIN_def nat_less_iff)
  have m: "fmul binary64 (int_fl (- 1)) (int_fl (- i)) = int_fl i"
    using fmul_int_neg [of binary64 "- 1" "- i"] i True by (simp add: INT_MIN_def)
  have m2: "fmul binary64 (int_fl i) (int_fl 1) = int_fl i"
    using fmul_int_neg [of binary64 i 1] i True by (simp add: INT_MIN_def)
  show ?thesis using parse_nat [OF n r, of "int_fl (- 1)"] True m m2
    by (simp add: parse_number_text_def dec_int_def pow10_0)
next
  case False
  have n: "nat i < 2 ^ 53" using i False by (simp add: INT_MAX_def nat_less_iff)
  have m: "fmul binary64 (fmul binary64 (int_fl 1) (int_fl i)) (int_fl 1) = int_fl i"
    using i False by (simp add: fmul_int INT_MAX_def)
  obtain c s where c: "dec (nat i) = c # s" "is_digit c" using dec_Cons by blast
  then have "c \<noteq> CHR ''-''" "deref (dec (nat i) @ r) = Some c" by auto
  with parse_nat [OF n r, of "int_fl 1"] False m show ?thesis
    by (simp add: parse_number_text_def dec_int_def pow10_0)
qed

lemma number_text_int:
  assumes i: "INT_MIN \<le> i" "i \<le> INT_MAX"
  shows "number_text i (int_fl i) = (21, dec_int i)"
proof -
  have e: "of_int_fl binary64 i = int_fl i"
    using i by (intro of_int_fl_exact) (auto simp: INT_MIN_def INT_MAX_def)
  have "fsub binary64 (int_fl i) (int_fl i) = int_fl 0"
  proof (cases "i = 0")
    case True
    then show ?thesis by (simp add: fsub_def int_fl_def of_val_def)
  next
    case False
    then show ?thesis using fadd_int [of binary64 i "- i"] by (simp add: fsub_def fneg_int)
  qed
  then show ?thesis using i e
    by (simp add: number_text_def fle_int) (simp add: int_fl_def DBL_EPSILON_def)
qed

subsection \<open>Strings\<close>

lemma hex_val_hex_digit: "d < 16 \<Longrightarrow> hex_val (hex_digit d) = Some d"
  by (auto simp: hex_val_def hex_digit_def)

lemma parse_hex4_u00:
  assumes "code c < 32"
  shows "parse_hex4 (CHR ''0'' # CHR ''0'' # hex02 (code c) @ r) = Some (code c)"
proof -
  have z: "hex_val CHR ''0'' = Some 0" by (simp add: hex_val_def code_def)
  have d: "code c div 16 < 16" "code c mod 16 < 16" using assms by auto
  have four: "(4 :: nat) = Suc (Suc (Suc (Suc 0)))" by simp
  show ?thesis using z hex_val_hex_digit [OF d(1)] hex_val_hex_digit [OF d(2)]
    unfolding parse_hex4_def four by (simp add: hex02_def)
qed

lemma utf8_bytes_low: "n < 32 \<Longrightarrow> utf8_bytes n = [char_of n]"
  by (simp add: utf8_bytes_def utf8_len_def firstByteMark_def)

lemma hex4_u00: "code c < 32 \<Longrightarrow> hex4 (CHR ''0'' # CHR ''0'' # hex02 (code c) @ r)"
proof -
  assume c: "code c < 32"
  have z: "is_hex CHR ''0''" by (simp add: is_hex_def hex_val_def code_def)
  have d: "code c div 16 < 16" "code c mod 16 < 16" using c by auto
  show ?thesis using z hex_val_hex_digit [OF d(1)] hex_val_hex_digit [OF d(2)]
    by (simp add: hex4_def hex02_def is_hex_def)
qed

lemma not_plain_long:
  "\<not> is_plain c \<Longrightarrow> short_escape c = None \<Longrightarrow> code c < 32"
  by (auto simp: is_plain_def short_escape_def)

lemma short_escape_inv: "short_escape c = Some e \<Longrightarrow> simple_escape e = c \<and> e \<noteq> CHR ''u'' \<and> e \<noteq> NUL"
  by (auto simp: short_escape_def simple_escape_def split: if_splits)

text \<open>After an escape, \<open>\u\<close> can only start another complete escape.\<close>

lemma escape_next_u:
  assumes "take 2 (escape s @ QUOTE # r) = [BSLASH, CHR ''u'']"
  shows "hex4 (drop 2 (escape s @ QUOTE # r))"
proof (cases s)
  case Nil
  with assms show ?thesis by (simp add: escape_def)
next
  case (Cons c s')
  then have e: "escape s = esc_char c @ escape s'" by (simp add: escape_def)
  have np: "\<not> is_plain c"
  proof
    assume p: "is_plain c"
    then have "c \<noteq> BSLASH" by (simp add: is_plain_def)
    with p assms e show False by (cases "escape s' @ QUOTE # r") (auto simp: esc_char_def numeral_2_eq_2)
  qed
  have ns: "short_escape c = None"
    using np assms e short_escape_inv by (auto simp: esc_char_def numeral_2_eq_2 split: option.splits)
  with not_plain_long [OF np] np e show ?thesis
    using hex4_u00 [of c "escape s' @ QUOTE # r"] by (simp add: esc_char_def numeral_2_eq_2)
qed

lemma lit_escape: "NUL \<notin> set s \<Longrightarrow> lit True (escape s @ QUOTE # r) s r"
proof (induction s)
  case Nil
  then show ?case by (simp add: escape_def lit_quote)
next
  case (Cons c s)
  then have IH: "lit True (escape s @ QUOTE # r) s r" and c: "c \<noteq> NUL" by auto
  have e: "escape (c # s) = esc_char c @ escape s" by (simp add: escape_def)
  show ?case
  proof (cases "is_plain c")
    case True
    then have "c \<notin> {QUOTE, NUL, BSLASH}" by (auto simp: is_plain_def)
    from lit_char [OF this IH] True e show ?thesis by (simp add: esc_char_def)
  next
    case np: False
    show ?thesis
    proof (cases "short_escape c")
      case (Some x)
      with short_escape_inv [OF Some] have "lit True (BSLASH # x # escape s @ QUOTE # r) (simple_escape x # s) r"
        using IH by (intro lit_esc) auto
      with short_escape_inv [OF Some] np Some e show ?thesis by (simp add: esc_char_def)
    next
      case None
      have l: "code c < 32" using not_plain_long [OF np None] .
      let ?u = "CHR ''0'' # CHR ''0'' # hex02 (code c) @ escape s @ QUOTE # r"
      have d4: "drop 4 ?u = escape s @ QUOTE # r" "drop 6 ?u = drop 2 (escape s @ QUOTE # r)"
        by (simp_all add: hex02_def)
      have ok: "uni_ok ?u"
        using hex4_u00 [OF l] escape_next_u [of s r] unfolding uni_ok_def d4 by blast
      have "unicode_escape ?u = Some ([c], escape s @ QUOTE # r)"
        using parse_hex4_u00 [OF l, of "escape s @ QUOTE # r"] l c utf8_bytes_low [OF l]
        by (simp add: unicode_escape_def hex02_def)
      from lit_uni [OF this _ IH] ok have "lit True (BSLASH # CHR ''u'' # ?u) ([c] @ s) r" by blast
      with np None e show ?thesis by (simp add: esc_char_def)
    qed
  qed
qed

subsection \<open>Values\<close>

text \<open>
  The values that survive: numbers that are exact integers of the \<open>int\<close> range, strings
  and names without a zero byte.
\<close>

fun
  jok :: "json \<Rightarrow> bool" and
  joks :: "json list \<Rightarrow> bool" and
  jokm :: "(string \<times> json) list \<Rightarrow> bool" where
  "jok (JNum i d) = (INT_MIN \<le> i \<and> i \<le> INT_MAX \<and> d = int_fl i)"
| "jok (JStr s) = (NUL \<notin> set s)"
| "jok (JArr js) = joks js"
| "jok (JObj ms) = jokm ms"
| "jok j = True"
| "joks [] = True"
| "joks (j # js) = (jok j \<and> joks js)"
| "jokm [] = True"
| "jokm ((k, j) # ms) = (NUL \<notin> set k \<and> jok j \<and> jokm ms)"

definition blanks :: "string \<Rightarrow> bool" where
  "blanks w \<longleftrightarrow> list_all (\<lambda>c. c \<noteq> NUL \<and> code c \<le> 32) w"

lemma skip_blanks: "blanks w \<Longrightarrow> skip_text (w @ s) = skip_text s"
  by (induction w) (auto simp: blanks_def)

definition visible :: "string \<Rightarrow> bool" where
  "visible s \<longleftrightarrow> (\<exists>c t. s = c # t \<and> 32 < code c)"

lemma skip_visible: "visible s \<Longrightarrow> skip_text s = Some s"
  by (auto simp: visible_def)

lemma visible_append: "visible s \<Longrightarrow> visible (s @ t)"
  by (auto simp: visible_def)

lemma visible_simps [simp]:
  "visible (CHR '','' # s)" "visible (CHR '']'' # s)" "visible (CHR ''}'' # s)" "visible (CHR '':'' # s)"
  "visible (QUOTE # s)"
  by (simp_all add: visible_def code_def)

lemma blanks_simps [simp]:
  "blanks []" "blanks (CHR 0x0A # w) = blanks w" "blanks (CHR 0x09 # w) = blanks w"
  "blanks (CHR '' '' # w) = blanks w" "blanks (tabs k)"
  by (simp_all add: blanks_def code_def tabs_def list_all_iff)

lemma stops_simps [simp]:
  "stops (CHR '','' # s)" "stops (CHR '']'' # s)" "stops (CHR ''}'' # s)" "stops (CHR 0x0A # s)"
  "stops (NUL # s)"
  by (simp_all add: stops_def is_digit_def code_def)

lemma dec_int_head: "\<exists>c s. dec_int i = c # s \<and> (c = CHR ''-'' \<or> is_digit c)"
  using dec_Cons [of "nat i"] by (auto simp: dec_int_def)

lemma visible_pj: "jok j \<Longrightarrow> visible (pj fmt d j)"
proof (cases j)
  case (JNum i x)
  assume "jok j"
  with JNum dec_int_head [of i] show ?thesis
    by (auto simp: visible_def number_text_int is_digit_def) (auto simp: code_def)
qed (auto simp: visible_def quoted_def code_def)

lemma tk_id: "NUL \<notin> set s \<Longrightarrow> tk s = s"
  unfolding tk_def by (rule takeWhile_eq_all_conv [THEN iffD2]) auto

definition mtail :: "bool \<Rightarrow> nat \<Rightarrow> string \<Rightarrow> string" where
  "mtail fmt k r = (if fmt then tabs k else []) @ CHR ''}'' # r"

lemma elems_next:
  assumes "js \<noteq> []" "skip_text (pjs fmt d js @ CHR '']'' # r) = Some s1" "jvalue True s1 j X"
    "skip_text X = Some X" "jelems True X js' r"
  shows "jelems True ((if fmt then '', '' else '','') @ pjs fmt d js @ CHR '']'' # r) (j # js') r"
  using je_more [of "(if fmt then '' '' else []) @ pjs fmt d js @ CHR '']'' # r" s1 True j X X js' r]
    assms skip_blanks [of "if fmt then '' '' else []" "pjs fmt d js @ CHR '']'' # r"]
  by (cases fmt) auto

text \<open>An object ends with its bracket whatever follows.\<close>

lemma object_closed:
  assumes "\<forall>k r. ms = [] \<and> ms' = [] \<or> ms \<noteq> [] \<and> (\<exists>T. pms fmt (d + 1) ms @ mtail fmt k r = (if fmt then tabs (d + 1) else []) @ T
     \<and> visible T \<and> jmember True T ms' r)"
  shows "jvalue True (pj fmt d (JObj ms) @ r) (JObj ms') r"
proof (cases "ms = []")
  case True
  have "skip_text ((if fmt then CHR 0x0A # tabs (d - 1) else []) @ CHR ''}'' # r) = Some (CHR ''}'' # r)"
    by (subst skip_blanks) (auto intro: skip_visible simp: code_def)
  from jv_obj_empty [OF this] True assms show ?thesis by (auto split: if_splits)
next
  case False
  from assms False have "\<exists>T. pms fmt (d + 1) ms @ mtail fmt d r = (if fmt then tabs (d + 1) else []) @ T
     \<and> visible T \<and> jmember True T ms' r" by fastforce
  then obtain T where T: "pms fmt (d + 1) ms @ mtail fmt d r = (if fmt then tabs (d + 1) else []) @ T"
    "visible T" "jmember True T ms' r" by blast
  have "skip_text ((if fmt then CHR 0x0A # tabs (d + 1) else []) @ T) = Some T"
    by (subst skip_blanks) (auto intro: skip_visible [OF T(2)])
  from jv_obj [OF this T(3)] have j: "jvalue True (CHR ''{'' # (if fmt then CHR 0x0A # tabs (d + 1) else []) @ T) (JObj ms') r" .
  have "pj fmt d (JObj ms) @ r = ''{'' @ (if fmt then [CHR 0x0A] else []) @ pms fmt (d + 1) ms @ mtail fmt d r"
    using False by (simp add: mtail_def)
  also have "\<dots> = CHR ''{'' # (if fmt then CHR 0x0A # tabs (d + 1) else []) @ T"
    unfolding T(1) by simp
  finally show ?thesis using j by simp
qed

text \<open>One member in front of others.\<close>

lemma member_step:
  assumes k: "NUL \<notin> set k" and v: "visible (pj fmt d j)" "\<forall>r. stops r \<longrightarrow> jvalue True (pj fmt d j @ r) j' r"
    and ms: "\<forall>n r. ms = [] \<and> ms' = [] \<or> ms \<noteq> [] \<and> (\<exists>T. pms fmt d ms @ mtail fmt n r = (if fmt then tabs d else []) @ T
         \<and> visible T \<and> jmember True T ms' r)"
  shows "\<exists>T. pms fmt d ((k, j) # ms) @ mtail fmt n r = (if fmt then tabs d else []) @ T
     \<and> visible T \<and> jmember True T ((k, j') # ms') r"
proof -
  let ?nl = "if fmt then [CHR 0x0A] else []"
  let ?R4 = "(if ms \<noteq> [] then '','' else []) @ ?nl @ pms fmt d ms @ mtail fmt n r"
  let ?V = "(if fmt then [CHR 0x09] else []) @ pj fmt d j @ ?R4"
  let ?T = "quoted k @ CHR '':'' # ?V"
  have t: "pms fmt d ((k, j) # ms) @ mtail fmt n r = (if fmt then tabs d else []) @ ?T"
    by (simp add: member_text_def)
  have st: "stops ?R4" by (cases fmt) (simp_all add: mtail_def)
  have jv: "jvalue True (pj fmt d j @ ?R4) j' ?R4" using v(2) st by blast
  have l: "lit True (escape k @ QUOTE # CHR '':'' # ?V) k (CHR '':'' # ?V)"
    using k by (intro lit_escape) simp
  have s1: "skip_text (CHR '':'' # ?V) = Some (CHR '':'' # ?V)" by (rule skip_visible) simp
  have s2: "skip_text ?V = Some (pj fmt d j @ ?R4)"
  proof -
    have "skip_text ?V = skip_text (pj fmt d j @ ?R4)" by (rule skip_blanks) simp
    also have "\<dots> = Some (pj fmt d j @ ?R4)" using v(1) by (intro skip_visible visible_append)
    finally show ?thesis .
  qed
  have "\<exists>r5. skip_text ?R4 = Some r5 \<and> jmembers True r5 ms' r"
  proof (cases "ms = []")
    case True
    have "skip_text ((?nl @ (if fmt then tabs n else [])) @ CHR ''}'' # r) = Some (CHR ''}'' # r)"
      by (subst skip_blanks) (auto intro: skip_visible simp: code_def)
    with True ms jms_end show ?thesis by (auto simp: mtail_def)
  next
    case False
    with ms have "\<exists>T. pms fmt d ms @ mtail fmt n r = (if fmt then tabs d else []) @ T
       \<and> visible T \<and> jmember True T ms' r" by fastforce
    then obtain T where T: "pms fmt d ms @ mtail fmt n r = (if fmt then tabs d else []) @ T"
      "visible T" "jmember True T ms' r" by blast
    have "skip_text ((?nl @ (if fmt then tabs d else [])) @ T) = Some T"
      by (subst skip_blanks) (auto intro: skip_visible [OF T(2)])
    from jms_more [OF this T(3)] have "jmembers True (CHR '','' # (?nl @ (if fmt then tabs d else [])) @ T) ms' r" .
    moreover have "?R4 = CHR '','' # (?nl @ (if fmt then tabs d else [])) @ T" using False T(1) by simp
    moreover have "skip_text (CHR '','' # x) = Some (CHR '','' # x)" for x by (rule skip_visible) simp
    ultimately show ?thesis by metis
  qed
  then obtain r5 where r5: "skip_text ?R4 = Some r5" "jmembers True r5 ms' r" by blast
  from jm [OF l s1 s2 jv r5] k have "jmember True ?T ((k, j') # ms') r"
    by (simp add: quoted_def tk_id)
  moreover have "visible ?T" by (simp add: quoted_def)
  ultimately show ?thesis using t by blast
qed

lemma print_derivable:
  "jok j \<Longrightarrow> (\<forall>r. stops r \<longrightarrow> jvalue True (pj fmt d j @ r) j r)"
  "joks js \<Longrightarrow> (\<forall>r. js = [] \<or> (\<exists>j js' X. js = j # js' \<and> pjs fmt d js @ CHR '']'' # r = pj fmt d j @ X
     \<and> jvalue True (pj fmt d j @ X) j X \<and> skip_text X = Some X \<and> jelems True X js' r))"
  "jokm ms \<Longrightarrow> (\<forall>k r. ms = [] \<or> (\<exists>T. pms fmt d ms @ mtail fmt k r = (if fmt then tabs d else []) @ T
     \<and> visible T \<and> jmember True T ms r))"
proof (induction fmt d j and fmt d js and fmt d ms rule: pj_pjs_pms.induct)
  case (1 fmt d)
  show ?case by (auto intro: jv_null)
next
  case (2 fmt d)
  show ?case by (auto intro: jv_false)
next
  case (3 fmt d)
  show ?case by (auto intro: jv_true)
next
  case (4 fmt d i x)
  show ?case
  proof (intro allI impI)
    fix r assume r: "stops r"
    from 4 have i: "INT_MIN \<le> i" "i \<le> INT_MAX" "x = int_fl i" by auto
    obtain c s where c: "dec_int i = c # s" "c = CHR ''-'' \<or> is_digit c" using dec_int_head by blast
    have "to_int 64 (int_fl i) = Some i"
      by (rule to_int_int) (use i in \<open>auto simp: INT_MIN_def INT_MAX_def\<close>)
    with parse_number_int [OF i(1,2) r] c i
    show "jvalue True (pj fmt d (JNum i x) @ r) (JNum i x) r"
      by (auto simp: number_text_int intro: jv_num)
  qed
next
  case (5 fmt d s)
  show ?case
  proof (intro allI impI)
    fix r assume "stops r"
    from jv_str [OF lit_escape [of s r]] 5 tk_id [of s]
    show "jvalue True (pj fmt d (JStr s) @ r) (JStr s) r" by (simp add: quoted_def)
  qed
next
  case (6 fmt d js)
  show ?case
  proof (intro allI impI)
    fix r assume "stops r"
    show "jvalue True (pj fmt d (JArr js) @ r) (JArr js) r"
    proof (cases "js = []")
      case True
      then show ?thesis by (auto intro!: jv_arr_empty simp: code_def)
    next
      case False
      with 6 obtain j js' X where X: "js = j # js'" "pjs fmt (d + 1) js @ CHR '']'' # r = pj fmt (d + 1) j @ X"
        "jvalue True (pj fmt (d + 1) j @ X) j X" "skip_text X = Some X" "jelems True X js' r" by fastforce
      have "skip_text (pj fmt (d + 1) j @ X) = Some (pj fmt (d + 1) j @ X)"
        using 6(2) X(1) by (intro skip_visible visible_append visible_pj) simp
      from jv_arr [OF this X(3,4,5)] X(1,2) show ?thesis by simp
    qed
  qed
next
  case (7 fmt d ms)
  have "jvalue True (pj fmt d (JObj ms) @ r) (JObj ms) r" for r
  proof (rule object_closed, intro allI)
    fix k r
    show "ms = [] \<and> ms = [] \<or> ms \<noteq> [] \<and> (\<exists>T. pms fmt (d + 1) ms @ mtail fmt k r = (if fmt then tabs (d + 1) else []) @ T
        \<and> visible T \<and> jmember True T ms r)" using 7 by fastforce
  qed
  then show ?case by blast
next
  case (8 fmt d)
  show ?case by simp
next
  case (9 fmt d j js)
  show ?case
  proof
    fix r
    let ?X = "(if js = [] then [] else (if fmt then '', '' else '','') @ pjs fmt d js) @ CHR '']'' # r"
    have st: "stops ?X" and vi: "visible ?X" by simp_all
    have v: "jvalue True (pj fmt d j @ ?X) j ?X" using 9 st by auto
    have e: "jelems True ?X js r"
    proof (cases "js = []")
      case True
      then show ?thesis by (simp add: je_end)
    next
      case False
      with 9 obtain j2 js2 X2 where X2: "js = j2 # js2" "pjs fmt d js @ CHR '']'' # r = pj fmt d j2 @ X2"
        "jvalue True (pj fmt d j2 @ X2) j2 X2" "skip_text X2 = Some X2" "jelems True X2 js2 r" by fastforce
      have "skip_text (pj fmt d j2 @ X2) = Some (pj fmt d j2 @ X2)"
        using 9(3) X2(1) by (intro skip_visible visible_append visible_pj) simp
      from elems_next [OF False _ X2(3,4,5), of fmt d] this X2(2) have
        "jelems True ((if fmt then '', '' else '','') @ pjs fmt d js @ CHR '']'' # r) (j2 # js2) r" by simp
      with False X2(1) show ?thesis by simp
    qed
    have "pjs fmt d (j # js) @ CHR '']'' # r = pj fmt d j @ ?X" by simp
    with v e skip_visible [OF vi] show "j # js = [] \<or> (\<exists>j' js' X. j # js = j' # js'
       \<and> pjs fmt d (j # js) @ CHR '']'' # r = pj fmt d j' @ X
       \<and> jvalue True (pj fmt d j' @ X) j' X \<and> skip_text X = Some X \<and> jelems True X js' r)" by blast
  qed
next
  case (10 fmt d)
  show ?case by simp
next
  case (11 fmt d k j ms)
  then have j: "NUL \<notin> set k" "jok j" "jokm ms" by simp_all
  have "\<exists>T. pms fmt d ((k, j) # ms) @ mtail fmt n r = (if fmt then tabs d else []) @ T
      \<and> visible T \<and> jmember True T ((k, j) # ms) r" for n r
    by (rule member_step [OF j(1) visible_pj [OF j(2)]]) (use 11 j in auto)
  then show ?case by blast
qed

subsection \<open>The round trip through memory\<close>

lemma object_derivable: "jok (JObj ms) \<Longrightarrow> jvalue True (pj fmt d (JObj ms) @ r) (JObj ms) r"
  by (rule object_closed) (use print_derivable(3) [of ms fmt "d + 1"] in auto)

lemma jok_nums: "jok j \<Longrightarrow> jnums j" "joks js \<Longrightarrow> jnumss js" "jokm ms \<Longrightarrow> jnumsm ms"
proof (induction j and js and ms rule: jok_joks_jokm.induct)
  case (1 i d)
  have "is_double (int_fl i)"
  proof (cases "i = 0")
    case True
    then show ?thesis by (simp add: is_double_def int_fl_def)
  next
    case False
    have "\<bar>i\<bar> \<le> 2147483648" using 1 by (auto simp: INT_MIN_def INT_MAX_def)
    then have "(of_int \<bar>i\<bar> :: rat) \<le> of_int 2147483648" by (simp only: of_int_le_iff)
    then have "of_int \<bar>i\<bar> < p2 32" by (simp add: p2_def)
    also have "p2 32 \<le> p2 1024" by (rule p2_mono) simp
    finally have u: "of_int \<bar>i\<bar> < p2 1024" .
    have "p2 (- 1074) \<le> p2 0" by (rule p2_mono) simp
    also have "p2 0 \<le> of_int \<bar>i\<bar>" using False by simp
    finally show ?thesis using u by (simp add: is_double_def int_fl_def)
  qed
  with 1 show ?case by (auto simp: is_llong_def INT_MIN_def INT_MAX_def)
qed auto

lemma jdepth_foot:
  "jrep j t \<Longrightarrow> jdepth j \<le> length (foot [t])"
  "jreps js ts \<Longrightarrow> jdepths js \<le> length (foot ts)"
  "jmems ms ts \<Longrightarrow> jdepthm ms \<le> length (foot ts)"
proof (induction j t and js ts and ms ts rule: jrep_jreps_jmems.induct)
  case (10 j js ts)
  then show ?case using foot_append [of "[hd ts]" "tl ts"] by (cases ts) auto
next
  case (12 k j ms ts)
  then show ?case using foot_append [of "[hd ts]" "tl ts"] by (cases ts) auto
qed (auto simp del: foot_append)

lemma foot_brk:
  assumes "heap_ok h" "seg (mem h) p ts q" "distinct (foot ts)"
  shows "length (foot ts) \<le> brk h"
proof -
  have "set (foot ts) \<subseteq> {..<brk h}"
    using seg_live [OF assms(2)] heap_ok_0 [OF assms(1)] by fastforce
  then have "card (set (foot ts)) \<le> card {..<brk h}" by (rule card_mono [rotated]) simp
  then show ?thesis using assms(3) by (simp add: distinct_card)
qed

lemma printed:
  assumes "heap_ok h" "seg (mem h) p [t] q" "distinct (foot [t])" "jrep j t" "jnums j"
  shows "\<exists>r h'. print_value (brk h) fmt (jaddr t) 0 h = Some (r, h') \<and> rendered h r h' (pj fmt 0 j)"
proof -
  have "jdepth j \<le> brk h"
    using jdepth_foot(1) [OF assms(4)] foot_brk [OF assms(1,2,3)] by simp
  from printsD [OF print_value_prints(1) [OF assms(4,5) this] assms(1,2)] show ?thesis .
qed

end
