(* ===== verification/CJSON_Ops.thy ===== *)
theory CJSON_Ops
  imports CJSON_RoundTrip
begin

section \<open>Building and changing trees\<close>

text \<open>
  The list operations of \<open>common/cJSON.c\<close>: access, insertion, references, detachment,
  deletion, replacement, creation and duplication. Each is proved against the list of
  trees its container holds: what it returns, what the list becomes, and that nothing else
  in memory changes.
\<close>

subsection \<open>Access\<close>

definition cJSON_GetArraySize :: "addr \<Rightarrow> heap \<Rightarrow> nat option" where
  "cJSON_GetArraySize array h = do { n \<leftarrow> ld array h; count_items (j_child n) h }"

fun nth_item :: "nat \<Rightarrow> addr \<Rightarrow> heap \<Rightarrow> addr option" where
  "nth_item 0 c h = Some c"
| "nth_item (Suc k) c h =
     (if c = 0 then Some 0 else do { n \<leftarrow> ld c h; nth_item k (j_next n) h })"

definition cJSON_GetArrayItem :: "addr \<Rightarrow> int \<Rightarrow> heap \<Rightarrow> addr option" where
  "cJSON_GetArrayItem array item h = do { n \<leftarrow> ld array h; nth_item (nat item) (j_child n) h }"

partial_function (option) find_item :: "addr \<Rightarrow> string \<Rightarrow> heap \<Rightarrow> (nat \<times> addr) option" where
  "find_item c string h =
     (if c = 0 then Some (0, 0)
      else do {
        n \<leftarrow> ld c h;
        s \<leftarrow> ld_nstr (j_string n) h;
        if cJSON_strcasecmp s (Some string) \<noteq> 0
        then do { (i, r) \<leftarrow> find_item (j_next n) string h; Some (Suc i, r) }
        else Some (0, c)
      })"

declare find_item.simps [code]

definition cJSON_GetObjectItem :: "addr \<Rightarrow> string \<Rightarrow> heap \<Rightarrow> addr option" where
  "cJSON_GetObjectItem object string h = do {
     n \<leftarrow> ld object h;
     (i, c) \<leftarrow> find_item (j_child n) string h;
     Some c
   }"

subsection \<open>Insertion\<close>

definition suffix_object :: "addr \<Rightarrow> addr \<Rightarrow> heap \<Rightarrow> heap option" where
  "suffix_object prev item h = do {
     h1 \<leftarrow> upd_node prev (\<lambda>n. n\<lparr>j_next := item\<rparr>) h;
     upd_node item (\<lambda>n. n\<lparr>j_prev := prev\<rparr>) h1
   }"

definition create_reference :: "addr \<Rightarrow> heap \<Rightarrow> (addr \<times> heap) option" where
  "create_reference item h = (let (ref, h1) = cJSON_New_Item h in
     if ref = 0 then Some (0, h1)
     else do {
       n \<leftarrow> ld item h1;
       h2 \<leftarrow> st ref (n\<lparr>j_string := 0, j_type := j_type n OR cJSON_IsReference,
                       j_next := 0, j_prev := 0\<rparr>) h1;
       Some (ref, h2)
     })"

partial_function (option) last_item :: "addr \<Rightarrow> heap \<Rightarrow> addr option" where
  "last_item c h = do {
     n \<leftarrow> ld c h;
     if j_next n = 0 then Some c else last_item (j_next n) h
   }"

declare last_item.simps [code]

definition cJSON_AddItemToArray :: "addr \<Rightarrow> addr \<Rightarrow> heap \<Rightarrow> heap option" where
  "cJSON_AddItemToArray array item h = do {
     n \<leftarrow> ld array h;
     if item = 0 then Some h
     else if j_child n = 0 then upd_node array (\<lambda>n. n\<lparr>j_child := item\<rparr>) h
     else do { c \<leftarrow> last_item (j_child n) h; suffix_object c item h }
   }"

definition cJSON_AddItemToObject :: "addr \<Rightarrow> string \<Rightarrow> addr \<Rightarrow> heap \<Rightarrow> heap option" where
  "cJSON_AddItemToObject object string item h =
     (if item = 0 then Some h
      else do {
        n \<leftarrow> ld item h;
        h1 \<leftarrow> (if j_string n \<noteq> 0 then c_free (j_string n) h else Some h);
        let (s, h2) = cJSON_strdup string h1;
        h3 \<leftarrow> upd_node item (\<lambda>n. n\<lparr>j_string := s\<rparr>) h2;
        cJSON_AddItemToArray object item h3
      })"

definition cJSON_AddItemReferenceToArray :: "addr \<Rightarrow> addr \<Rightarrow> heap \<Rightarrow> heap option" where
  "cJSON_AddItemReferenceToArray array item h = do {
     (r, h1) \<leftarrow> create_reference item h;
     cJSON_AddItemToArray array r h1
   }"

definition cJSON_AddItemReferenceToObject ::
  "addr \<Rightarrow> string \<Rightarrow> addr \<Rightarrow> heap \<Rightarrow> heap option" where
  "cJSON_AddItemReferenceToObject object string item h = do {
     (r, h1) \<leftarrow> create_reference item h;
     cJSON_AddItemToObject object string r h1
   }"

subsection \<open>Removal and replacement\<close>

definition cJSON_DetachItemFromArray :: "addr \<Rightarrow> int \<Rightarrow> heap \<Rightarrow> (addr \<times> heap) option" where
  "cJSON_DetachItemFromArray array which h = do {
     a \<leftarrow> ld array h;
     c \<leftarrow> nth_item (nat which) (j_child a) h;
     if c = 0 then Some (0, h)
     else do {
       n \<leftarrow> ld c h;
       h1 \<leftarrow> (if j_prev n \<noteq> 0 then upd_node (j_prev n) (\<lambda>m. m\<lparr>j_next := j_next n\<rparr>) h else Some h);
       h2 \<leftarrow> (if j_next n \<noteq> 0 then upd_node (j_next n) (\<lambda>m. m\<lparr>j_prev := j_prev n\<rparr>) h1 else Some h1);
       h3 \<leftarrow> (if c = j_child a then upd_node array (\<lambda>m. m\<lparr>j_child := j_next n\<rparr>) h2 else Some h2);
       h4 \<leftarrow> upd_node c (\<lambda>m. m\<lparr>j_next := 0, j_prev := 0\<rparr>) h3;
       Some (c, h4)
     }
   }"

definition cJSON_DeleteItemFromArray :: "addr \<Rightarrow> int \<Rightarrow> heap \<Rightarrow> heap option" where
  "cJSON_DeleteItemFromArray array which h = do {
     (c, h1) \<leftarrow> cJSON_DetachItemFromArray array which h;
     cJSON_Delete c h1
   }"

definition cJSON_DetachItemFromObject :: "addr \<Rightarrow> string \<Rightarrow> heap \<Rightarrow> (addr \<times> heap) option" where
  "cJSON_DetachItemFromObject object string h = do {
     n \<leftarrow> ld object h;
     (i, c) \<leftarrow> find_item (j_child n) string h;
     if c \<noteq> 0 then cJSON_DetachItemFromArray object (int i) h else Some (0, h)
   }"

definition cJSON_DeleteItemFromObject :: "addr \<Rightarrow> string \<Rightarrow> heap \<Rightarrow> heap option" where
  "cJSON_DeleteItemFromObject object string h = do {
     (c, h1) \<leftarrow> cJSON_DetachItemFromObject object string h;
     cJSON_Delete c h1
   }"

definition cJSON_ReplaceItemInArray :: "addr \<Rightarrow> int \<Rightarrow> addr \<Rightarrow> heap \<Rightarrow> heap option" where
  "cJSON_ReplaceItemInArray array which newitem h = do {
     a \<leftarrow> ld array h;
     c \<leftarrow> nth_item (nat which) (j_child a) h;
     if c = 0 then Some h
     else do {
       n \<leftarrow> ld c h;
       h1 \<leftarrow> upd_node newitem (\<lambda>m. m\<lparr>j_next := j_next n, j_prev := j_prev n\<rparr>) h;
       h2 \<leftarrow> (if j_next n \<noteq> 0 then upd_node (j_next n) (\<lambda>m. m\<lparr>j_prev := newitem\<rparr>) h1 else Some h1);
       h3 \<leftarrow> (if c = j_child a then upd_node array (\<lambda>m. m\<lparr>j_child := newitem\<rparr>) h2
              else upd_node (j_prev n) (\<lambda>m. m\<lparr>j_next := newitem\<rparr>) h2);
       h4 \<leftarrow> upd_node c (\<lambda>m. m\<lparr>j_next := 0, j_prev := 0\<rparr>) h3;
       cJSON_Delete c h4
     }
   }"

definition cJSON_ReplaceItemInObject :: "addr \<Rightarrow> string \<Rightarrow> addr \<Rightarrow> heap \<Rightarrow> heap option" where
  "cJSON_ReplaceItemInObject object string newitem h = do {
     n \<leftarrow> ld object h;
     (i, c) \<leftarrow> find_item (j_child n) string h;
     if c \<noteq> 0 then do {
       let (s, h1) = cJSON_strdup string h;
       h2 \<leftarrow> upd_node newitem (\<lambda>m. m\<lparr>j_string := s\<rparr>) h1;
       cJSON_ReplaceItemInArray object (int i) newitem h2
     }
     else Some h
   }"

subsection \<open>Creation\<close>

text \<open>A new item with some fields set; null when the allocation fails.\<close>

definition create :: "(cJSON \<Rightarrow> cJSON) \<Rightarrow> heap \<Rightarrow> (addr \<times> heap) option" where
  "create f h = (let (item, h1) = cJSON_New_Item h in
     if item = 0 then Some (0, h1) else do { h2 \<leftarrow> upd_node item f h1; Some (item, h2) })"

definition cJSON_CreateNull :: "heap \<Rightarrow> (addr \<times> heap) option" where
  "cJSON_CreateNull = create (\<lambda>n. n\<lparr>j_type := cJSON_NULL\<rparr>)"

definition cJSON_CreateTrue :: "heap \<Rightarrow> (addr \<times> heap) option" where
  "cJSON_CreateTrue = create (\<lambda>n. n\<lparr>j_type := cJSON_True\<rparr>)"

definition cJSON_CreateFalse :: "heap \<Rightarrow> (addr \<times> heap) option" where
  "cJSON_CreateFalse = create (\<lambda>n. n\<lparr>j_type := cJSON_False\<rparr>)"

definition cJSON_CreateBool :: "int \<Rightarrow> heap \<Rightarrow> (addr \<times> heap) option" where
  "cJSON_CreateBool b = create (\<lambda>n. n\<lparr>j_type := (if b \<noteq> 0 then cJSON_True else cJSON_False)\<rparr>)"

text \<open>\<open>(int) num\<close> is undefined for a number outside the range of \<open>int\<close>.\<close>

definition cJSON_CreateNumber :: "fl \<Rightarrow> heap \<Rightarrow> (addr \<times> heap) option" where
  "cJSON_CreateNumber num h = (let (item, h1) = cJSON_New_Item h in
     if item = 0 then Some (0, h1)
     else do {
       i \<leftarrow> to_int 32 num;
       h2 \<leftarrow> upd_node item
              (\<lambda>n. n\<lparr>j_type := cJSON_Number, j_valuedouble := num, j_valueint := i\<rparr>) h1;
       Some (item, h2)
     })"

definition cJSON_CreateString :: "string \<Rightarrow> heap \<Rightarrow> (addr \<times> heap) option" where
  "cJSON_CreateString string h = (let (item, h1) = cJSON_New_Item h in
     if item = 0 then Some (0, h1)
     else do {
       h2 \<leftarrow> upd_node item (\<lambda>n. n\<lparr>j_type := cJSON_String\<rparr>) h1;
       let (s, h3) = cJSON_strdup string h2;
       h4 \<leftarrow> upd_node item (\<lambda>n. n\<lparr>j_valuestring := s\<rparr>) h3;
       Some (item, h4)
     })"

definition cJSON_CreateArray :: "heap \<Rightarrow> (addr \<times> heap) option" where
  "cJSON_CreateArray = create (\<lambda>n. n\<lparr>j_type := cJSON_Array\<rparr>)"

definition cJSON_CreateObject :: "heap \<Rightarrow> (addr \<times> heap) option" where
  "cJSON_CreateObject = create (\<lambda>n. n\<lparr>j_type := cJSON_Object\<rparr>)"

text \<open>
  The array constructors share their loop: the item made from each element is the first
  child or is linked behind the previous item, which is dereferenced without a check.
\<close>

fun fill_array ::
  "('a \<Rightarrow> heap \<Rightarrow> (addr \<times> heap) option) \<Rightarrow> addr \<Rightarrow> bool \<Rightarrow> addr \<Rightarrow> 'a list \<Rightarrow> heap \<Rightarrow> heap option" where
  "fill_array mk a is_first p [] h = Some h"
| "fill_array mk a is_first p (x # xs) h = do {
     (n, h1) \<leftarrow> mk x h;
     h2 \<leftarrow> (if is_first then upd_node a (\<lambda>m. m\<lparr>j_child := n\<rparr>) h1 else suffix_object p n h1);
     fill_array mk a False n xs h2
   }"

definition create_filled ::
  "('a \<Rightarrow> heap \<Rightarrow> (addr \<times> heap) option) \<Rightarrow> 'a list \<Rightarrow> heap \<Rightarrow> (addr \<times> heap) option" where
  "create_filled mk xs h = do {
     (a, h1) \<leftarrow> cJSON_CreateArray h;
     if a = 0 then Some (0, h1) else do { h2 \<leftarrow> fill_array mk a True 0 xs h1; Some (a, h2) }
   }"

definition cJSON_CreateIntArray :: "int list \<Rightarrow> heap \<Rightarrow> (addr \<times> heap) option" where
  "cJSON_CreateIntArray = create_filled (\<lambda>i. cJSON_CreateNumber (of_int_fl binary64 i))"

definition cJSON_CreateFloatArray :: "fl list \<Rightarrow> heap \<Rightarrow> (addr \<times> heap) option" where
  "cJSON_CreateFloatArray = create_filled (\<lambda>x. cJSON_CreateNumber (fconv binary64 x))"

definition cJSON_CreateDoubleArray :: "fl list \<Rightarrow> heap \<Rightarrow> (addr \<times> heap) option" where
  "cJSON_CreateDoubleArray = create_filled cJSON_CreateNumber"

definition cJSON_CreateStringArray :: "string list \<Rightarrow> heap \<Rightarrow> (addr \<times> heap) option" where
  "cJSON_CreateStringArray = create_filled cJSON_CreateString"

text \<open>The macros of \<open>cJSON.h\<close> that create an item and add it under a name.\<close>

definition cJSON_AddNumberToObject :: "addr \<Rightarrow> string \<Rightarrow> fl \<Rightarrow> heap \<Rightarrow> heap option" where
  "cJSON_AddNumberToObject object name n h = do {
     (item, h1) \<leftarrow> cJSON_CreateNumber n h; cJSON_AddItemToObject object name item h1 }"

definition cJSON_AddStringToObject :: "addr \<Rightarrow> string \<Rightarrow> string \<Rightarrow> heap \<Rightarrow> heap option" where
  "cJSON_AddStringToObject object name s h = do {
     (item, h1) \<leftarrow> cJSON_CreateString s h; cJSON_AddItemToObject object name item h1 }"

definition cJSON_AddBoolToObject :: "addr \<Rightarrow> string \<Rightarrow> int \<Rightarrow> heap \<Rightarrow> heap option" where
  "cJSON_AddBoolToObject object name b h = do {
     (item, h1) \<leftarrow> cJSON_CreateBool b h; cJSON_AddItemToObject object name item h1 }"

subsection \<open>Duplication\<close>

text \<open>The children's loop is over the sibling chain; the recursion over the depth has fuel.\<close>

type_synonym duplicator = "addr \<Rightarrow> heap \<Rightarrow> (addr \<times> heap) option"

text \<open>The pair is the last duplicated child (0 at first) and the success of the loop.\<close>

fun dup_children ::
  "duplicator \<Rightarrow> nat \<Rightarrow> addr \<Rightarrow> addr \<Rightarrow> addr \<Rightarrow> heap \<Rightarrow> (bool \<times> heap) option" where
  "dup_children rec 0 newitem nptr c h = (if c = 0 then Some (True, h) else None)"
| "dup_children rec (Suc k) newitem nptr c h =
     (if c = 0 then Some (True, h)
      else do {
        (newchild, h1) \<leftarrow> rec c h;
        if newchild = 0 then Some (False, h1)
        else do {
          h2 \<leftarrow> (if nptr \<noteq> 0 then do {
                  h' \<leftarrow> upd_node nptr (\<lambda>n. n\<lparr>j_next := newchild\<rparr>) h1;
                  upd_node newchild (\<lambda>n. n\<lparr>j_prev := nptr\<rparr>) h'
                } else upd_node newitem (\<lambda>n. n\<lparr>j_child := newchild\<rparr>) h1);
          n \<leftarrow> ld c h2;
          dup_children rec k newitem newchild (j_next n) h2
        }
      })"

definition dup_string :: "addr \<Rightarrow> heap \<Rightarrow> (addr \<times> heap) option" where
  "dup_string s h = do { v \<leftarrow> ld_str s h; Some (cJSON_strdup v h) }"

definition duplicate_body :: "duplicator \<Rightarrow> bool \<Rightarrow> duplicator" where
  "duplicate_body rec recurse item h =
     (if item = 0 then Some (0, h)
      else do {
        let (new, h1) = cJSON_New_Item h;
        if new = 0 then Some (0, h1)
        else do {
          n \<leftarrow> ld item h1;
          h2 \<leftarrow> upd_node new (\<lambda>m. m\<lparr>j_type := j_type n AND NOT cJSON_IsReference,
                  j_valueint := j_valueint n, j_valuedouble := j_valuedouble n\<rparr>) h1;
          (vs, h3) \<leftarrow> (if j_valuestring n \<noteq> 0 then dup_string (j_valuestring n) h2 else Some (0, h2));
          h4 \<leftarrow> upd_node new (\<lambda>m. m\<lparr>j_valuestring := vs\<rparr>) h3;
          if j_valuestring n \<noteq> 0 \<and> vs = 0 then do { h5 \<leftarrow> cJSON_Delete new h4; Some (0, h5) }
          else do {
            (nm, h5) \<leftarrow> (if j_string n \<noteq> 0 then dup_string (j_string n) h4 else Some (0, h4));
            h6 \<leftarrow> upd_node new (\<lambda>m. m\<lparr>j_string := nm\<rparr>) h5;
            if j_string n \<noteq> 0 \<and> nm = 0 then do { h7 \<leftarrow> cJSON_Delete new h6; Some (0, h7) }
            else if \<not> recurse then Some (new, h6)
            else do {
              k \<leftarrow> count_items (j_child n) h6;
              (ok, h7) \<leftarrow> dup_children rec k new 0 (j_child n) h6;
              if ok then Some (new, h7)
              else do { h8 \<leftarrow> cJSON_Delete new h7; Some (0, h8) }
            }
          }
        }
      })"

primrec duplicate :: "nat \<Rightarrow> bool \<Rightarrow> duplicator" where
  "duplicate 0 recurse = (\<lambda>item h. None)"
| "duplicate (Suc f) recurse = duplicate_body (duplicate f True) recurse"

definition cJSON_Duplicate :: "addr \<Rightarrow> bool \<Rightarrow> heap \<Rightarrow> (addr \<times> heap) option" where
  "cJSON_Duplicate item recurse h = duplicate (brk h) recurse item h"

section \<open>Correctness of the list operations\<close>

definition holds :: "heap \<Rightarrow> addr \<Rightarrow> addr \<Rightarrow> jt \<Rightarrow> bool" where
  "holds h p q t \<longleftrightarrow> heap_ok h \<and> seg (mem h) p [t] q \<and> distinct (foot [t])"

text \<open>Only the listed addresses differ.\<close>

definition changes :: "addr list \<Rightarrow> heap \<Rightarrow> heap \<Rightarrow> bool" where
  "changes as h h' \<longleftrightarrow> brk h' = brk h \<and> room h' = room h \<and> (\<forall>b. b \<notin> set as \<longrightarrow> mem h' b = mem h b)"

lemma changes_refl [simp]: "changes as h h"
  by (simp add: changes_def)

lemma holds_own:
  assumes "holds h p q (Own a ty vs vi vd nm ks)"
  shows "ld a h = Some (node_of p q (Own a ty vs vi vd nm ks))" "seg (mem h) 0 ks 0" "heap_ok h"
    "a \<noteq> 0" "\<not> is_ref ty" "distinct (foot ks)" "a \<notin> set (foot ks)"
  using assms by (auto simp: holds_def ld_Node)

subsection \<open>Access\<close>

lemma nth_item_ok:
  "seg (mem h) p ts 0 \<Longrightarrow>
     nth_item k (first ts 0) h = Some (if k < length ts then jaddr (ts ! k) else 0)"
proof (induction ts arbitrary: p k)
  case Nil
  then show ?case by (cases k) auto
next
  case (Cons t ts)
  note n = seg_Cons_node [OF Cons.prems]
  with Cons.IH [of "jaddr t"] show ?case by (cases k) (auto simp: ld_Node)
qed

definition key_of :: "jt \<Rightarrow> string option" where
  "key_of t = map_option snd (jname t)"

definition key_matches :: "string \<Rightarrow> jt \<Rightarrow> bool" where
  "key_matches k t \<longleftrightarrow> cJSON_strcasecmp (key_of t) (Some k) = 0"

text \<open>The first child whose name agrees up to letter case.\<close>

fun find_key :: "string \<Rightarrow> jt list \<Rightarrow> nat" where
  "find_key k [] = 0"
| "find_key k (t # ts) = (if key_matches k t then 0 else Suc (find_key k ts))"

lemma find_key_le: "find_key k ts \<le> length ts"
  by (induction ts) auto

lemma find_key_nth: "find_key k ts < length ts \<Longrightarrow> key_matches k (ts ! find_key k ts)"
  by (induction ts) auto

lemma find_key_before: "i < find_key k ts \<Longrightarrow> \<not> key_matches k (ts ! i)"
  by (induction ts arbitrary: i) (auto simp: nth_Cons split: nat.splits if_splits)

lemma seg_ld_name: "seg (mem h) p (t # ts) q \<Longrightarrow> ld_nstr (ladr (jname t)) h = Some (key_of t)"
  by (cases t) (auto simp: ld_nstr_def key_of_def str_in_def ladr_def ld_str_def split: option.splits)

lemma find_item_ok:
  "seg (mem h) p ts 0 \<Longrightarrow> find_item (first ts 0) k h
     = Some (find_key k ts, if find_key k ts < length ts then jaddr (ts ! find_key k ts) else 0)"
proof (induction ts arbitrary: p)
  case Nil
  then show ?case by (simp add: find_item.simps)
next
  case (Cons t ts)
  note n = seg_Cons_node [OF Cons.prems]
  have l: "ld (jaddr t) h = Some (node_of p (first ts 0) t)" using n by (simp add: ld_Node)
  from Cons.IH [of "jaddr t"] n seg_ld_name [OF Cons.prems] l show ?case
    by (subst find_item.simps) (simp add: key_matches_def)
qed

lemma last_item_ok: "seg (mem h) p (ts @ [u]) 0 \<Longrightarrow> last_item (first (ts @ [u]) 0) h = Some (jaddr u)"
proof (induction ts arbitrary: p)
  case Nil
  with seg_Cons_node [of "mem h" p u "[]" 0] show ?case
    by (subst last_item.simps) (simp add: ld_Node)
next
  case (Cons t ts)
  then have s: "seg (mem h) p (t # (ts @ [u])) 0" by simp
  note n = seg_Cons_node [OF s]
  have "first (ts @ [u]) 0 \<noteq> 0" using first_0_iff [of "mem h" "jaddr t" "ts @ [u]"] n by simp
  with Cons.IH [of "jaddr t"] n show ?case
    by (subst last_item.simps) (simp add: ld_Node)
qed

lemma cJSON_GetArraySize_ok:
  "holds h p q (Own a ty vs vi vd nm ks) \<Longrightarrow> cJSON_GetArraySize a h = Some (length ks)"
  using holds_own(1,2) [of h p q a ty vs vi vd nm ks] count_items_ok [of h 0 ks]
  by (simp add: cJSON_GetArraySize_def)

lemma cJSON_GetArrayItem_ok:
  "holds h p q (Own a ty vs vi vd nm ks) \<Longrightarrow> cJSON_GetArrayItem a i h
     = Some (if nat i < length ks then jaddr (ks ! nat i) else 0)"
  using holds_own(1,2) [of h p q a ty vs vi vd nm ks] nth_item_ok [of h 0 ks "nat i"]
  by (simp add: cJSON_GetArrayItem_def)

lemma cJSON_GetObjectItem_ok:
  "holds h p q (Own a ty vs vi vd nm ks) \<Longrightarrow> cJSON_GetObjectItem a k h
     = Some (if find_key k ks < length ks then jaddr (ks ! find_key k ks) else 0)"
  using holds_own(1,2) [of h p q a ty vs vi vd nm ks] find_item_ok [of h 0 ks k]
  by (simp add: cJSON_GetObjectItem_def)

subsection \<open>Relinking\<close>

lemma upd_node_mem:
  assumes "heap_ok h" "mem h a = Some (Node n)"
  shows "upd_node a f h = Some (h\<lparr>mem := (mem h)(a := Some (Node (f n)))\<rparr>)"
    "heap_ok (h\<lparr>mem := (mem h)(a := Some (Node (f n)))\<rparr>)"
  using assms heap_ok_0 [OF assms] by (auto simp: upd_node_def mem_simps heap_ok_def)

text \<open>Writing the \<open>next\<close> link of the last node of a list.\<close>

lemma seg_set_next:
  assumes s: "seg m p (xs @ [u]) q" and d: "distinct (foot (xs @ [u]))"
  shows "seg (m(jaddr u := Some (Node (node_of (final p xs) q' u)))) p (xs @ [u]) q'"
proof -
  from s have s1: "seg m p xs (jaddr u)" and s2: "seg m (final p xs) [u] q"
    by (auto simp: seg_append)
  have nu: "jaddr u \<notin> set (foot xs)" using d jaddr_in_foot [of u "[u]"] by auto
  have "seg (m(jaddr u := Some (Node (node_of (final p xs) q' u)))) (final p xs) [u] q'"
    by (rule seg_relink [OF s2]) (use d in simp)
  with seg_upd_other [OF nu s1] show ?thesis by (simp add: seg_append)
qed

lemma own_kids:
  assumes "seg m p [Own a ty vs vi vd nm ks] q"
    and "m' a = Some (Node (node_of p q (Own a ty vs vi vd nm ks')))"
    and "\<forall>x\<in>set (sadr vs @ sadr nm). m' x = m x" and "seg m' 0 ks' 0"
  shows "seg m' p [Own a ty vs vi vd nm ks'] q"
  using assms by (auto intro!: str_in_frame [of m])

subsection \<open>Insertion\<close>

lemma add_item_ok:
  assumes A: "holds h p q (Own a ty vs vi vd nm ks)" and T: "seg (mem h) 0 [t] 0"
    and d: "distinct (foot [Own a ty vs vi vd nm ks] @ foot [t])"
  shows "\<exists>h'. cJSON_AddItemToArray a (jaddr t) h = Some h'
    \<and> holds h' p q (Own a ty vs vi vd nm (ks @ [t]))
    \<and> changes (foot [Own a ty vs vi vd nm (ks @ [t])]) h h'"
proof -
  note o = holds_own [OF A]
  have tn: "mem h (jaddr t) = Some (Node (node_of 0 0 t))" "jaddr t \<noteq> 0"
    using seg_Cons_node [OF T] by simp_all
  have an: "mem h a = Some (Node (node_of p q (Own a ty vs vi vd nm ks)))" using A by (simp add: holds_def)
  have ta: "jaddr t \<in> set (foot [t])" using jaddr_in_foot by simp
  have dist: "distinct (foot [Own a ty vs vi vd nm (ks @ [t])])" using d by auto
  show ?thesis
  proof (cases "ks = []")
    case True
    let ?h = "h\<lparr>mem := (mem h)(a := Some (Node (node_of p q (Own a ty vs vi vd nm [t]))))\<rparr>"
    note u = upd_node_mem [OF o(3) an, of "\<lambda>n. n\<lparr>j_child := jaddr t\<rparr>"]
    have "cJSON_AddItemToArray a (jaddr t) h = Some ?h" and ok: "heap_ok ?h"
      using u o(1) tn True by (simp_all add: cJSON_AddItemToArray_def)
    moreover have "seg (mem ?h) p [Own a ty vs vi vd nm [t]] q"
    proof (rule own_kids)
      show "seg (mem h) p [Own a ty vs vi vd nm ks] q" using A by (simp add: holds_def)
      show "mem ?h a = Some (Node (node_of p q (Own a ty vs vi vd nm [t])))" by simp
      show "\<forall>x\<in>set (sadr vs @ sadr nm). mem ?h x = mem h x" using d by auto
      show "seg (mem ?h) 0 [t] 0" using T d by simp
    qed
    ultimately show ?thesis using True dist
      by (intro exI [of _ ?h]) (simp add: holds_def changes_def)
  next
    case False
    then obtain xs w where ks: "ks = xs @ [w]" by (cases ks rule: rev_cases) auto
    have s: "seg (mem h) 0 (xs @ [w]) 0" using o(2) ks by simp
    have wf: "jaddr w \<in> set (foot (xs @ [w]))" using jaddr_in_foot [of w "xs @ [w]"] by simp
    have wn: "mem h (jaddr w) = Some (Node (node_of (final 0 xs) 0 w))"
      using s seg_Cons_node [of "mem h" "final 0 xs" w "[]" 0] by (simp add: seg_append)
    let ?m1 = "(mem h)(jaddr w := Some (Node (node_of (final 0 xs) (jaddr t) w)))"
    let ?m2 = "?m1(jaddr t := Some (Node (node_of (jaddr w) 0 t)))"
    have ne: "jaddr w \<noteq> jaddr t" "a \<noteq> jaddr w" "a \<noteq> jaddr t" using d wf ta ks by auto
    note u1 = upd_node_mem [OF o(3) wn, of "\<lambda>n. n\<lparr>j_next := jaddr t\<rparr>"]
    have t1: "mem (h\<lparr>mem := ?m1\<rparr>) (jaddr t) = Some (Node (node_of 0 0 t))" using tn ne by simp
    have ok1: "heap_ok (h\<lparr>mem := ?m1\<rparr>)" using u1(2) by simp
    note u2 = upd_node_mem [OF ok1 t1, of "\<lambda>n. n\<lparr>j_prev := jaddr w\<rparr>"]
    have l: "last_item (first ks 0) h = Some (jaddr w)" using last_item_ok [OF s] ks by simp
    have c: "first ks 0 \<noteq> 0" using first_0_iff [OF o(2)] False by simp
    have run: "cJSON_AddItemToArray a (jaddr t) h = Some (h\<lparr>mem := ?m2\<rparr>)"
      using o(1) tn(2) c l u1(1) u2(1) by (simp add: cJSON_AddItemToArray_def suffix_object_def)
    have "seg ?m1 0 (xs @ [w]) (jaddr t)" by (rule seg_set_next [OF s]) (use o(6) ks in simp)
    moreover have "jaddr t \<notin> set (foot (xs @ [w]))" using d ta ks by auto
    ultimately have "seg ?m2 0 (xs @ [w]) (jaddr t)" using seg_upd_other by blast
    moreover have "seg ?m1 0 [t] 0" using T d wf ks by (intro seg_upd_other) auto
    then have "seg ?m2 (jaddr w) [t] 0" by (rule seg_relink) (use d in simp)
    ultimately have "seg ?m2 0 ((xs @ [w]) @ [t]) 0" unfolding seg_append [of _ _ "xs @ [w]"] by simp
    then have k: "seg ?m2 0 (ks @ [t]) 0" by (simp add: ks)
    have "seg ?m2 p [Own a ty vs vi vd nm (ks @ [t])] q"
    proof (rule own_kids [OF _ _ _ k])
      show "seg (mem h) p [Own a ty vs vi vd nm ks] q" using A by (simp add: holds_def)
      show "?m2 a = Some (Node (node_of p q (Own a ty vs vi vd nm (ks @ [t]))))"
        using an ne by (cases xs) (simp_all add: ks)
      show "\<forall>x\<in>set (sadr vs @ sadr nm). ?m2 x = mem h x" using d ta wf ks by auto
    qed
    moreover have "heap_ok (h\<lparr>mem := ?m2\<rparr>)" using u2(2) by simp
    moreover have "\<forall>b. b \<notin> set (foot [Own a ty vs vi vd nm (ks @ [t])]) \<longrightarrow> ?m2 b = mem h b"
      using wf ta foot_append [of "[w]" "[t]"] by (auto simp: ks)
    ultimately show ?thesis using run dist
      by (intro exI [of _ "h\<lparr>mem := ?m2\<rparr>"]) (simp add: holds_def changes_def)
  qed
qed

subsection \<open>Detachment\<close>

lemma changes_trans: "changes as h h1 \<Longrightarrow> changes bs h1 h2 \<Longrightarrow> changes (as @ bs) h h2"
  by (simp add: changes_def)

lemma changes_mono:
  assumes "changes as h h'" "set as \<subseteq> set bs"
  shows "changes bs h h'"
  using assms unfolding changes_def by blast

lemma changes_frame:
  assumes "changes as h h'" "set bs \<inter> set as = {}"
  shows "\<forall>x\<in>set bs. mem h' x = mem h x"
  using assms unfolding changes_def by fast

lemma changes_seg:
  "changes as h h' \<Longrightarrow> set as \<inter> set (foot ts) = {} \<Longrightarrow> seg (mem h) p ts q \<Longrightarrow> seg (mem h') p ts q"
  by (rule seg_frame [of "mem h"]) (auto simp: changes_def)

lemma changes_upd:
  assumes "heap_ok h" "mem h a = Some (Node n)" "upd_node a f h = Some h'"
  shows "changes [a] h h'" "heap_ok h'" "mem h' = (mem h)(a := Some (Node (f n)))"
  using upd_node_mem [OF assms(1,2), of f] assms(3) by (auto simp: changes_def)

text \<open>The \<open>next\<close> link of the last item before, and the \<open>prev\<close> link of the first after.\<close>

lemma relink_left:
  assumes ok: "heap_ok h" and s: "seg (mem h) 0 xs q" and d: "distinct (foot xs)"
  shows "\<exists>h'. (if final 0 xs \<noteq> 0 then upd_node (final 0 xs) (\<lambda>m. m\<lparr>j_next := N\<rparr>) h else Some h) = Some h'
    \<and> seg (mem h') 0 xs N \<and> heap_ok h' \<and> changes (foot xs) h h'"
proof (cases xs rule: rev_cases)
  case Nil
  then show ?thesis using ok by simp
next
  case (snoc ys u)
  have un: "mem h (jaddr u) = Some (Node (node_of (final 0 ys) q u))" "jaddr u \<noteq> 0"
    using s seg_Cons_node [of "mem h" "final 0 ys" u "[]" q] by (auto simp: seg_append snoc)
  note u = upd_node_mem [OF ok un(1), of "\<lambda>m. m\<lparr>j_next := N\<rparr>"]
  have uf: "jaddr u \<in> set (foot xs)" using jaddr_in_foot [of u xs] snoc by simp
  have "seg ((mem h)(jaddr u := Some (Node (node_of (final 0 ys) N u)))) 0 (ys @ [u]) N"
    by (rule seg_set_next) (use s d snoc in simp_all)
  with u un(2) uf show ?thesis by (auto simp: snoc changes_def)
qed

lemma relink_right:
  assumes ok: "heap_ok h" and s: "seg (mem h) p ys 0" and d: "distinct (foot ys)"
  shows "\<exists>h'. (if first ys 0 \<noteq> 0 then upd_node (first ys 0) (\<lambda>m. m\<lparr>j_prev := P\<rparr>) h else Some h) = Some h'
    \<and> seg (mem h') P ys 0 \<and> heap_ok h' \<and> changes (foot ys) h h'"
proof (cases ys)
  case Nil
  then show ?thesis using ok by simp
next
  case (Cons u us)
  have un: "mem h (jaddr u) = Some (Node (node_of p (first us 0) u))" "jaddr u \<noteq> 0"
    using seg_Cons_node [of "mem h" p u us 0] s Cons by auto
  note u = upd_node_mem [OF ok un(1), of "\<lambda>m. m\<lparr>j_prev := P\<rparr>"]
  have uf: "jaddr u \<in> set (foot ys)" using jaddr_in_foot [of u ys] Cons by simp
  have "seg ((mem h)(jaddr u := Some (Node (node_of P (first us 0) u)))) P (u # us) 0"
    by (rule seg_relink_prev) (use s d Cons in simp_all)
  with u un(2) uf show ?thesis by (auto simp: Cons changes_def)
qed

lemma detach_ok:
  assumes A: "holds h p q (Own a ty vs vi vd nm (xs @ t # ys))"
    and w: "nat which = length xs"
  shows "\<exists>h'. cJSON_DetachItemFromArray a which h = Some (jaddr t, h')
    \<and> holds h' p q (Own a ty vs vi vd nm (xs @ ys)) \<and> holds h' 0 0 t
    \<and> changes (foot [Own a ty vs vi vd nm (xs @ t # ys)]) h h'"
proof -
  let ?ks = "xs @ t # ys"
  note o = holds_own [OF A]
  have d: "distinct (foot xs @ foot [t] @ foot ys)" "a \<notin> set (foot xs @ foot [t] @ foot ys)"
    using o(6,7) foot_append [of "[t]" ys] by auto
  have sp: "seg (mem h) 0 xs (jaddr t)" "seg (mem h) (final 0 xs) [t] (first ys 0)" "seg (mem h) (jaddr t) ys 0"
    using o(2) seg_append [of "mem h" "final 0 xs" "[t]" ys 0] by (auto simp: seg_append)
  have tn: "mem h (jaddr t) = Some (Node (node_of (final 0 xs) (first ys 0) t))" "jaddr t \<noteq> 0"
    using seg_Cons_node [OF sp(2)] by simp_all
  have tf: "jaddr t \<in> set (foot [t])" using jaddr_in_foot by simp
  from relink_left [OF o(3) sp(1), of "first ys 0"] d obtain h1 where h1:
    "(if final 0 xs \<noteq> 0 then upd_node (final 0 xs) (\<lambda>m. m\<lparr>j_next := first ys 0\<rparr>) h else Some h) = Some h1"
    "seg (mem h1) 0 xs (first ys 0)" "heap_ok h1" "changes (foot xs) h h1" by auto
  have s1: "seg (mem h1) (jaddr t) ys 0" by (rule changes_seg [OF h1(4) _ sp(3)]) (use d in auto)
  from relink_right [OF h1(3) s1, of "final 0 xs"] d obtain h2 where h2:
    "(if first ys 0 \<noteq> 0 then upd_node (first ys 0) (\<lambda>m. m\<lparr>j_prev := final 0 xs\<rparr>) h1 else Some h1) = Some h2"
    "seg (mem h2) (final 0 xs) ys 0" "heap_ok h2" "changes (foot ys) h1 h2" by auto
  have c2: "changes (foot xs @ foot ys) h h2" using changes_trans [OF h1(4) h2(4)] .
  have x2: "seg (mem h2) 0 xs (first ys 0)" by (rule changes_seg [OF h2(4) _ h1(2)]) (use d in auto)
  have a2: "mem h2 a = Some (Node (node_of p q (Own a ty vs vi vd nm ?ks)))"
    using A c2 d(2) by (auto simp: holds_def changes_def)
  define h3 where "h3 = (if xs = [] then h2\<lparr>mem := (mem h2)(a := Some (Node (node_of p q (Own a ty vs vi vd nm ys))))\<rparr> else h2)"
  have fc: "(jaddr t = first ?ks 0) \<longleftrightarrow> xs = []"
  proof (cases xs)
    case (Cons u us)
    then have "jaddr u \<in> set (foot xs)" using jaddr_in_foot [of u xs] by simp
    then show ?thesis using Cons d(1) tf by auto
  qed simp
  have r3: "(if jaddr t = first ?ks 0 then upd_node a (\<lambda>m. m\<lparr>j_child := first ys 0\<rparr>) h2 else Some h2) = Some h3"
    and ok3: "heap_ok h3" and c3: "changes [a] h2 h3"
    using upd_node_mem [OF h2(3) a2, of "\<lambda>m. m\<lparr>j_child := first ys 0\<rparr>"] h2(3) fc
    by (auto simp: h3_def changes_def)
  have a3: "mem h3 a = Some (Node (node_of p q (Own a ty vs vi vd nm (xs @ ys))))"
    using a2 by (cases xs) (auto simp: h3_def)
  have c03: "changes (foot xs @ foot ys @ [a]) h h3" using changes_trans [OF c2 c3] by simp
  have t3: "mem h3 (jaddr t) = Some (Node (node_of (final 0 xs) (first ys 0) t))"
    using tn(1) c03 tf d by (auto simp: changes_def)
  obtain h4 where u4: "upd_node (jaddr t) (\<lambda>m. m\<lparr>j_next := 0, j_prev := 0\<rparr>) h3 = Some h4"
    using upd_defined [OF t3] by blast
  note c4 = changes_upd [OF ok3 t3 u4]
  have st3: "seg (mem h3) (final 0 xs) [t] (first ys 0)"
    by (rule changes_seg [OF c03 _ sp(2)]) (use d in auto)
  have t4: "seg (mem h4) 0 [t] 0"
    unfolding c4(3) using seg_relink [OF st3, of 0 0] d by simp
  have x34: "changes [a, jaddr t] h2 h4" using changes_trans [OF c3 c4(1)] by simp
  have "seg (mem h4) 0 xs (first ys 0)" "seg (mem h4) (final 0 xs) ys 0"
    by (rule changes_seg [OF x34 _ x2], use d tf in auto) (rule changes_seg [OF x34 _ h2(2)], use d tf in auto)
  then have k4: "seg (mem h4) 0 (xs @ ys) 0" by (simp add: seg_append)
  have c04: "changes (foot xs @ foot ys @ [a, jaddr t]) h h4" using changes_trans [OF c03 c4(1)] by simp
  have "seg (mem h4) p [Own a ty vs vi vd nm (xs @ ys)] q"
  proof (rule own_kids [OF _ _ _ k4])
    show "seg (mem h) p [Own a ty vs vi vd nm ?ks] q" using A by (simp add: holds_def)
    show "mem h4 a = Some (Node (node_of p q (Own a ty vs vi vd nm (xs @ ys))))"
      using a3 c4(3) tf d(2) by auto
    have "set (sadr vs @ sadr nm) \<inter> set (foot xs @ foot ys @ [a, jaddr t]) = {}"
      using A tf foot_append [of "[t]" ys] by (auto simp: holds_def)
    then show "\<forall>x\<in>set (sadr vs @ sadr nm). mem h4 x = mem h x" by (rule changes_frame [OF c04])
  qed
  moreover have "cJSON_DetachItemFromArray a which h = Some (jaddr t, h4)"
  proof -
    have "nth_item (nat which) (first ?ks 0) h = Some (jaddr t)" using nth_item_ok [OF o(2)] w by simp
    then show ?thesis
      using o(1) tn h1(1) h2(1) r3 u4
      by (simp add: cJSON_DetachItemFromArray_def ld_Node split del: if_split cong del: if_weak_cong)
  qed
  moreover have "distinct (foot [Own a ty vs vi vd nm (xs @ ys)])"
    using A foot_append [of "[t]" ys] by (auto simp: holds_def)
  moreover have "changes (foot [Own a ty vs vi vd nm ?ks]) h h4"
    using c04 tf foot_append [of "[t]" ys] by (auto simp: changes_def)
  ultimately show ?thesis using t4 c4(2) d by (auto simp: holds_def)
qed

lemma detach_none:
  assumes A: "holds h p q (Own a ty vs vi vd nm ks)" and w: "length ks \<le> nat which"
  shows "cJSON_DetachItemFromArray a which h = Some (0, h)"
  using holds_own(1) [OF A] nth_item_ok [OF holds_own(2) [OF A], of "nat which"] w
  by (simp add: cJSON_DetachItemFromArray_def)

lemma delete_holds:
  assumes T: "holds h 0 0 t"
  shows "cJSON_Delete (jaddr t) h = Some (without (foot [t]) h)"
  using cJSON_Delete_seg [of h 0 "[t]"] T by (simp add: holds_def)

lemma holds_without:
  assumes A: "holds h p q t" and d: "set (foot [t]) \<inter> set as = {}"
  shows "holds (without as h) p q t"
  using A d by (auto simp: holds_def intro!: seg_frame [of "mem h"])

lemma foot_split:
  "NO_MATCH [] ys \<Longrightarrow> foot (t # ys) = foot [t] @ foot ys"
  using foot_append [of "[t]" ys] by simp

lemma delete_item_ok:
  assumes A: "holds h p q (Own a ty vs vi vd nm (xs @ t # ys))" and w: "nat which = length xs"
  shows "\<exists>h'. cJSON_DeleteItemFromArray a which h = Some h'
    \<and> holds h' p q (Own a ty vs vi vd nm (xs @ ys))
    \<and> (\<forall>b\<in>set (foot [t]). mem h' b = None)
    \<and> changes (foot [Own a ty vs vi vd nm (xs @ t # ys)]) h h'"
proof -
  from detach_ok [OF A w] obtain h1 where h1: "cJSON_DetachItemFromArray a which h = Some (jaddr t, h1)"
    "holds h1 p q (Own a ty vs vi vd nm (xs @ ys))" "holds h1 0 0 t"
    "changes (foot [Own a ty vs vi vd nm (xs @ t # ys)]) h h1" by blast
  have "set (foot [Own a ty vs vi vd nm (xs @ ys)]) \<inter> set (foot [t]) = {}"
    using A by (auto simp: holds_def foot_split)
  from holds_without [OF h1(2) this] h1(1,4) delete_holds [OF h1(3)] show ?thesis
    by (intro exI [of _ "without (foot [t]) h1"])
      (auto simp: cJSON_DeleteItemFromArray_def changes_def foot_split)
qed

text \<open>Detaching and deleting by name is doing so at the first matching position.\<close>

lemma detach_object:
  assumes A: "holds h p q (Own a ty vs vi vd nm ks)"
  shows "cJSON_DetachItemFromObject a k h = cJSON_DetachItemFromArray a (int (find_key k ks)) h"
proof (cases "find_key k ks < length ks")
  case True
  have "jaddr (ks ! find_key k ks) \<noteq> 0"
    using seg_jaddr_nonzero [OF holds_own(2) [OF A]] True by simp
  with True holds_own(1) [OF A] find_item_ok [OF holds_own(2) [OF A], of k] show ?thesis
    by (simp add: cJSON_DetachItemFromObject_def)
next
  case False
  with holds_own(1) [OF A] find_item_ok [OF holds_own(2) [OF A], of k] detach_none [OF A]
  show ?thesis by (simp add: cJSON_DetachItemFromObject_def)
qed

lemma delete_object:
  assumes A: "holds h p q (Own a ty vs vi vd nm ks)"
  shows "cJSON_DeleteItemFromObject a k h = cJSON_DeleteItemFromArray a (int (find_key k ks)) h"
  by (simp add: cJSON_DeleteItemFromObject_def cJSON_DeleteItemFromArray_def detach_object [OF A])

subsection \<open>Replacement\<close>

lemma replace_item_ok:
  assumes A: "holds h p q (Own a ty vs vi vd nm (xs @ t # ys))" and w: "nat which = length xs"
    and U: "seg (mem h) 0 [u] 0"
    and d: "distinct (foot [Own a ty vs vi vd nm (xs @ t # ys)] @ foot [u])"
  shows "\<exists>h'. cJSON_ReplaceItemInArray a which (jaddr u) h = Some h'
    \<and> holds h' p q (Own a ty vs vi vd nm (xs @ u # ys))
    \<and> (\<forall>b\<in>set (foot [t]). mem h' b = None)
    \<and> changes (foot [Own a ty vs vi vd nm (xs @ t # ys)] @ foot [u]) h h'"
proof -
  let ?ks = "xs @ t # ys"
  note o = holds_own [OF A]
  have dd: "distinct (foot xs @ foot [t] @ foot ys @ foot [u])"
    "a \<notin> set (foot xs @ foot [t] @ foot ys @ foot [u])"
    using d by (auto simp: foot_split)
  have sp: "seg (mem h) 0 xs (jaddr t)" "seg (mem h) (final 0 xs) [t] (first ys 0)" "seg (mem h) (jaddr t) ys 0"
    using o(2) seg_append [of "mem h" "final 0 xs" "[t]" ys 0] by (auto simp: seg_append)
  have tn: "mem h (jaddr t) = Some (Node (node_of (final 0 xs) (first ys 0) t))" "jaddr t \<noteq> 0"
    using seg_Cons_node [OF sp(2)] by simp_all
  have un: "mem h (jaddr u) = Some (Node (node_of 0 0 u))" "jaddr u \<noteq> 0"
    using seg_Cons_node [OF U] by simp_all
  have tf: "jaddr t \<in> set (foot [t])" "jaddr u \<in> set (foot [u])" using jaddr_in_foot by simp_all
  have au: "a \<noteq> jaddr u" "jaddr u \<noteq> a" using dd(2) tf by auto
  obtain h1 where u1: "upd_node (jaddr u) (\<lambda>m. m\<lparr>j_next := first ys 0, j_prev := final 0 xs\<rparr>) h = Some h1"
    using upd_defined [OF un(1)] by blast
  note c1 = changes_upd [OF o(3) un(1) u1]
  have n1: "node_of 0 0 u\<lparr>j_next := first ys 0, j_prev := final 0 xs\<rparr> = node_of (final 0 xs) (first ys 0) u"
    by (cases u) simp_all
  have U1: "seg (mem h1) (final 0 xs) [u] (first ys 0)"
    unfolding c1(3) n1 by (rule seg_relink [OF U]) (use dd in simp)
  have ys1: "seg (mem h1) (jaddr t) ys 0" by (rule changes_seg [OF c1(1) _ sp(3)]) (use dd tf in auto)
  from relink_right [OF c1(2) ys1, of "jaddr u"] dd obtain h2 where h2:
    "(if first ys 0 \<noteq> 0 then upd_node (first ys 0) (\<lambda>m. m\<lparr>j_prev := jaddr u\<rparr>) h1 else Some h1) = Some h2"
    "seg (mem h2) (jaddr u) ys 0" "heap_ok h2" "changes (foot ys) h1 h2" by auto
  have c2: "changes (jaddr u # foot ys) h h2" using changes_trans [OF c1(1) h2(4)] by simp
  have x2: "seg (mem h2) 0 xs (jaddr t)" by (rule changes_seg [OF c2 _ sp(1)]) (use dd tf in auto)
  have U2: "seg (mem h2) (final 0 xs) [u] (first ys 0)" by (rule changes_seg [OF h2(4) _ U1]) (use dd in auto)
  have a2: "mem h2 a = Some (Node (node_of p q (Own a ty vs vi vd nm ?ks)))"
    using A c2 dd(2) au by (auto simp: holds_def changes_def)
  have fc: "(jaddr t = first ?ks 0) \<longleftrightarrow> xs = []"
  proof (cases xs)
    case (Cons v us)
    then have "jaddr v \<in> set (foot xs)" using jaddr_in_foot [of v xs] by simp
    then show ?thesis using Cons dd(1) tf by auto
  qed simp
  have "\<exists>h3. (if jaddr t = first ?ks 0 then upd_node a (\<lambda>m. m\<lparr>j_child := jaddr u\<rparr>) h2
        else upd_node (final 0 xs) (\<lambda>m. m\<lparr>j_next := jaddr u\<rparr>) h2) = Some h3
      \<and> heap_ok h3 \<and> changes (a # foot xs) h2 h3 \<and> seg (mem h3) 0 xs (jaddr u)
      \<and> mem h3 a = Some (Node (node_of p q (Own a ty vs vi vd nm (xs @ u # ys))))"
  proof (cases "xs = []")
    case True
    with fc upd_node_mem [OF h2(3) a2, of "\<lambda>m. m\<lparr>j_child := jaddr u\<rparr>"] show ?thesis
      by (auto simp: changes_def)
  next
    case False
    then have fz: "final 0 xs \<noteq> 0"
      using seg_jaddr_nonzero [OF sp(1), of "last xs"] by (simp add: final_def)
    from relink_left [OF h2(3) x2, of "jaddr u"] dd fz obtain h3 where h3:
      "upd_node (final 0 xs) (\<lambda>m. m\<lparr>j_next := jaddr u\<rparr>) h2 = Some h3" "seg (mem h3) 0 xs (jaddr u)"
      "heap_ok h3" "changes (foot xs) h2 h3" by auto
    have "mem h3 a = Some (Node (node_of p q (Own a ty vs vi vd nm (xs @ u # ys))))"
      using a2 h3(4) dd(2) False by (cases xs) (auto simp: changes_def)
    moreover have "changes (a # foot xs) h2 h3" using h3(4) by (auto simp: changes_def)
    ultimately show ?thesis using h3 fc False by auto
  qed
  then obtain h3 where h3: "(if jaddr t = first ?ks 0 then upd_node a (\<lambda>m. m\<lparr>j_child := jaddr u\<rparr>) h2
        else upd_node (final 0 xs) (\<lambda>m. m\<lparr>j_next := jaddr u\<rparr>) h2) = Some h3"
      "heap_ok h3" "changes (a # foot xs) h2 h3" "seg (mem h3) 0 xs (jaddr u)"
      "mem h3 a = Some (Node (node_of p q (Own a ty vs vi vd nm (xs @ u # ys))))" by blast
  have c3: "changes (jaddr u # foot ys @ a # foot xs) h h3" using changes_trans [OF c2 h3(3)] by simp
  have t3: "mem h3 (jaddr t) = Some (Node (node_of (final 0 xs) (first ys 0) t))"
  proof -
    have "jaddr t \<notin> set (jaddr u # foot ys @ a # foot xs)" using tf dd by auto
    then show ?thesis using tn(1) c3 by (simp add: changes_def)
  qed
  obtain h4 where u4: "upd_node (jaddr t) (\<lambda>m. m\<lparr>j_next := 0, j_prev := 0\<rparr>) h3 = Some h4"
    using upd_defined [OF t3] by blast
  note c4 = changes_upd [OF h3(2) t3 u4]
  have st3: "seg (mem h3) (final 0 xs) [t] (first ys 0)" by (rule changes_seg [OF c3 _ sp(2)]) (use dd tf in auto)
  have t4: "holds h4 0 0 t"
    using seg_relink [OF st3, of 0 0] dd c4(2) unfolding holds_def c4(3) by simp
  have x34: "changes (a # foot xs @ [jaddr t]) h2 h4" using changes_trans [OF h3(3) c4(1)] by simp
  have "seg (mem h4) 0 xs (jaddr u)" by (rule changes_seg [OF c4(1) _ h3(4)]) (use dd tf in auto)
  moreover have "seg (mem h4) (final 0 xs) [u] (first ys 0)"
    by (rule changes_seg [OF x34 _ U2]) (use dd tf in auto)
  moreover have "seg (mem h4) (jaddr u) ys 0" by (rule changes_seg [OF x34 _ h2(2)]) (use dd tf in auto)
  ultimately have k4: "seg (mem h4) 0 (xs @ u # ys) 0"
    using seg_append [of "mem h4" "final 0 xs" "[u]" ys 0] by (simp add: seg_append)
  have c04: "changes (jaddr u # foot ys @ a # foot xs @ [jaddr t]) h h4"
    using changes_trans [OF c3 c4(1)] by simp
  have A4: "holds h4 p q (Own a ty vs vi vd nm (xs @ u # ys))"
    unfolding holds_def
  proof (intro conjI)
    show "heap_ok h4" by (rule c4(2))
    show "distinct (foot [Own a ty vs vi vd nm (xs @ u # ys)])" using d by (auto simp: foot_split)
    show "seg (mem h4) p [Own a ty vs vi vd nm (xs @ u # ys)] q"
    proof (rule own_kids [OF _ _ _ k4])
      show "seg (mem h) p [Own a ty vs vi vd nm ?ks] q" using A by (simp add: holds_def)
      show "mem h4 a = Some (Node (node_of p q (Own a ty vs vi vd nm (xs @ u # ys))))"
        using h3(5) c4(3) tf dd(2) by auto
      have "set (sadr vs @ sadr nm) \<inter> set (jaddr u # foot ys @ a # foot xs @ [jaddr t]) = {}"
        using d tf by (auto simp: foot_split)
      then show "\<forall>x\<in>set (sadr vs @ sadr nm). mem h4 x = mem h x" by (rule changes_frame [OF c04])
    qed
  qed
  have "nth_item (nat which) (first ?ks 0) h = Some (jaddr t)" using nth_item_ok [OF o(2)] w by simp
  then have "cJSON_ReplaceItemInArray a which (jaddr u) h = Some (without (foot [t]) h4)"
    using o(1) tn u1 h2(1) h3(1) u4 delete_holds [OF t4]
    by (simp add: cJSON_ReplaceItemInArray_def ld_Node split del: if_split cong del: if_weak_cong)
  moreover have "holds (without (foot [t]) h4) p q (Own a ty vs vi vd nm (xs @ u # ys))"
    by (rule holds_without [OF A4]) (use d in \<open>auto simp: foot_split\<close>)
  moreover have "changes (foot [Own a ty vs vi vd nm ?ks] @ foot [u]) h (without (foot [t]) h4)"
  proof -
    have "set (jaddr u # foot ys @ a # foot xs @ [jaddr t]) \<subseteq> set (foot [Own a ty vs vi vd nm ?ks] @ foot [u])"
      using tf by (auto simp: foot_split)
    from changes_mono [OF c04 this] show ?thesis by (simp add: changes_def foot_split)
  qed
  ultimately show ?thesis by auto
qed

end
