(* ===== verification/CJSON_Correct.thy ===== *)
theory CJSON_Correct
  imports CJSON_Safe CJSON_Ops
begin

text \<open>
  What the JSON library promises its callers, over the definitions of \<open>CJSON_Heap\<close>,
  \<open>CJSON_Parse\<close>, \<open>CJSON_Print\<close> and \<open>CJSON_Ops\<close>: parsing is memory safe on every well formed
  text and takes back what it allocated when it fails, it accepts the JSON grammar, the
  printer renders the represented value inside its buffers, printing and parsing again gives
  the same value, and the list operations act on the represented child lists as the list
  functions of HOL do.  Each property has a concrete instance.
\<close>

section \<open>Heaps and trees for the instances\<close>

definition heap0 :: heap where
  "heap0 = \<lparr>mem = \<lambda>_. None, brk = 1, room = \<lambda>_. True, ep = Null\<rparr>"

lemma heap0_ok [simp]: "heap_ok heap0" and heap0_room [simp]: "room heap0 = (\<lambda>_. True)"
  by (simp_all add: heap0_def heap_ok_def)

text \<open>The array \<open>[true, null]\<close> at addresses 1 to 3, and the number 7 at address 4.\<close>

definition kid1 :: jt where "kid1 = Own 2 cJSON_True None 1 (int_fl 0) None []"
definition kid2 :: jt where "kid2 = Own 3 cJSON_NULL None 0 (int_fl 0) None []"
definition arr1 :: "jt list \<Rightarrow> jt" where "arr1 ks = Own 1 cJSON_Array None 0 (int_fl 0) None ks"
definition num7 :: jt where "num7 = Own 4 cJSON_Number None 7 (int_fl 7) None []"

definition heap1 :: heap where
  "heap1 = \<lparr>mem = [1 \<mapsto> Node (node_of 0 0 (arr1 [kid1, kid2])), 2 \<mapsto> Node (node_of 0 3 kid1),
      3 \<mapsto> Node (node_of 2 0 kid2), 4 \<mapsto> Node (node_of 0 0 num7)],
    brk = 5, room = \<lambda>_. True, ep = Null\<rparr>"

lemma heap1_ok [simp]: "heap_ok heap1"
  by (auto simp: heap_ok_def heap1_def)

lemma heap1_holds: "holds heap1 0 0 (arr1 [kid1, kid2])" "holds heap1 0 0 num7"
  by (simp_all add: holds_def, simp_all add: heap1_def arr1_def kid1_def kid2_def num7_def
      str_in_def sadr_def ladr_def is_ref_def cJSON_Array_def cJSON_True_def cJSON_NULL_def cJSON_Number_def
      cJSON_IsReference_def)

section \<open>Parsing\<close>


lemma ztext_instance: "ztext (''[true, null'' @ [NUL])" "ztext (''[true,null]'' @ [NUL])"
  by (simp_all add: ztext_def is_digit_def code_def)


text \<open>C3: Every text the strict grammar derives a value from (RFC strings, numbers in range) is
  accepted when memory suffices, and the tree built represents exactly that value; the returned
  end pointer is where the derivation ends.\<close>

theorem parse_accepts_grammar:
  assumes "heap_ok h" "roomy h" "skip_text s = Some s0" "jvalue True s0 j r"
  shows "\<exists>c h' t. cJSON_ParseWithOpts (Ptr s) False h = Some (c, Some (Ptr r), h') \<and> c \<noteq> 0
     \<and> seg (mem h') 0 [t] 0 \<and> distinct (foot [t]) \<and> jaddr t = c \<and> jrep j t"
  using cJSON_ParseWithOpts_complete [OF assms] unfolding grow_def by blast

lemma jvalue_instance: "jvalue True (''[true,null]'' @ [NUL]) (JArr [JTrue, JNull]) [NUL]"
  by (simp, rule jv_arr [where ?r1.0 = "'',null]'' @ [NUL]"])
    (auto simp: code_def intro!: jvalue_jelems_jmember_jmembers.intros)

theorem parse_accepts_grammar_witness:
  "\<exists>c h' t. cJSON_ParseWithOpts (Ptr ('' [true,null]'' @ [NUL])) False heap0 = Some (c, Some (Ptr [NUL]), h') \<and> c \<noteq> 0
     \<and> seg (mem h') 0 [t] 0 \<and> distinct (foot [t]) \<and> jaddr t = c \<and> jrep (JArr [JTrue, JNull]) t"
  by (rule parse_accepts_grammar [OF heap0_ok heap0_room _ jvalue_instance]) (simp add: code_def)

text \<open>C4: A parsed document costs nothing once it is deleted: after a successful parse
  \<open>cJSON_Delete\<close> on the result is defined (no double free, no foreign pointer) and gives back
  the memory as it was before the parse.\<close>

theorem parse_delete_no_leak:
  assumes "heap_ok h" "cJSON_ParseWithOpts (Ptr s) req h = Some (c, e, h')" "c \<noteq> 0"
  shows "\<exists>h2. cJSON_Delete c h' = Some h2 \<and> mem h2 = mem h \<and> heap_ok h2"
proof -
  from cJSON_ParseWithOpts_sound [OF assms(1,2)] assms(3) obtain t where
    "jaddr t = c" "seg (mem h') 0 [t] 0" "grow {} (foot [t]) h h'"
    by (auto simp: parsed_def)
  with grow_delete [OF assms(1)] show ?thesis by fastforce
qed

theorem parse_delete_no_leak_witness:
  "\<exists>c e h' h2. cJSON_ParseWithOpts (Ptr (''[true,null]'' @ [NUL])) False heap0 = Some (c, e, h') \<and> c \<noteq> 0
    \<and> cJSON_Delete c h' = Some h2 \<and> mem h2 = mem heap0"
proof -
  have "skip_text (''[true,null]'' @ [NUL]) = Some (''[true,null]'' @ [NUL])" by (simp add: code_def)
  from cJSON_ParseWithOpts_complete [OF heap0_ok heap0_room this jvalue_instance] obtain c e h'
    where run: "cJSON_ParseWithOpts (Ptr (''[true,null]'' @ [NUL])) False heap0 = Some (c, e, h')" "c \<noteq> 0"
    by blast
  from parse_delete_no_leak [OF heap0_ok run] run show ?thesis by blast
qed

text \<open>A unicode escape cut off by the closing quote makes the parser leave its objects: the
  first pass stops at the quote and sizes the buffer by it, the decoding pass skips the quote
  (an undefined run of the model), although no more than a truncated escape is wrong with the
  text and the buffer it is in goes on.\<close>

lemma truncated_unicode_escape_overflows:
  "cJSON_Parse (Ptr ([QUOTE, BSLASH] @ ''u12'' @ [QUOTE] @ ''aaaaaaaa'' @ [NUL])) heap0 = None"
proof -
  have n: "(4::nat) = Suc (Suc (Suc (Suc 0)))" by simp
  have "parse_hex4 (''12'' @ [QUOTE] @ ''aaaaaaaa'' @ [NUL]) = Some 0"
    unfolding parse_hex4_def n by (simp add: hex_val_def code_def)
  then have "unicode_escape (''12'' @ [QUOTE] @ ''aaaaaaaa'' @ [NUL]) = Some ([], ''aaaaaaa'' @ [NUL])"
    by (simp add: unicode_escape_def advance_def)
  moreover have "scan_len ([BSLASH] @ ''u12'' @ [QUOTE] @ ''aaaaaaaa'' @ [NUL]) = Some 3" by code_simp
  ultimately have "parse_string 1 ([QUOTE, BSLASH] @ ''u12'' @ [QUOTE] @ ''aaaaaaaa'' @ [NUL]) h = None"
    if "roomy h" "brk h \<noteq> 0" for h
    using unesc_unicode [of "''12'' @ [QUOTE] @ ''aaaaaaaa'' @ [NUL]"] that
    by (simp add: parse_string_def c_malloc_def emit_def unesc.simps Let_def)
  then show ?thesis
    by (simp add: cJSON_Parse_def cJSON_ParseWithOpts_def cJSON_New_Item_def c_malloc_def heap0_def
        parse_value_def parse_fuel_def text_of_def code_def parse_value_body_def)
qed

section \<open>Printing\<close>


lemma arr1_rep: "jrep (JArr [JTrue, JNull]) (arr1 [kid1, kid2])"
  by (simp add: arr1_def kid1_def kid2_def)

lemma arr1_text: "pj False 0 (JArr [JTrue, JNull]) = ''[true,null]''"
  by simp


text \<open>The rendering of a value is parsed into a tree that represents it.\<close>

lemma parse_rendering:
  assumes "heap_ok h" "roomy h" "jok j"
  shows "\<exists>c h2 t. cJSON_Parse (Ptr (pj fmt 0 j @ [NUL])) h = Some (c, h2) \<and> c \<noteq> 0
    \<and> seg (mem h2) 0 [t] 0 \<and> distinct (foot [t]) \<and> jaddr t = c \<and> jrep j t"
proof -
  have j: "jvalue True (pj fmt 0 j @ [NUL]) j [NUL]"
    using print_derivable(1) [OF assms(3), of fmt 0] by simp
  have "skip_text (pj fmt 0 j @ [NUL]) = Some (pj fmt 0 j @ [NUL])"
    by (rule skip_visible [OF visible_append [OF visible_pj [OF assms(3)]]])
  from cJSON_ParseWithOpts_complete [OF assms(1,2) this j] show ?thesis
    by (fastforce simp: cJSON_Parse_def grow_def)
qed

text \<open>C6: Parsing what was printed gives the value back: for every represented value whose numbers
  are ints and whose strings are NUL free, in any position of a document, the text rendered with or
  without formatting is parsed into a new tree that represents the same value.\<close>

theorem parse_print_roundtrip:
  assumes "heap_ok h" "seg (mem h) p [t] q" "distinct (foot [t])" "jrep j t" "jok j" "roomy h"
  shows "\<exists>r h1 s c h2 t'. (if fmt then cJSON_Print else cJSON_PrintUnformatted) (jaddr t) h = Some (r, h1)
    \<and> ld_str r h1 = Some s \<and> cJSON_Parse (Ptr (s @ [NUL])) h1 = Some (c, h2) \<and> c \<noteq> 0
    \<and> seg (mem h2) 0 [t'] 0 \<and> distinct (foot [t']) \<and> jaddr t' = c \<and> jrep j t'"
proof -
  from printed [OF assms(1-4) jok_nums(1) [OF assms(5)], of fmt] obtain r h1 where
    r: "print_value (brk h) fmt (jaddr t) 0 h = Some (r, h1)" "rendered h r h1 (pj fmt 0 j)" by blast
  have h1: "heap_ok h1" "roomy h1" "ld_str r h1 = Some (pj fmt 0 j)"
    using r(2) assms(6) by (auto simp: rendered_def grow_def ld_str_def split: if_splits)
  from parse_rendering [OF h1(1,2) assms(5), of fmt] obtain c h2 t' where
    "cJSON_Parse (Ptr (pj fmt 0 j @ [NUL])) h1 = Some (c, h2)" "c \<noteq> 0"
    "seg (mem h2) 0 [t'] 0" "distinct (foot [t'])" "jaddr t' = c" "jrep j t'" by blast
  with r(1) h1(3) show ?thesis by (cases fmt) (auto simp: cJSON_Print_def cJSON_PrintUnformatted_def)
qed

theorem parse_print_roundtrip_witness:
  "\<exists>r h1 s c h2 t'. cJSON_Print 4 heap1 = Some (r, h1) \<and> ld_str r h1 = Some s
    \<and> cJSON_Parse (Ptr (s @ [NUL])) h1 = Some (c, h2) \<and> c \<noteq> 0
    \<and> seg (mem h2) 0 [t'] 0 \<and> distinct (foot [t']) \<and> jaddr t' = c \<and> jrep (JNum 7 (int_fl 7)) t'"
proof -
  have "jaddr num7 = 4" "jrep (JNum 7 (int_fl 7)) num7" "jok (JNum 7 (int_fl 7))" "roomy heap1"
    by (simp_all add: num7_def heap1_def INT_MIN_def INT_MAX_def)
  with parse_print_roundtrip [OF heap1_ok _ _ this(2,3,4), of 0 0 True] heap1_holds(2) show ?thesis
    by (simp add: holds_def)
qed

section \<open>Deleting\<close>

text \<open>C8: \<open>cJSON_Delete\<close> on a document whose nodes are all its own frees exactly its nodes and
  strings, each once, and reads nothing it has freed; the document may have siblings after it,
  which go with it.\<close>

theorem delete_frees_exactly:
  assumes "heap_ok h" "seg (mem h) p ts 0" "distinct (foot ts)"
  shows "\<exists>h'. cJSON_Delete (first ts 0) h = Some h' \<and> heap_ok h'
    \<and> (\<forall>a. mem h' a = (if a \<in> set (foot ts) then None else mem h a))"
  using cJSON_Delete_seg [OF assms(2,3)] assms(1) by (auto simp: without_def heap_ok_def)

theorem delete_frees_exactly_witness:
  "\<exists>h'. cJSON_Delete 1 heap1 = Some h' \<and> mem h' 1 = None \<and> mem h' 2 = None \<and> mem h' 3 = None
    \<and> mem h' 4 = mem heap1 4"
proof -
  have f: "first [arr1 [kid1, kid2]] 0 = 1" "foot [arr1 [kid1, kid2]] = [1, 2, 3]"
    by (simp_all add: first_def arr1_def kid1_def kid2_def sadr_def)
  from delete_frees_exactly [OF heap1_ok, of 0 "[arr1 [kid1, kid2]]"] heap1_holds(1) show ?thesis
    unfolding f holds_def by auto
qed

section \<open>Child lists\<close>



text \<open>C10: \<open>cJSON_AddItemToArray\<close> appends: a free-standing item becomes the last child, every
  link of the array is right again, and only the array's and the item's own addresses change.\<close>

theorem add_appends:
  assumes "holds h p q (Own a ty vs vi vd nm ks)" "seg (mem h) 0 [t] 0"
    and "distinct (foot [Own a ty vs vi vd nm ks] @ foot [t])"
  shows "\<exists>h'. cJSON_AddItemToArray a (jaddr t) h = Some h' \<and> holds h' p q (Own a ty vs vi vd nm (ks @ [t]))
    \<and> changes (foot [Own a ty vs vi vd nm (ks @ [t])]) h h'"
  by (rule add_item_ok [OF assms])

lemma arr1_num7_disjoint: "distinct (foot [arr1 [kid1, kid2]] @ foot [num7])"
  by (simp add: arr1_def kid1_def kid2_def num7_def sadr_def)

theorem add_appends_witness:
  "\<exists>h'. cJSON_AddItemToArray 1 4 heap1 = Some h' \<and> holds h' 0 0 (arr1 [kid1, kid2, num7])"
  using add_appends [OF heap1_holds(1) [unfolded arr1_def], of num7] heap1_holds(2) arr1_num7_disjoint
  by (auto simp: holds_def arr1_def num7_def)

text \<open>C11: \<open>cJSON_DetachItemFromArray\<close> takes the child at the position out of the list: it returns
  its address, the array keeps the other children in order, the item is a free-standing tree again and
  nothing outside the array changes; a position past the end returns null and changes nothing.\<close>

theorem detach_removes:
  assumes "holds h p q (Own a ty vs vi vd nm ks)"
  shows "if nat i < length ks
    then \<exists>h'. cJSON_DetachItemFromArray a i h = Some (jaddr (ks ! nat i), h')
      \<and> holds h' p q (Own a ty vs vi vd nm (take (nat i) ks @ drop (Suc (nat i)) ks))
      \<and> holds h' 0 0 (ks ! nat i) \<and> changes (foot [Own a ty vs vi vd nm ks]) h h'
    else cJSON_DetachItemFromArray a i h = Some (0, h)"
proof (cases "nat i < length ks")
  case True
  then have e: "take (nat i) ks @ ks ! nat i # drop (Suc (nat i)) ks = ks"
    by (rule id_take_nth_drop [symmetric])
  have "nat i = length (take (nat i) ks)" using True by simp
  from detach_ok [of h p q a ty vs vi vd nm "take (nat i) ks" "ks ! nat i" "drop (Suc (nat i)) ks", unfolded e, OF assms this]
  show ?thesis using True by simp
next
  case False
  with detach_none [OF assms, of i] show ?thesis by simp
qed

theorem detach_removes_witness:
  "(\<exists>h'. cJSON_DetachItemFromArray 1 0 heap1 = Some (2, h') \<and> holds h' 0 0 (arr1 [kid2]) \<and> holds h' 0 0 kid1)"
  using detach_removes [OF heap1_holds(1) [unfolded arr1_def], of 0]
  by (auto simp: arr1_def [symmetric]) (auto simp: arr1_def kid1_def)

text \<open>C12: \<open>cJSON_ReplaceItemInArray\<close> puts a free-standing item in the place of the child at the
  position and deletes that child: the list is updated at the position, the old child's nodes and
  strings are free, and nothing else changes.\<close>

theorem replace_updates:
  assumes "holds h p q (Own a ty vs vi vd nm ks)" "nat i < length ks" "seg (mem h) 0 [u] 0"
    and "distinct (foot [Own a ty vs vi vd nm ks] @ foot [u])"
  shows "\<exists>h'. cJSON_ReplaceItemInArray a i (jaddr u) h = Some h'
    \<and> holds h' p q (Own a ty vs vi vd nm (ks[nat i := u]))
    \<and> (\<forall>b\<in>set (foot [ks ! nat i]). mem h' b = None)
    \<and> changes (foot [Own a ty vs vi vd nm ks] @ foot [u]) h h'"
proof -
  have e: "take (nat i) ks @ ks ! nat i # drop (Suc (nat i)) ks = ks"
    by (rule id_take_nth_drop [OF assms(2), symmetric])
  have "nat i = length (take (nat i) ks)" using assms(2) by simp
  from replace_item_ok [of h p q a ty vs vi vd nm "take (nat i) ks" "ks ! nat i" "drop (Suc (nat i)) ks", unfolded e,
      OF assms(1) this assms(3,4)] show ?thesis
    by (simp add: upd_conv_take_nth_drop [OF assms(2)])
qed

theorem replace_updates_witness:
  "\<exists>h'. cJSON_ReplaceItemInArray 1 1 4 heap1 = Some h' \<and> holds h' 0 0 (arr1 [kid1, num7]) \<and> mem h' 3 = None"
  using replace_updates [OF heap1_holds(1) [unfolded arr1_def], of 1 num7] heap1_holds(2) arr1_num7_disjoint
  by (auto simp: holds_def arr1_def [symmetric]) (auto simp: arr1_def num7_def kid2_def)

text \<open>\<open>cJSON_DeleteItemFromObject\<close> removes the first member whose name agrees up to letter
  case and frees it; without such a member nothing changes.\<close>

lemma delete_member:
  assumes "holds h p q (Own a ty vs vi vd nm ks)"
  shows "if \<exists>t\<in>set ks. key_matches k t
    then \<exists>xs t ys h'. ks = xs @ t # ys \<and> key_matches k t \<and> (\<forall>x\<in>set xs. \<not> key_matches k x)
      \<and> cJSON_DeleteItemFromObject a k h = Some h' \<and> holds h' p q (Own a ty vs vi vd nm (xs @ ys))
      \<and> (\<forall>b\<in>set (foot [t]). mem h' b = None) \<and> changes (foot [Own a ty vs vi vd nm ks]) h h'
    else cJSON_DeleteItemFromObject a k h = Some h"
proof (cases "\<exists>t\<in>set ks. key_matches k t")
  case True
  then have f: "find_key k ks < length ks" by (induction ks) auto
  let ?n = "find_key k ks"
  have e: "take ?n ks @ ks ! ?n # drop (Suc ?n) ks = ks" by (rule id_take_nth_drop [OF f, symmetric])
  have "nat (int ?n) = length (take ?n ks)" using f by simp
  from delete_item_ok [of h p q a ty vs vi vd nm "take ?n ks" "ks ! ?n" "drop (Suc ?n) ks", unfolded e, OF assms this]
  obtain h' where
    "cJSON_DeleteItemFromArray a (int ?n) h = Some h'" "holds h' p q (Own a ty vs vi vd nm (take ?n ks @ drop (Suc ?n) ks))"
    "\<forall>b\<in>set (foot [ks ! ?n]). mem h' b = None" "changes (foot [Own a ty vs vi vd nm ks]) h h'"
    by blast
  moreover have "\<forall>x\<in>set (take ?n ks). \<not> key_matches k x"
    using find_key_before [of _ k ks] f by (auto simp: in_set_conv_nth)
  ultimately show ?thesis
    using True find_key_nth [OF f] e delete_object [OF assms, of k] by (intro if_P [THEN iffD2]) metis+
next
  case False
  then have "find_key k ks = length ks" by (induction ks) auto
  with False delete_object [OF assms, of k] detach_none [OF assms, of "int (find_key k ks)"] show ?thesis
    by (simp add: cJSON_DeleteItemFromArray_def cJSON_Delete.simps)
qed

text \<open>The object \<open>{"a": true, "b": null}\<close> at addresses 1 to 5.\<close>

definition mem_a :: jt where "mem_a = Own 2 cJSON_True None 1 (int_fl 0) (Some (3, ''a'')) []"
definition mem_b :: jt where "mem_b = Own 4 cJSON_NULL None 0 (int_fl 0) (Some (5, ''b'')) []"
definition obj2 :: "jt list \<Rightarrow> jt" where "obj2 ks = Own 1 cJSON_Object None 0 (int_fl 0) None ks"

definition heap2 :: heap where
  "heap2 = \<lparr>mem = [1 \<mapsto> Node (node_of 0 0 (obj2 [mem_a, mem_b])), 2 \<mapsto> Node (node_of 0 4 mem_a),
      3 \<mapsto> Buf ''a'', 4 \<mapsto> Node (node_of 2 0 mem_b), 5 \<mapsto> Buf ''b''],
    brk = 6, room = \<lambda>_. True, ep = Null\<rparr>"

lemma heap2_holds: "holds heap2 0 0 (obj2 [mem_a, mem_b])"
  by (simp add: holds_def heap_ok_def, simp add: heap2_def obj2_def mem_a_def mem_b_def
      str_in_def sadr_def ladr_def is_ref_def cJSON_Object_def cJSON_True_def cJSON_NULL_def cJSON_IsReference_def)

lemma mem_keys: "\<not> key_matches ''B'' mem_a" "key_matches ''B'' mem_b"
  by (code_simp, code_simp)

lemma delete_member_example:
  "\<exists>h'. cJSON_DeleteItemFromObject 1 ''B'' heap2 = Some h' \<and> holds h' 0 0 (obj2 [mem_a])
    \<and> mem h' 4 = None \<and> mem h' 5 = None"
proof -
  have ex: "\<exists>t\<in>set [mem_a, mem_b]. key_matches ''B'' t" using mem_keys by simp
  from delete_member [OF heap2_holds [unfolded obj2_def], of "''B''"] ex obtain xs t ys h' where
    r: "[mem_a, mem_b] = xs @ t # ys" "key_matches ''B'' t"
    "cJSON_DeleteItemFromObject 1 ''B'' heap2 = Some h'" "holds h' 0 0 (obj2 (xs @ ys))"
    "\<forall>b\<in>set (foot [t]). mem h' b = None"
    by (auto simp: obj2_def simp del: bex_simps)
  from r(1,2) mem_keys have "xs = [mem_a]" "t = mem_b" "ys = []"
    by (auto simp: append_eq_Cons_conv Cons_eq_append_conv)
  with r(3-5) show ?thesis by (auto simp: mem_b_def sadr_def)
qed

end
