(* ===== verification/CJSON_Minify.thy ===== *)
theory CJSON_Minify
  imports CJSON_Correct
begin

text \<open>
  \<open>cJSON_Minify\<close> of \<open>common/cJSON.c\<close>: removes white space and comments from a text in place, with a
  reading index that never falls behind the writing one.  The second half shows that working in place makes no
  difference, and that the parser reads the same value from the result.
\<close>

section \<open>The code\<close>

abbreviation SLASH :: char where "SLASH \<equiv> CHR ''/''"
abbreviation STAR :: char where "STAR \<equiv> CHR ''*''"

text \<open>The buffer, the index \<open>json\<close> and the index \<open>into\<close>; \<open>*into++ = *json++\<close>.\<close>

definition copy1 :: "string \<Rightarrow> nat \<Rightarrow> nat \<Rightarrow> (string \<times> nat \<times> nat) option" where
  "copy1 b i k = do { c \<leftarrow> nth_opt b i; b \<leftarrow> upd_opt b k c; Some (b, Suc i, Suc k) }"

partial_function (option) minify_line :: "string \<Rightarrow> nat \<Rightarrow> nat option" where
  "minify_line b i = do {
     c \<leftarrow> nth_opt b i;
     (if c \<noteq> NUL \<and> c \<noteq> CHR 0x0A then minify_line b (Suc i) else Some i) }"

partial_function (option) minify_block :: "string \<Rightarrow> nat \<Rightarrow> nat option" where
  "minify_block b i = do {
     c \<leftarrow> nth_opt b i;
     (if c = NUL then Some i
      else if c \<noteq> STAR then minify_block b (Suc i)
      else do { d \<leftarrow> nth_opt b (Suc i); (if d = SLASH then Some i else minify_block b (Suc i)) }) }"

partial_function (option) minify_literal :: "string \<Rightarrow> nat \<Rightarrow> nat \<Rightarrow> (string \<times> nat \<times> nat) option" where
  "minify_literal b i k = do {
     c \<leftarrow> nth_opt b i;
     (if c \<noteq> NUL \<and> c \<noteq> QUOTE then do {
        (b, i, k) \<leftarrow> (if c = BSLASH then copy1 b i k else Some (b, i, k));
        (b, i, k) \<leftarrow> copy1 b i k;
        minify_literal b i k
      } else Some (b, i, k)) }"

partial_function (option) minify_loop :: "string \<Rightarrow> nat \<Rightarrow> nat \<Rightarrow> (string \<times> nat) option" where
  "minify_loop b i k = do {
     c \<leftarrow> nth_opt b i;
     (if c = NUL then Some (b, k)
      else if c \<in> {CHR '' '', CHR 0x09, CHR 0x0D, CHR 0x0A} then minify_loop b (Suc i) k
      else do {
        d \<leftarrow> (if c = SLASH then nth_opt b (Suc i) else Some NUL);
        (if c = SLASH \<and> d = SLASH then do { i \<leftarrow> minify_line b i; minify_loop b i k }
         else if c = SLASH \<and> d = STAR then do { i \<leftarrow> minify_block b i; minify_loop b (i + 2) k }
         else if c = QUOTE then do {
           (b, i, k) \<leftarrow> copy1 b i k;
           (b, i, k) \<leftarrow> minify_literal b i k;
           (b, i, k) \<leftarrow> copy1 b i k;
           minify_loop b i k
         } else do { (b, i, k) \<leftarrow> copy1 b i k; minify_loop b i k })
      }) }"

declare minify_line.simps [code] minify_block.simps [code] minify_literal.simps [code] minify_loop.simps [code]

definition cJSON_Minify :: "string \<Rightarrow> string option" where
  "cJSON_Minify json = do { (b, k) \<leftarrow> minify_loop json 0 0; upd_opt b k NUL }"

section \<open>Minified text\<close>

text \<open>What is kept of a text, character by character.\<close>

datatype mode = Plain | Line | Block | Literal

fun kept :: "mode \<Rightarrow> string \<Rightarrow> string option" where
  "kept m [] = None"
| "kept Plain (c # s) =
     (if c = NUL then Some []
      else if c \<in> {CHR '' '', CHR 0x09, CHR 0x0D, CHR 0x0A} then kept Plain s
      else if c = SLASH then
        (case s of [] \<Rightarrow> None
         | d # s' \<Rightarrow> if d = SLASH then kept Line s' else if d = STAR then kept Block s else map_option ((#) c) (kept Plain s))
      else map_option ((#) c) (kept (if c = QUOTE then Literal else Plain) s))"
| "kept Line (c # s) = (if c = NUL then Some [] else if c = CHR 0x0A then kept Plain s else kept Line s)"
| "kept Block (c # s) =
     (case s of [] \<Rightarrow> None
      | d # s' \<Rightarrow> if c = NUL \<or> c = STAR \<and> d = SLASH then kept Plain s' else kept Block s)"
| "kept Literal (c # s) =
     (if c = NUL \<or> c = QUOTE then map_option ((#) c) (kept Plain s)
      else if c = BSLASH then (case s of [] \<Rightarrow> None | d # s' \<Rightarrow> map_option (\<lambda>x. c # d # x) (kept Literal s'))
      else map_option ((#) c) (kept Literal s))"

text \<open>The buffer after the rest of the text was written from index \<open>k\<close> on.\<close>

definition written :: "string \<Rightarrow> nat \<Rightarrow> string option \<Rightarrow> (string \<times> nat) option" where
  "written b k out = map_option (\<lambda>x. (take k b @ x @ drop (k + length x) b, k + length x)) out"

lemma drop_nth_opt: "nth_opt b i = (case drop i b of [] \<Rightarrow> None | c # s \<Rightarrow> Some c)"
  by (cases "i < length b") (auto simp: Cons_nth_drop_Suc [symmetric])

lemma drop_step: "drop i b = c # s \<Longrightarrow> drop (Suc i) b = s"
  by (metis drop_Suc list.sel(3) tl_drop)

lemma copy1_step:
  assumes "drop i b = c # s" "k \<le> i"
  shows "copy1 b i k = Some (b[k := c], Suc i, Suc k)" "drop (Suc i) (b[k := c]) = s" "Suc k \<le> Suc i"
    "take (Suc k) (b[k := c]) = take k b @ [c]" "drop (Suc k + n) (b[k := c]) = drop (Suc k + n) b"
proof -
  have i: "i < length b" using assms(1) by (metis drop_all linorder_not_le list.distinct(1))
  with assms show "copy1 b i k = Some (b[k := c], Suc i, Suc k)" by (simp add: copy1_def drop_nth_opt)
  show "drop (Suc i) (b[k := c]) = s" using assms(2) drop_step [OF assms(1)] by (simp add: drop_update_cancel)
  show "take (Suc k) (b[k := c]) = take k b @ [c]" using i assms(2) by (simp add: take_Suc_conv_app_nth)
  show "drop (Suc k + n) (b[k := c]) = drop (Suc k + n) b" by (simp add: drop_update_cancel)
qed (use assms(2) in simp)

lemma written_step:
  assumes "drop i b = c # s" "k \<le> i"
  shows "written (b[k := c]) (Suc k) out = written b k (map_option ((#) c) out)"
  using copy1_step(4,5) [OF assms] by (cases out) (auto simp: written_def)

lemma line_runs:
  "drop i b = s \<Longrightarrow> (case minify_line b i of None \<Rightarrow> kept Line s = None | Some j \<Rightarrow> i \<le> j \<and> kept Line s = kept Plain (drop j b)
     \<and> (\<exists>c t. drop j b = c # t \<and> c \<in> {NUL, CHR 0x0A}))"
proof (induction s arbitrary: i)
  case Nil
  then show ?case by (subst minify_line.simps) (simp add: drop_nth_opt)
next
  case (Cons c s)
  note d = drop_step [OF Cons.prems]
  show ?case
  proof (cases "c = NUL \<or> c = CHR 0x0A")
    case True
    with Cons.prems show ?thesis by (subst minify_line.simps) (auto simp: drop_nth_opt)
  next
    case False
    with Cons.IH [OF d] Cons.prems show ?thesis
      by (subst minify_line.simps) (auto simp: drop_nth_opt split: option.splits)
  qed
qed

lemma block_runs:
  "drop i b = s \<Longrightarrow> (case minify_block b i of None \<Rightarrow> kept Block s = None
     | Some j \<Rightarrow> i \<le> j \<and> kept Block s = kept Plain (drop (j + 2) b))"
proof (induction s arbitrary: i)
  case Nil
  then show ?case by (subst minify_block.simps) (simp add: drop_nth_opt)
next
  case (Cons c s)
  note d = drop_step [OF Cons.prems]
  have d2: "drop (i + 2) b = drop 1 s" using d by (metis add_2_eq_Suc' drop_Suc drop_drop One_nat_def add.commute plus_1_eq_Suc)
  show ?case
  proof (cases s)
    case Nil
    with Cons.prems d d2 Cons.IH [OF d] show ?thesis
      by (subst minify_block.simps) (auto simp: drop_nth_opt split: option.splits)
  next
    case (Cons e s')
    with Cons.prems d d2 Cons.IH [OF d] show ?thesis
      by (subst minify_block.simps) (auto simp: drop_nth_opt split: option.splits)
  qed
qed

lemma copy1_end: "drop i b = [] \<Longrightarrow> copy1 b i k = None"
  by (simp add: copy1_def drop_nth_opt)

lemma minify_literal_runs:
  "drop i b = s \<Longrightarrow> k \<le> i \<Longrightarrow> (case minify_literal b i k of None \<Rightarrow> kept Literal s = None
     | Some (b', j, k') \<Rightarrow> k' \<le> j \<and> written b k (kept Literal s) = written b' k' (kept Literal (drop j b'))
        \<and> (\<exists>c t. drop j b' = c # t \<and> c \<in> {NUL, QUOTE} \<and> length t < length s))"
proof (induction "length s" arbitrary: i b s k rule: less_induct)
  case less
  show ?case
  proof (cases s)
    case Nil
    with less.prems show ?thesis by (subst minify_literal.simps) (simp add: drop_nth_opt)
  next
    case (Cons c s1)
    note d1 = less.prems(1) [unfolded Cons] and st = copy1_step [OF less.prems(1) [unfolded Cons] less.prems(2)]
      and w = written_step [OF less.prems(1) [unfolded Cons] less.prems(2)]
    have c: "nth_opt b i = Some c" using d1 by (simp add: drop_nth_opt)
    consider "c \<in> {NUL, QUOTE}" | "c \<notin> {NUL, QUOTE, BSLASH}" | "c = BSLASH" by blast
    then show ?thesis
    proof cases
      case 1
      with c less.prems Cons show ?thesis by (subst minify_literal.simps) auto
    next
      case 2
      have IH: "case minify_literal (b[k := c]) (Suc i) (Suc k) of None \<Rightarrow> kept Literal s1 = None
         | Some (b', j, k') \<Rightarrow> k' \<le> j \<and> written (b[k := c]) (Suc k) (kept Literal s1) = written b' k' (kept Literal (drop j b'))
            \<and> (\<exists>c t. drop j b' = c # t \<and> c \<in> {NUL, QUOTE} \<and> length t < length s1)"
        by (rule less.hyps) (use Cons st in simp_all)
      have r: "minify_literal b i k = minify_literal (b[k := c]) (Suc i) (Suc k)"
        using 2 c st(1) by (subst minify_literal.simps) simp
      from 2 Cons IH w show ?thesis unfolding r by (auto split: option.splits)
    next
      case 3
      show ?thesis
      proof (cases s1)
        case Nil
        with 3 c st Cons show ?thesis by (subst minify_literal.simps) (simp add: copy1_end)
      next
        case (Cons e s2)
        let ?b = "b[k := c]" and ?b2 = "b[k := c, Suc k := e]"
        note st2 = copy1_step [OF st(2) [unfolded Cons] st(3)] and w2 = written_step [OF st(2) [unfolded Cons] st(3)]
        have IH: "case minify_literal ?b2 (Suc (Suc i)) (Suc (Suc k)) of None \<Rightarrow> kept Literal s2 = None
           | Some (b', j, k') \<Rightarrow> k' \<le> j \<and> written ?b2 (Suc (Suc k)) (kept Literal s2) = written b' k' (kept Literal (drop j b'))
              \<and> (\<exists>c t. drop j b' = c # t \<and> c \<in> {NUL, QUOTE} \<and> length t < length s2)"
          by (rule less.hyps) (use \<open>s = c # s1\<close> Cons st2 in simp_all)
        have r: "minify_literal b i k = minify_literal ?b2 (Suc (Suc i)) (Suc (Suc k))"
          using 3 c st(1) st2(1) by (subst minify_literal.simps) simp
        have "kept Literal s = map_option ((#) c) (map_option ((#) e) (kept Literal s2))"
          using 3 Cons \<open>s = c # s1\<close> by (simp add: option.map_comp comp_def)
        then have "written b k (kept Literal s) = written ?b2 (Suc (Suc k)) (kept Literal s2)" using w w2 by simp
        with 3 Cons \<open>s = c # s1\<close> IH show ?thesis unfolding r by (auto split: option.splits)
      qed
    qed
  qed
qed

lemma minify_loop_runs: "drop i b = s \<Longrightarrow> k \<le> i \<Longrightarrow> minify_loop b i k = written b k (kept Plain s)"
proof (induction "length s" arbitrary: i b s k rule: less_induct)
  case less
  show ?case
  proof (cases s)
    case Nil
    with less.prems show ?thesis by (subst minify_loop.simps) (simp add: drop_nth_opt written_def)
  next
    case (Cons c s1)
    note d1 = less.prems(1) [unfolded Cons] and st = copy1_step [OF less.prems(1) [unfolded Cons] less.prems(2)]
      and w = written_step [OF less.prems(1) [unfolded Cons] less.prems(2)]
    have c: "nth_opt b i = Some c" "nth_opt b (Suc i) = (case s1 of [] \<Rightarrow> None | e # s2 \<Rightarrow> Some e)"
      using d1 drop_step [OF d1] by (simp_all add: drop_nth_opt)
    have IH: "minify_loop b' j k' = written b' k' (kept Plain (drop j b'))" if "length (drop j b') < length s" "k' \<le> j" for b' j k'
      using less.hyps [OF that(1) refl that(2)] .
    let ?ws = "{CHR '' '', CHR 0x09, CHR 0x0D, CHR 0x0A}"
    have copied: "minify_loop (b[k := c]) (Suc i) (Suc k) = written b k (map_option ((#) c) (kept Plain s1))"
      using IH [of "Suc i" "b[k := c]" "Suc k"] st Cons w by simp
    consider "c = NUL" | "c \<in> ?ws" | "c = SLASH" | "c = QUOTE" | "c \<notin> {NUL, SLASH, QUOTE} \<union> ?ws" by blast
    then show ?thesis
    proof cases
      case 1
      with c Cons show ?thesis by (subst minify_loop.simps) (simp add: written_def)
    next
      case 2
      have "minify_loop b (Suc i) k = written b k (kept Plain s1)"
        using IH [of "Suc i" b k] drop_step [OF d1] Cons less.prems(2) by simp
      with 2 c Cons show ?thesis by (subst minify_loop.simps) auto
    next
      case 5
      with c Cons copied st(1) show ?thesis by (subst minify_loop.simps) auto
    next
      case 4
      then have k: "kept Plain s = map_option ((#) c) (kept Literal s1)" using Cons by simp
      note l = minify_literal_runs [OF st(2,3)]
      have "minify_loop b i k = do { (b, i, k) \<leftarrow> minify_literal (b[k := c]) (Suc i) (Suc k);
           (b, i, k) \<leftarrow> copy1 b i k; minify_loop b i k }"
        using 4 c st(1) by (subst minify_loop.simps) simp
      also have "\<dots> = written b k (kept Plain s)"
      proof (cases "minify_literal (b[k := c]) (Suc i) (Suc k)")
        case None
        with l k show ?thesis by (simp add: written_def)
      next
        case (Some r)
        obtain b' j k' where r: "r = (b', j, k')" by (cases r)
        with Some l obtain q t where q: "k' \<le> j" "written (b[k := c]) (Suc k) (kept Literal s1) = written b' k' (kept Literal (drop j b'))"
          "drop j b' = q # t" "q \<in> {NUL, QUOTE}" "length t < length s1" by auto
        note st2 = copy1_step [OF q(3,1)]
        have "minify_loop (b'[k' := q]) (Suc j) (Suc k') = written (b'[k' := q]) (Suc k') (kept Plain t)"
          using IH [of "Suc j" "b'[k' := q]" "Suc k'"] st2 Cons q(5) by simp
        also have "\<dots> = written b' k' (kept Literal (drop j b'))" using written_step [OF q(3,1)] q(3,4) by auto
        finally show ?thesis using Some r st2(1) w q(2) k by simp
      qed
      finally show ?thesis .
    next
      case 3
      note ln = line_runs [OF less.prems(1)] and bl = block_runs [OF less.prems(1)]
      show ?thesis
      proof (cases s1)
        case Nil
        with 3 c Cons show ?thesis by (subst minify_loop.simps) (simp add: written_def)
      next
        case (Cons e s2)
        note d2 = drop_step [OF d1]
        consider "e = SLASH" | "e = STAR" | "e \<notin> {SLASH, STAR}" by blast
        then show ?thesis
        proof cases
          case 1
          have a: "minify_loop b i k = do { i \<leftarrow> minify_line b i; minify_loop b i k }"
            using 3 1 c Cons by (subst minify_loop.simps) simp
          have kl: "kept Plain s = kept Line s" using 3 1 Cons \<open>s = c # s1\<close> by simp
          show ?thesis
          proof (cases "minify_line b i")
            case None
            with ln kl a show ?thesis by (simp add: written_def)
          next
            case (Some j)
            with ln obtain q t where j: "i \<le> j" "kept Line s = kept Plain (drop j b)" "drop j b = q # t" "q \<in> {NUL, CHR 0x0A}" by auto
            have "j \<noteq> i" using j(3,4) d1 3 by auto
            with j(1) less.prems have "length (drop j b) < length s" using d1 Cons \<open>s = c # s1\<close>
              by (metis diff_less_mono2 length_drop le_neq_implies_less length_greater_0_conv list.distinct(1) drop_eq_Nil linorder_not_le)
            with IH [of j b k] j(1,2) less.prems(2) Some a kl show ?thesis by simp
          qed
        next
          case 2
          have a: "minify_loop b i k = do { i \<leftarrow> minify_block b i; minify_loop b (i + 2) k }"
            using 3 2 c Cons by (subst minify_loop.simps) simp
          have kb: "kept Plain s = kept Block s" using 3 2 Cons \<open>s = c # s1\<close> by simp
          show ?thesis
          proof (cases "minify_block b i")
            case None
            with bl kb a show ?thesis by (simp add: written_def)
          next
            case (Some j)
            with bl have j: "i \<le> j" "kept Block s = kept Plain (drop (j + 2) b)" by auto
            have "length (drop (j + 2) b) < length s" using j(1) less.prems(1) Cons \<open>s = c # s1\<close>
              by (metis drop_eq_Nil length_drop length_greater_0_conv linorder_not_le list.distinct(1) diff_less_mono2 less_add_same_cancel1 trans_less_add1 le_less_trans pos2)
            with IH [of "j + 2" b k] j less.prems(2) Some a kb show ?thesis by simp
          qed
        next
          case 3
          with \<open>c = SLASH\<close> c Cons copied st(1) \<open>s = c # s1\<close> show ?thesis by (subst minify_loop.simps) simp
        qed
      qed
    qed
  qed
qed

lemma minify_text:
  "cJSON_Minify b = (case kept Plain b of None \<Rightarrow> None | Some x \<Rightarrow> upd_opt (x @ drop (length x) b) (length x) NUL)"
  using minify_loop_runs [of 0 b b 0] by (simp add: cJSON_Minify_def written_def split: option.splits)

lemma kept_shorter: "kept m s = Some x \<Longrightarrow> length x < length s"
proof (induction "length s" arbitrary: m s x rule: less_induct)
  case less
  have IH: "kept m t = Some x \<Longrightarrow> length t < length s \<longrightarrow> length x < length t" for m t x
    using less.hyps by blast
  show ?case
  proof (cases s)
    case Nil
    with less.prems show ?thesis by simp
  next
    case (Cons c u)
    have k: "kept m (c # u) = Some x" using less.prems Cons by (simp del: kept.simps)
    show ?thesis
    proof (cases m)
      case Plain
      from k [unfolded Plain kept.simps(2)] Cons show ?thesis
        by (auto simp del: kept.simps split: if_splits list.splits dest!: IH)
    next
      case Line
      from k [unfolded Line kept.simps(3)] Cons show ?thesis
        by (auto simp del: kept.simps split: if_splits dest!: IH)
    next
      case Block
      from k [unfolded Block kept.simps(4)] Cons show ?thesis
        by (auto simp del: kept.simps split: if_splits list.splits dest!: IH)
    next
      case Literal
      from k [unfolded Literal kept.simps(5)] Cons show ?thesis
        by (auto simp del: kept.simps split: if_splits list.splits dest!: IH)
    qed
  qed
qed

lemma minify_result:
  "kept Plain b = Some x \<Longrightarrow> cJSON_Minify b = Some (x @ NUL # drop (Suc (length x)) b)"
  using kept_shorter [of Plain b x]
  by (simp add: minify_text upd_opt_def list_update_append Cons_nth_drop_Suc [symmetric])

section \<open>The value is kept\<close>

subsection \<open>Characters that are kept\<close>

definition solid :: "char \<Rightarrow> bool" where
  "solid c \<longleftrightarrow> c \<notin> {NUL, CHR '' '', CHR 0x09, CHR 0x0D, CHR 0x0A, SLASH, QUOTE}"

definition prepend :: "string \<Rightarrow> string option \<Rightarrow> string option" where
  "prepend p = map_option (\<lambda>x. p @ x)"

lemma prepend_simps [simp]: "prepend [] v = v" "prepend p (Some x) = Some (p @ x)" "prepend p None = None"
  "prepend p (prepend q v) = prepend (p @ q) v"
  by (cases v, simp_all add: prepend_def)+

lemma prepend_one: "map_option ((#) c) v = prepend [c] v" "map_option (\<lambda>x. c # d # x) v = prepend [c, d] v"
  by (simp_all add: prepend_def)

lemma kept_solid: "list_all solid p \<Longrightarrow> kept Plain (p @ s) = prepend p (kept Plain s)"
  by (induction p) (auto simp: solid_def prepend_one)

lemma kept_skip: "skip_text s = Some r \<Longrightarrow> \<exists>w. blanks w \<and> kept Plain s = prepend w (kept Plain r)"
proof (induction s)
  case (Cons c s)
  show ?case
  proof (cases "c \<noteq> NUL \<and> code c \<le> 32")
    case True
    with Cons obtain w where w: "blanks w" "kept Plain s = prepend w (kept Plain r)" by auto
    have n: "c \<noteq> SLASH" "c \<noteq> QUOTE" using True by (auto simp: code_def)
    show ?thesis
    proof (cases "c \<in> {CHR '' '', CHR 0x09, CHR 0x0D, CHR 0x0A}")
      case True
      with w \<open>c \<noteq> NUL \<and> code c \<le> 32\<close> show ?thesis by auto
    next
      case False
      with True n w have "blanks (c # w)" "kept Plain (c # s) = prepend (c # w) (kept Plain r)"
        by (auto simp: blanks_def prepend_one)
      then show ?thesis by blast
    qed
  next
    case False
    with Cons.prems have "r = c # s" by (auto split: if_splits)
    then show ?thesis by (intro exI [of _ "[]"]) (simp del: kept.simps)
  qed
qed simp

subsection \<open>Numbers\<close>

definition ends_number :: "string \<Rightarrow> bool" where
  "ends_number x \<longleftrightarrow> stops x \<and> hd x \<noteq> CHR ''+'' \<and> hd x \<noteq> CHR ''-''"

definition number_char :: "char \<Rightarrow> bool" where
  "number_char c \<longleftrightarrow> is_digit c \<or> c \<in> {CHR ''+'', CHR ''-'', CHR ''.'', CHR ''e'', CHR ''E''}"

lemma number_char_solid: "number_char c \<Longrightarrow> solid c"
  by (auto simp: number_char_def solid_def is_digit_def code_def)

lemma digits_local:
  "digits_loop s n = Some (m, r) \<Longrightarrow> \<exists>ds. s = ds @ r \<and> list_all is_digit ds \<and> r \<noteq> [] \<and> \<not> is_digit (hd r)
     \<and> (\<forall>y. y \<noteq> [] \<and> \<not> is_digit (hd y) \<longrightarrow> digits_loop (ds @ y) n = Some (m, y))"
proof (induction s arbitrary: n)
  case (Cons c s)
  show ?case
  proof (cases "is_digit c")
    case True
    with Cons.prems obtain n' where "digits_loop s n' = Some (m, r)" "\<forall>t. digits_loop (c # t) n = digits_loop t n'" by auto
    with Cons.IH [of n'] True obtain ds where "s = ds @ r" "list_all is_digit (c # ds)" "r \<noteq> []" "\<not> is_digit (hd r)"
      "\<forall>y. y \<noteq> [] \<and> \<not> is_digit (hd y) \<longrightarrow> digits_loop ((c # ds) @ y) n = Some (m, y)" by auto
    then show ?thesis by (intro exI [of _ "c # ds"]) simp
  next
    case False
    have "digits_loop y n = Some (n, y)" if "y \<noteq> [] \<and> \<not> is_digit (hd y)" for y using that by (cases y) auto
    with False Cons.prems show ?thesis by (intro exI [of _ "[]"]) auto
  qed
qed simp

lemma frac_local:
  "frac_loop s n k = Some (m, j, r) \<Longrightarrow> \<exists>ds. s = ds @ r \<and> list_all is_digit ds \<and> r \<noteq> [] \<and> \<not> is_digit (hd r)
     \<and> (\<forall>y. y \<noteq> [] \<and> \<not> is_digit (hd y) \<longrightarrow> frac_loop (ds @ y) n k = Some (m, j, y))"
proof (induction s arbitrary: n k)
  case (Cons c s)
  show ?case
  proof (cases "is_digit c")
    case True
    with Cons.prems obtain n' k' where "frac_loop s n' k' = Some (m, j, r)" "\<forall>t. frac_loop (c # t) n k = frac_loop t n' k'" by auto
    with Cons.IH [of n' k'] True obtain ds where "s = ds @ r" "list_all is_digit (c # ds)" "r \<noteq> []" "\<not> is_digit (hd r)"
      "\<forall>y. y \<noteq> [] \<and> \<not> is_digit (hd y) \<longrightarrow> frac_loop ((c # ds) @ y) n k = Some (m, j, y)" by auto
    then show ?thesis by (intro exI [of _ "c # ds"]) simp
  next
    case False
    have "frac_loop y n k = Some (n, k, y)" if "y \<noteq> [] \<and> \<not> is_digit (hd y)" for y using that by (cases y) auto
    with False Cons.prems show ?thesis by (intro exI [of _ "[]"]) auto
  qed
qed simp

lemma exp_local:
  "exp_loop s n = Some (m, r) \<Longrightarrow> \<exists>ds. s = ds @ r \<and> list_all is_digit ds \<and> r \<noteq> [] \<and> \<not> is_digit (hd r)
     \<and> (\<forall>y. y \<noteq> [] \<and> \<not> is_digit (hd y) \<longrightarrow> exp_loop (ds @ y) n = Some (m, y))"
proof (induction s arbitrary: n)
  case (Cons c s)
  show ?case
  proof (cases "is_digit c")
    case True
    with Cons.prems obtain n' where "exp_loop s n' = Some (m, r)" "\<forall>t. exp_loop (c # t) n = exp_loop t n'"
      by (auto split: if_splits)
    with Cons.IH [of n'] True obtain ds where "s = ds @ r" "list_all is_digit (c # ds)" "r \<noteq> []" "\<not> is_digit (hd r)"
      "\<forall>y. y \<noteq> [] \<and> \<not> is_digit (hd y) \<longrightarrow> exp_loop ((c # ds) @ y) n = Some (m, y)" by auto
    then show ?thesis by (intro exI [of _ "c # ds"]) simp
  next
    case False
    have "exp_loop y n = Some (n, y)" if "y \<noteq> [] \<and> \<not> is_digit (hd y)" for y using that by (cases y) auto
    with False Cons.prems show ?thesis by (intro exI [of _ "[]"]) auto
  qed
qed simp

lemma ends_number_facts:
  assumes "ends_number x"
  shows "x \<noteq> []" "\<not> is_digit (hd x)" "hd x \<notin> {CHR ''+'', CHR ''-'', CHR ''.'', CHR ''e'', CHR ''E'', CHR ''0''}" "deref x = Some (hd x)"
proof -
  have z: "is_digit CHR ''0''" by code_simp
  from assms obtain c t where "x = c # t" by (cases x) (auto simp: ends_number_def stops_def)
  with assms z show "x \<noteq> []" "\<not> is_digit (hd x)" "hd x \<notin> {CHR ''+'', CHR ''-'', CHR ''.'', CHR ''e'', CHR ''E'', CHR ''0''}" "deref x = Some (hd x)"
    by (auto simp: ends_number_def stops_def)
qed

lemma exponent_local:
  assumes "parse_exponent s = Some (e, r)"
  shows "\<exists>p. s = p @ r \<and> list_all number_char p \<and> (p = [] \<or> hd p = CHR ''e'' \<or> hd p = CHR ''E'')
    \<and> (\<forall>x. ends_number x \<longrightarrow> parse_exponent (p @ x) = Some (e, x))"
proof -
  from assms obtain c t where s: "s = c # t" by (cases s) (simp_all add: parse_exponent_def)
  show ?thesis
  proof (cases "c = CHR ''e'' \<or> c = CHR ''E''")
    case False
    with assms s have "e = 0" "r = s" by (simp_all add: parse_exponent_def)
    moreover have "parse_exponent x = Some (0, x)" if "ends_number x" for x
      using ends_number_facts [OF that] by (simp add: parse_exponent_def)
    ultimately show ?thesis by (intro exI [of _ "[]"]) simp
  next
    case True
    with assms s obtain c1 u where t: "t = c1 # u" by (cases t) (auto simp: parse_exponent_def)
    show ?thesis
    proof (cases "c1 = CHR ''+'' \<or> c1 = CHR ''-''")
      case True
      define sg :: int where "sg = (if c1 = CHR ''+'' then 1 else - 1)"
      have run: "parse_exponent (c # c1 # v) = do { (k, y) \<leftarrow> exp_loop v 0; Some (k * sg, y) }" for v
        using True \<open>c = CHR ''e'' \<or> c = CHR ''E''\<close> by (elim disjE) (simp_all add: parse_exponent_def sg_def)
      from assms obtain m where m: "exp_loop u 0 = Some (m, r)" "e = m * sg"
        unfolding s t run by (auto simp: bind_Some_iff)
      from exp_local [OF m(1)] obtain ds where ds: "u = ds @ r" "list_all is_digit ds"
        "\<forall>y. y \<noteq> [] \<and> \<not> is_digit (hd y) \<longrightarrow> exp_loop (ds @ y) 0 = Some (m, y)" by blast
      have "parse_exponent ((c # c1 # ds) @ x) = Some (e, x)" if "ends_number x" for x
        using run [of "ds @ x"] ds(3) ends_number_facts [OF that] m(2) by simp
      with s t ds True \<open>c = CHR ''e'' \<or> c = CHR ''E''\<close> show ?thesis
        by (intro exI [of _ "c # c1 # ds"]) (auto simp: number_char_def list_all_iff)
    next
      case False
      have run: "parse_exponent (c # y) = exp_loop y 0" if "y \<noteq> []" "hd y \<noteq> CHR ''+'' \<and> hd y \<noteq> CHR ''-''" for y
        using \<open>c = CHR ''e'' \<or> c = CHR ''E''\<close> that
        by (elim disjE; cases y; cases "exp_loop y 0") (simp_all add: parse_exponent_def)
      from assms run [of t] False have m: "exp_loop t 0 = Some (e, r)" unfolding s t by simp
      from exp_local [OF m] obtain ds where ds: "t = ds @ r" "list_all is_digit ds"
        "\<forall>y. y \<noteq> [] \<and> \<not> is_digit (hd y) \<longrightarrow> exp_loop (ds @ y) 0 = Some (e, y)" by blast
      have "parse_exponent ((c # ds) @ x) = Some (e, x)" if x: "ends_number x" for x
      proof -
        note f = ends_number_facts [OF x]
        have "hd (ds @ x) \<noteq> CHR ''+'' \<and> hd (ds @ x) \<noteq> CHR ''-''"
          using f(3) ds(1) t False by (cases ds) auto
        with run [of "ds @ x"] ds(3) f(1,2) show ?thesis by simp
      qed
      with s ds \<open>c = CHR ''e'' \<or> c = CHR ''E''\<close> show ?thesis
        by (intro exI [of _ "c # ds"]) (auto simp: number_char_def list_all_iff)
    qed
  qed
qed

text \<open>The parts of a number behind its sign: from the point on, from the first digit on, and with the leading zero.\<close>

definition from_point :: "fl \<Rightarrow> string \<Rightarrow> (fl \<times> int \<times> string) option" where
  "from_point n s = do {
     c3 \<leftarrow> deref s;
     (n3, scale, s3) \<leftarrow> (if c3 = CHR ''.'' then do {
                            d \<leftarrow> deref (tl s);
                            if is_digit d then frac_loop (tl s) n 0 else Some (n, 0, s)
                          } else Some (n, 0, s));
     (e, s4) \<leftarrow> parse_exponent s3;
     Some (n3, scale + e, s4)
   }"

definition from_digit :: "string \<Rightarrow> (fl \<times> int \<times> string) option" where
  "from_digit s = do {
     c2 \<leftarrow> deref s;
     (n2, s2) \<leftarrow> (if is_digit c2 \<and> c2 \<noteq> CHR ''0'' then digits_loop s (int_fl 0) else Some (int_fl 0, s));
     from_point n2 s2
   }"

definition from_zero :: "string \<Rightarrow> (fl \<times> int \<times> string) option" where
  "from_zero s = do { c1 \<leftarrow> deref s; from_digit (if c1 = CHR ''0'' then tl s else s) }"

lemma number_parts:
  "parse_number_text num = do {
     c0 \<leftarrow> deref num;
     (n, k, r) \<leftarrow> from_zero (if c0 = CHR ''-'' then tl num else num);
     Some (fmul binary64 (fmul binary64 (int_fl (if c0 = CHR ''-'' then - 1 else 1)) n) (pow10 k), r)
   }"
  by (cases num; cases "hd num = CHR ''-''")
    (simp_all add: parse_number_text_def from_zero_def from_digit_def from_point_def Let_def split_def cong: if_cong)

definition number_local :: "(string \<Rightarrow> (fl \<times> int \<times> string) option) \<Rightarrow> string \<Rightarrow> string \<Rightarrow> bool" where
  "number_local f p r \<longleftrightarrow> list_all number_char p \<and> (\<exists>n k. f (p @ r) = Some (n, k, r) \<and> (\<forall>x. ends_number x \<longrightarrow> f (p @ x) = Some (n, k, x)))"

lemma number_digits: "list_all is_digit ds \<Longrightarrow> list_all number_char ds"
  by (auto simp: list_all_iff number_char_def)

lemma from_point_local:
  assumes "from_point n s = Some (m, k, r)"
  shows "\<exists>p. s = p @ r \<and> (p = [] \<or> \<not> is_digit (hd p)) \<and> number_local (from_point n) p r"
proof -
  from assms obtain c t where s: "s = c # t" by (cases s) (simp_all add: from_point_def)
  have dot: "\<not> is_digit CHR ''.''" "\<not> is_digit CHR ''e''" "\<not> is_digit CHR ''E''" by code_simp+
  consider d u where "c = CHR ''.''" "t = d # u" "is_digit d" | d u where "c = CHR ''.''" "t = d # u" "\<not> is_digit d" | "c \<noteq> CHR ''.''"
    using assms s by (cases t; cases "c = CHR ''.''") (auto simp: from_point_def)
  then show ?thesis
  proof cases
    case 1
    then obtain j s3 where f: "frac_loop t n 0 = Some (m, j, s3)" and e: "parse_exponent s3 = Some (k - j, r)"
      using assms s by (auto simp: from_point_def bind_Some_iff)
    from frac_local [OF f] obtain ds where ds: "t = ds @ s3" "list_all is_digit ds" "\<not> is_digit (hd s3)" "s3 \<noteq> []"
      "\<forall>y. y \<noteq> [] \<and> \<not> is_digit (hd y) \<longrightarrow> frac_loop (ds @ y) n 0 = Some (m, j, y)" by blast
    from exponent_local [OF e] obtain q where q: "s3 = q @ r" "list_all number_char q" "q = [] \<or> hd q = CHR ''e'' \<or> hd q = CHR ''E''"
      "\<forall>x. ends_number x \<longrightarrow> parse_exponent (q @ x) = Some (k - j, x)" by blast
    have nz: "ds \<noteq> []" using 1 ds(1,3) by auto
    have "from_point n ((CHR ''.'' # ds @ q) @ x) = Some (m, k, x)" if x: "ends_number x" for x
    proof -
      note x' = ends_number_facts [OF x]
      have "q @ x \<noteq> [] \<and> \<not> is_digit (hd (q @ x))" using q(3) x' dot by (cases q) auto
      with ds(5) have "frac_loop (ds @ q @ x) n 0 = Some (m, j, q @ x)" by blast
      moreover have "deref (ds @ q @ x) = Some (hd ds)" "is_digit (hd ds)" using nz ds(2) by (cases ds; simp)+
      ultimately show ?thesis using q(4) x by (simp add: from_point_def)
    qed
    with assms s 1 ds q dot show ?thesis unfolding number_local_def
      by (intro exI [of _ "CHR ''.'' # ds @ q"]) (simp add: number_digits, simp add: number_char_def)
  next
    case 2
    with assms s have "m = n \<and> k = 0 \<and> r = s" by (auto simp: from_point_def bind_Some_iff parse_exponent_def)
    moreover have "from_point n x = Some (n, 0, x)" if "ends_number x" for x
      using ends_number_facts [OF that] by (auto simp: from_point_def parse_exponent_def)
    ultimately show ?thesis using assms unfolding number_local_def by (intro exI [of _ "[]"]) simp
  next
    case 3
    with assms s have e: "parse_exponent s = Some (k, r)" "m = n" by (auto simp: from_point_def bind_Some_iff)
    from exponent_local [OF e(1)] obtain q where q: "s = q @ r" "list_all number_char q" "q = [] \<or> hd q = CHR ''e'' \<or> hd q = CHR ''E''"
      "\<forall>x. ends_number x \<longrightarrow> parse_exponent (q @ x) = Some (k, x)" by blast
    have "from_point n (q @ x) = Some (n, k, x)" if x: "ends_number x" for x
    proof -
      have "deref (q @ x) = Some (hd (q @ x)) \<and> hd (q @ x) \<noteq> CHR ''.''" using q(3) ends_number_facts [OF x] by (cases q) auto
      with q(4) x show ?thesis by (simp add: from_point_def)
    qed
    with assms q e dot show ?thesis unfolding number_local_def by (intro exI [of _ q]) auto
  qed
qed

lemma from_digit_local:
  assumes "from_digit s = Some (m, k, r)"
  shows "\<exists>p. s = p @ r \<and> (is_digit (hd s) \<and> hd s \<noteq> CHR ''0'' \<longrightarrow> p \<noteq> []) \<and> number_local from_digit p r"
proof -
  from assms obtain c t where s: "s = c # t" by (cases s) (simp_all add: from_digit_def)
  show ?thesis
  proof (cases "is_digit c \<and> c \<noteq> CHR ''0''")
    case True
    with assms s obtain n2 s2 where d: "digits_loop s (int_fl 0) = Some (n2, s2)" and f: "from_point n2 s2 = Some (m, k, r)"
      by (auto simp: from_digit_def bind_Some_iff)
    from digits_local [OF d] obtain ds where ds: "s = ds @ s2" "list_all is_digit ds" "\<not> is_digit (hd s2)" "s2 \<noteq> []"
      "\<forall>y. y \<noteq> [] \<and> \<not> is_digit (hd y) \<longrightarrow> digits_loop (ds @ y) (int_fl 0) = Some (n2, y)" by blast
    from from_point_local [OF f] obtain q where q: "s2 = q @ r" "q = [] \<or> \<not> is_digit (hd q)" "list_all number_char q"
      "\<forall>x. ends_number x \<longrightarrow> from_point n2 (q @ x) = Some (m, k, x)" using f by (auto simp: number_local_def)
    have nz: "ds \<noteq> []" "hd ds = c" using True s ds(1,3) by (cases ds; auto)+
    have "from_digit ((ds @ q) @ x) = Some (m, k, x)" if x: "ends_number x" for x
    proof -
      have "q @ x \<noteq> [] \<and> \<not> is_digit (hd (q @ x))" using q(2) ends_number_facts [OF x] by (cases q) auto
      with ds(5) have "digits_loop (ds @ q @ x) (int_fl 0) = Some (n2, q @ x)" by blast
      moreover have "deref (ds @ q @ x) = Some c" using nz by (cases ds) auto
      ultimately show ?thesis using q(4) x True by (simp add: from_digit_def)
    qed
    with assms ds q nz show ?thesis unfolding number_local_def by (intro exI [of _ "ds @ q"]) (simp add: number_digits)
  next
    case False
    with assms s have f: "from_point (int_fl 0) s = Some (m, k, r)" by (auto simp: from_digit_def)
    from from_point_local [OF f] obtain q where q: "s = q @ r" "q = [] \<or> \<not> is_digit (hd q)" "list_all number_char q"
      "\<forall>x. ends_number x \<longrightarrow> from_point (int_fl 0) (q @ x) = Some (m, k, x)" using f by (auto simp: number_local_def)
    have "from_digit (q @ x) = Some (m, k, x)" if x: "ends_number x" for x
    proof -
      have "deref (q @ x) = Some (hd (q @ x)) \<and> \<not> is_digit (hd (q @ x))" using q(2) ends_number_facts [OF x] by (cases q) auto
      with q(4) x show ?thesis by (simp add: from_digit_def)
    qed
    with assms s q False show ?thesis unfolding number_local_def by (intro exI [of _ q]) auto
  qed
qed

lemma from_zero_local:
  assumes "from_zero s = Some (m, k, r)"
  shows "\<exists>p. s = p @ r \<and> (is_digit (hd s) \<longrightarrow> p \<noteq> []) \<and> number_local from_zero p r"
proof -
  from assms obtain c t where s: "s = c # t" by (cases s) (simp_all add: from_zero_def)
  show ?thesis
  proof (cases "c = CHR ''0''")
    case True
    with assms s have f: "from_digit t = Some (m, k, r)" by (simp add: from_zero_def)
    from from_digit_local [OF f] obtain q where q: "t = q @ r" "number_local from_digit q r" by blast
    have "is_digit CHR ''0''" by code_simp
    with q s True f show ?thesis unfolding number_local_def
      by (intro exI [of _ "CHR ''0'' # q"]) (auto simp: from_zero_def number_char_def)
  next
    case False
    with assms s have f: "from_digit s = Some (m, k, r)" by (simp add: from_zero_def)
    from from_digit_local [OF f] obtain q where q: "s = q @ r" "is_digit (hd s) \<and> hd s \<noteq> CHR ''0'' \<longrightarrow> q \<noteq> []" "list_all number_char q"
      "\<forall>x. ends_number x \<longrightarrow> from_digit (q @ x) = Some (m, k, x)" using f unfolding number_local_def by fastforce
    have "from_zero (q @ x) = Some (m, k, x)" if x: "ends_number x" for x
    proof -
      have "deref (q @ x) = Some (hd (q @ x)) \<and> hd (q @ x) \<noteq> CHR ''0''"
        using q(1) s False ends_number_facts [OF x] by (cases q) auto
      with q(4) x show ?thesis by (simp add: from_zero_def)
    qed
    with assms s q False show ?thesis unfolding number_local_def by (intro exI [of _ q]) auto
  qed
qed

lemma number_text_local:
  assumes "parse_number_text (c # s) = Some (n, r)" "c = CHR ''-'' \<or> is_digit c"
  obtains p where "c # s = (c # p) @ r" "list_all number_char (c # p)"
    "\<And>x. ends_number x \<Longrightarrow> parse_number_text ((c # p) @ x) = Some (n, x)"
proof (cases "c = CHR ''-''")
  case True
  with assms(1) obtain m k where f: "from_zero s = Some (m, k, r)" "n = fmul binary64 (fmul binary64 (int_fl (- 1)) m) (pow10 k)"
    by (auto simp: number_parts bind_Some_iff)
  from from_zero_local [OF f(1)] obtain q where q: "s = q @ r" "number_local from_zero q r" by blast
  show ?thesis
    by (rule that [of q]) (use q f True in \<open>auto simp: number_local_def number_char_def number_parts\<close>)
next
  case False
  with assms(1) obtain m k where f: "from_zero (c # s) = Some (m, k, r)" "n = fmul binary64 (fmul binary64 (int_fl 1) m) (pow10 k)"
    by (auto simp: number_parts bind_Some_iff)
  from from_zero_local [OF f(1)] False assms(2) obtain q where q: "c # s = q @ r" "q \<noteq> []" "number_local from_zero q r" by auto
  then obtain p where p: "q = c # p" by (cases q) auto
  show ?thesis
    by (rule that [of p]) (use q f False p in \<open>auto simp: number_local_def number_parts\<close>)
qed

subsection \<open>Strings\<close>

lemma hex_char: "is_hex c \<Longrightarrow> c \<noteq> NUL \<and> c \<noteq> QUOTE \<and> c \<noteq> BSLASH"
  by (auto simp: is_hex_def hex_val_def code_def)

lemma kept_literal_chars:
  "list_all (\<lambda>c. c \<noteq> NUL \<and> c \<noteq> QUOTE \<and> c \<noteq> BSLASH) q \<Longrightarrow> kept Literal (q @ t) = prepend q (kept Literal t)"
  by (induction q) (auto simp: prepend_one)

lemma kept_literal_escape: "kept Literal (BSLASH # e # t) = prepend [BSLASH, e] (kept Literal t)"
  by (simp add: prepend_one)

lemma hex4E:
  assumes "hex4 s"
  obtains a b c d t u where "s = [a, b, c, d] @ t" "list_all is_hex [a, b, c, d]" "\<And>y. parse_hex4 ([a, b, c, d] @ y) = Some u"
proof -
  from assms obtain a b c d t where s: "s = [a, b, c, d] @ t" "list_all is_hex [a, b, c, d]"
    by (auto simp: hex4_def numeral_eq_Suc Suc_le_length_iff)
  then obtain va vb vc vd where "hex_val a = Some va" "hex_val b = Some vb" "hex_val c = Some vc" "hex_val d = Some vd"
    by (auto simp: is_hex_def)
  then have "parse_hex4 ([a, b, c, d] @ y) = Some (16 * (16 * (16 * (16 * 0 + va) + vb) + vc) + vd)" for y
    by (simp add: parse_hex4_def numeral_eq_Suc)
  with s show ?thesis by (rule that)
qed

lemma hex4_inside:
  assumes "QUOTE \<in> set a" "hex4 (a @ r)"
  shows "hex4 (a @ x)"
proof (cases "length a \<le> 4")
  case True
  with assms have "list_all is_hex a" by (auto simp: hex4_def list_all_iff)
  with assms(1) hex_char show ?thesis by (auto simp: list_all_iff)
next
  case False
  with assms(2) show ?thesis by (simp add: hex4_def)
qed

lemma unicode_local:
  assumes "unicode_escape s = Some (bs, s')" "uni_ok s" "s' = p @ r" "p \<noteq> []" "last p = QUOTE"
  obtains q where "s = q @ s'" "\<And>t. kept Literal (q @ t) = prepend q (kept Literal t)"
    "\<And>x. unicode_escape (q @ p @ x) = Some (bs, p @ x)" "\<And>x. uni_ok (q @ p @ x)"
proof -
  from assms(2) have "hex4 s" by (simp add: uni_ok_def)
  then obtain a b c d t u where s: "s = [a, b, c, d] @ t" "list_all is_hex [a, b, c, d]" "\<And>y. parse_hex4 ([a, b, c, d] @ y) = Some u"
    by (rule hex4E) blast
  let ?q = "[a, b, c, d]"
  have adv: "advance 4 (?q @ y) = Some y" for y by (simp add: advance_def)
  have k4: "kept Literal (?q @ y) = prepend ?q (kept Literal y)" for y
    by (rule kept_literal_chars) (use s(2) hex_char in auto)
  have h4: "hex4 (?q @ y)" for y using s(2) by (simp add: hex4_def)
  let ?high = "55296 \<le> u \<and> u \<le> 56319 \<and> \<not> (56320 \<le> u \<and> u \<le> 57343 \<or> u = 0)"
  show ?thesis
  proof (cases "?high \<and> take 2 t = [BSLASH, CHR ''u'']")
    case True
    then obtain t2 where t: "t = BSLASH # CHR ''u'' # t2"
      by (cases t; cases "tl t") (auto simp: numeral_2_eq_2)
    with assms(2) s(1) have "hex4 t2" by (simp add: uni_ok_def)
    then obtain e f g h t3 u2 where t2: "t2 = [e, f, g, h] @ t3" "list_all is_hex [e, f, g, h]" "\<And>y. parse_hex4 ([e, f, g, h] @ y) = Some u2"
      by (rule hex4E) blast
    let ?q2 = "?q @ [BSLASH, CHR ''u''] @ [e, f, g, h]"
    have "kept Literal ([e, f, g, h] @ y) = prepend [e, f, g, h] (kept Literal y)" for y
      by (rule kept_literal_chars) (use t2(2) hex_char in auto)
    then have k: "kept Literal (?q2 @ y) = prepend ?q2 (kept Literal y)" for y
      using k4 [of "[BSLASH, CHR ''u''] @ [e, f, g, h] @ y"] kept_literal_escape [of "CHR ''u''" "[e, f, g, h] @ y"]
      by (simp del: kept.simps)
    have adv6: "advance 6 (BSLASH # CHR ''u'' # e # f # g # h # y) = Some y" for y by (simp add: advance_def)
    have run: "unicode_escape (?q2 @ y) = Some (if u2 < 0xDC00 \<or> 0xDFFF < u2 then []
        else utf8_bytes (0x10000 + ((push_bit 10 (u AND 0x3FF)) OR (u2 AND 0x3FF))), y)" for y
      using True s(3) [of "BSLASH # CHR ''u'' # e # f # g # h # y"] t2(3) [of y] adv [of "BSLASH # CHR ''u'' # e # f # g # h # y"] adv6 [of y]
      by (simp add: unicode_escape_def)
    have ok: "uni_ok (?q2 @ y)" for y
      using h4 [of "[BSLASH, CHR ''u''] @ [e, f, g, h] @ y"] t2(2) by (simp add: uni_ok_def hex4_def)
    have "s = ?q2 @ t3" using s(1) t t2(1) by simp
    with assms(1) run [of t3] have "s' = t3" "bs = (if u2 < 0xDC00 \<or> 0xDFFF < u2 then []
        else utf8_bytes (0x10000 + ((push_bit 10 (u AND 0x3FF)) OR (u2 AND 0x3FF))))" by simp_all
    with run show ?thesis by (intro that [of ?q2]) (use \<open>s = ?q2 @ t3\<close> k ok in simp_all)
  next
    case False
    have same: "deref (p @ x) = deref (p @ r) \<and> (hd p = BSLASH \<longrightarrow> deref (tl (p @ x)) = deref (tl (p @ r)) \<and> tl p \<noteq> [])" for x
      using assms(4,5) by (cases p; cases "tl p") auto
    have not_u: "?high \<longrightarrow> (case deref y of None \<Rightarrow> True | Some c1 \<Rightarrow> c1 = BSLASH \<longrightarrow> deref (tl y) \<noteq> Some (CHR ''u''))
        \<Longrightarrow> unicode_escape (?q @ y) = (if ?high then do { c1 \<leftarrow> deref y; (if c1 \<noteq> BSLASH then Some ([], y) else do { c2 \<leftarrow> deref (tl y); Some ([], y) }) }
          else Some (if (56320 \<le> u \<and> u \<le> 57343) \<or> u = 0 then [] else utf8_bytes u, y))" for y
      using s(3) [of y] adv [of y]
      by (cases "deref y"; cases "deref (tl y)") (auto simp: unicode_escape_def)
    have nt: "?high \<longrightarrow> (case deref t of None \<Rightarrow> True | Some c1 \<Rightarrow> c1 = BSLASH \<longrightarrow> deref (tl t) \<noteq> Some (CHR ''u''))"
      using False by (cases t; cases "tl t") (auto simp: numeral_2_eq_2)
    from assms(1) not_u [OF nt] s(1) have s': "s' = t"
      by (cases "deref t"; cases "deref (tl t)") (auto split: if_splits)
    have np: "?high \<longrightarrow> (case deref (p @ x) of None \<Rightarrow> True | Some c1 \<Rightarrow> c1 = BSLASH \<longrightarrow> deref (tl (p @ x)) \<noteq> Some (CHR ''u''))" for x
      using nt same [of x] assms(3,4) s' by (cases p) auto
    have high: "bs = []" if ?high
      using assms(1) not_u [OF nt] s(1) that by (cases "deref t"; cases "deref (tl t)") (auto split: if_splits)
    have low: "bs = (if (56320 \<le> u \<and> u \<le> 57343) \<or> u = 0 then [] else utf8_bytes u)" if "\<not> ?high"
    proof -
      have "unicode_escape s = Some (if (56320 \<le> u \<and> u \<le> 57343) \<or> u = 0 then [] else utf8_bytes u, t)"
        using not_u [OF nt] unfolding s(1) if_not_P [OF that] .
      with assms(1) show ?thesis by simp
    qed
    have nxt: "\<exists>c. deref (p @ x) = Some c \<and> (c = BSLASH \<longrightarrow> (\<exists>d. deref (tl (p @ x)) = Some d))" for x
      using assms(4) same [of x] by (cases p; cases "tl p") auto
    have run: "unicode_escape (?q @ p @ x) = Some (bs, p @ x)" for x
    proof (cases ?high)
      case True
      from nxt obtain c where c: "deref (p @ x) = Some c" "c = BSLASH \<longrightarrow> (\<exists>d. deref (tl (p @ x)) = Some d)" by blast
      from not_u [OF np, of x] have "unicode_escape (?q @ p @ x)
        = do { c1 \<leftarrow> deref (p @ x); (if c1 \<noteq> BSLASH then Some ([], p @ x) else do { c2 \<leftarrow> deref (tl (p @ x)); Some ([], p @ x) }) }"
        unfolding if_P [OF True] .
      with c high [OF True] show ?thesis by auto
    next
      case False
      from not_u [OF np, of x] show ?thesis unfolding if_not_P [OF False] low [OF False] .
    qed
    have ok: "uni_ok (?q @ p @ x)" for x
    proof -
      have "hex4 (drop 2 (p @ x))" if "take 2 (p @ x) = [BSLASH, CHR ''u'']"
      proof -
        from that same [of x] assms(4,5) obtain p2 where p: "p = BSLASH # CHR ''u'' # p2"
          by (cases p; cases "tl p") (auto simp: numeral_2_eq_2)
        with assms(5) last_in_set [of p2] have "QUOTE \<in> set p2" by (cases "p2 = []") auto
        moreover have "hex4 (p2 @ r)" using assms(2,3) s(1) s' p by (simp add: uni_ok_def)
        ultimately show ?thesis using hex4_inside p by simp
      qed
      then show ?thesis using h4 [of "p @ x"] by (simp add: uni_ok_def)
    qed
    show ?thesis by (rule that [of ?q]) (use s(1) s' k4 run ok in simp_all)
  qed
qed

lemma literal_local:
  "lit b s out r \<Longrightarrow> b \<Longrightarrow> \<exists>p. s = p @ r \<and> p \<noteq> [] \<and> last p = QUOTE \<and> kept Literal s = prepend p (kept Plain r)
     \<and> (\<forall>x. lit True (p @ x) out x)"
proof (induction rule: lit.induct)
  case (lit_quote b r)
  show ?case by (intro exI [of _ "[QUOTE]"]) (simp add: lit.lit_quote prepend_one)
next
  case (lit_char c b s out r)
  then obtain p where p: "s = p @ r" "p \<noteq> []" "last p = QUOTE" "kept Literal s = prepend p (kept Plain r)" "\<forall>x. lit True (p @ x) out x" by blast
  with lit_char.hyps(1) show ?case by (intro exI [of _ "c # p"]) (auto simp: prepend_one intro: lit.lit_char)
next
  case (lit_esc e b s out r)
  then obtain p where p: "s = p @ r" "p \<noteq> []" "last p = QUOTE" "kept Literal s = prepend p (kept Plain r)" "\<forall>x. lit True (p @ x) out x" by blast
  with lit_esc.hyps(1,2) lit_esc.prems show ?case
    by (intro exI [of _ "BSLASH # e # p"]) (auto simp: prepend_one intro: lit.lit_esc)
next
  case (lit_uni s bs s' b out r)
  then obtain p where p: "s' = p @ r" "p \<noteq> []" "last p = QUOTE" "kept Literal s' = prepend p (kept Plain r)" "\<forall>x. lit True (p @ x) out x" by blast
  from lit_uni have u: "uni_ok s" by blast
  from unicode_local [OF lit_uni.hyps(1) u p(1-3)] obtain q where q: "s = q @ s'" "\<And>t. kept Literal (q @ t) = prepend q (kept Literal t)"
    "\<And>x. unicode_escape (q @ p @ x) = Some (bs, p @ x)" "\<And>x. uni_ok (q @ p @ x)" by blast
  have "lit True (BSLASH # CHR ''u'' # q @ p @ x) (bs @ out) x" for x
    by (rule lit.lit_uni [OF q(3)]) (use q(4) p(5) in simp_all)
  moreover have "kept Literal (BSLASH # CHR ''u'' # s) = prepend (BSLASH # CHR ''u'' # q @ p) (kept Plain r)"
    using q(1,2) p(4) kept_literal_escape [of "CHR ''u''" s] by (simp del: kept.simps)
  ultimately show ?case using p q(1) by (intro exI [of _ "BSLASH # CHR ''u'' # q @ p"]) (simp del: kept.simps)
qed simp

subsection \<open>Values\<close>

text \<open>The text before \<open>r\<close> is minified to \<open>p\<close>.\<close>

definition minified :: "string \<Rightarrow> string \<Rightarrow> string \<Rightarrow> bool" where
  "minified s r p \<longleftrightarrow> kept Plain s = prepend p (kept Plain r)"

lemma minified_trans: "minified s t p \<Longrightarrow> minified t r q \<Longrightarrow> minified s r (p @ q)"
  by (simp add: minified_def)

lemma minified_solid: "list_all solid p \<Longrightarrow> minified (p @ r) r p"
  by (simp add: minified_def kept_solid)

lemma minified_char: "solid c \<Longrightarrow> minified (c # r) r [c]"
  using minified_solid [of "[c]" r] by simp

lemma minified_skip: "skip_text s = Some r \<Longrightarrow> \<exists>w. blanks w \<and> minified s r w"
  using kept_skip by (simp add: minified_def)

lemma solid_marks: "solid (CHR ''['')" "solid (CHR '']'')" "solid (CHR ''{'')" "solid (CHR ''}'')" "solid (CHR '','')" "solid (CHR '':'')"
  by code_simp+

definition mark :: "char \<Rightarrow> bool" where
  "mark c \<longleftrightarrow> c \<in> {CHR '','', CHR '']'', CHR ''}'', CHR '':'', NUL}"

lemma before_mark:
  assumes "blanks w" "p \<noteq> []" "mark (hd p)"
  shows "ends_number (w @ p @ x)" "skip_text (w @ p @ x) = Some (p @ x)"
proof -
  obtain c q where p: "p = c # q" using assms(2) by (cases p) auto
  have d: "\<not> is_digit c \<and> c \<notin> {CHR ''.'', CHR ''e'', CHR ''E'', CHR ''+'', CHR ''-''}" if "mark c \<or> c \<noteq> NUL \<and> code c \<le> 32" for c
    using that by (auto simp: mark_def is_digit_def code_def)
  show "skip_text (w @ p @ x) = Some (p @ x)" using assms(3) p
    by (subst skip_blanks [OF assms(1)]) (auto simp: mark_def code_def)
  show "ends_number (w @ p @ x)" using assms(1,3) p d by (cases w) (auto simp: ends_number_def stops_def blanks_def)
qed

lemma before_value: "blanks w \<Longrightarrow> visible p \<Longrightarrow> skip_text (w @ p @ x) = Some (p @ x)"
  by (subst skip_blanks, simp) (rule skip_visible [OF visible_append])

lemma word_kept:
  assumes "list_all solid p" "visible p" "\<And>x. jvalue True (p @ x) j x"
  shows "\<exists>q. minified (p @ r) r q \<and> visible q \<and> (\<forall>x. ends_number x \<longrightarrow> jvalue True (q @ x) j x)"
  using assms minified_solid by blast

lemma value_local:
  "jvalue b s j r \<Longrightarrow> b \<longrightarrow> (\<exists>p. minified s r p \<and> visible p \<and> (\<forall>x. ends_number x \<longrightarrow> jvalue True (p @ x) j x))"
  "jelems b s js r \<Longrightarrow> b \<longrightarrow> (\<exists>p. minified s r p \<and> p \<noteq> [] \<and> mark (hd p) \<and> (\<forall>x. jelems True (p @ x) js x))"
  "jmember b s ms r \<Longrightarrow> b \<longrightarrow> (\<exists>p. minified s r p \<and> visible p \<and> (\<forall>x. jmember True (p @ x) ms x))"
  "jmembers b s ms r \<Longrightarrow> b \<longrightarrow> (\<exists>p. minified s r p \<and> p \<noteq> [] \<and> mark (hd p) \<and> (\<forall>x. jmembers True (p @ x) ms x))"
proof (induction rule: jvalue_jelems_jmember_jmembers.inducts)
  case (jv_null b r)
  show ?case using word_kept [of "''null''" JNull r] jvalue_jelems_jmember_jmembers.jv_null
    by (simp add: solid_def visible_def code_def)
next
  case (jv_false b r)
  show ?case using word_kept [of "''false''" JFalse r] jvalue_jelems_jmember_jmembers.jv_false
    by (simp add: solid_def visible_def code_def)
next
  case (jv_true b r)
  show ?case using word_kept [of "''true''" JTrue r] jvalue_jelems_jmember_jmembers.jv_true
    by (simp add: solid_def visible_def code_def)
next
  case (jv_str b s out r)
  show ?case
  proof
    assume b: b
    from literal_local [OF jv_str.hyps b] obtain p where p: "kept Literal s = prepend p (kept Plain r)" "\<forall>x. lit True (p @ x) out x" by blast
    then have "minified (QUOTE # s) r (QUOTE # p)" by (simp add: minified_def prepend_one)
    then show "\<exists>p. minified (QUOTE # s) r p \<and> visible p \<and> (\<forall>x. ends_number x \<longrightarrow> jvalue True (p @ x) (JStr (tk out)) x)"
      using p(2) by (intro exI [of _ "QUOTE # p"]) (auto intro: jvalue_jelems_jmember_jmembers.jv_str)
  qed
next
  case (jv_num c s n r i b)
  from number_text_local [OF jv_num.hyps(2,1)] obtain p where p: "c # s = (c # p) @ r" "list_all number_char (c # p)"
    "\<And>x. ends_number x \<Longrightarrow> parse_number_text ((c # p) @ x) = Some (n, x)" by blast
  have "list_all solid (c # p)" using p(2) number_char_solid by (auto simp: list_all_iff)
  with minified_solid have "minified (c # s) r (c # p)" unfolding p(1) by blast
  moreover have "jvalue True ((c # p) @ x) (JNum i n) x" if "ends_number x" for x
    using jvalue_jelems_jmember_jmembers.jv_num [OF jv_num.hyps(1) _ jv_num.hyps(3), of "p @ x" x True] p(3) [OF that] by simp
  moreover have "visible (c # p)" using jv_num.hyps(1) by (auto simp: visible_def is_digit_def code_def)
  ultimately show ?case by blast
next
  case (jv_arr_empty s r b)
  from minified_skip [OF jv_arr_empty.hyps] obtain w where w: "blanks w" "minified s (CHR '']'' # r) w" by blast
  have m: "minified (CHR ''['' # s) r (CHR ''['' # w @ [CHR '']''])"
    using minified_trans [OF minified_trans [OF minified_char [of "CHR ''[''" s] w(2)] minified_char [of "CHR '']''" r]] solid_marks by simp
  have "jvalue True ((CHR ''['' # w @ [CHR '']'']) @ x) (JArr []) x" for x
    using jvalue_jelems_jmember_jmembers.jv_arr_empty [of "w @ [CHR '']''] @ x" x True] before_mark(2) [OF w(1), of "[CHR '']'']" x]
    by (simp add: mark_def)
  moreover have "visible (CHR ''['' # w @ [CHR '']''])" by (simp add: visible_def code_def)
  ultimately show ?case using m by blast
next
  case (jv_arr s s1 b j r1 r2 js r)
  show ?case
  proof
    assume b: b
    from minified_skip [OF jv_arr.hyps(1)] obtain w1 where w1: "blanks w1" "minified s s1 w1" by blast
    from minified_skip [OF jv_arr.hyps(3)] obtain w2 where w2: "blanks w2" "minified r1 r2 w2" by blast
    from jv_arr.IH b obtain p q where p: "minified s1 r1 p" "visible p" "\<forall>x. ends_number x \<longrightarrow> jvalue True (p @ x) j x"
      and q: "minified r2 r q" "q \<noteq> []" "mark (hd q)" "\<forall>x. jelems True (q @ x) js x" by blast
    have m: "minified (CHR ''['' # s) r (CHR ''['' # w1 @ p @ w2 @ q)"
      using minified_trans [OF minified_char [of "CHR ''[''" s] minified_trans [OF w1(2) minified_trans [OF p(1) minified_trans [OF w2(2) q(1)]]]]
        solid_marks by simp
    have "jvalue True ((CHR ''['' # w1 @ p @ w2 @ q) @ x) (JArr (j # js)) x" for x
    proof -
      have "jvalue True (p @ w2 @ q @ x) j (w2 @ q @ x)" "jelems True (q @ x) js x"
        using p(3) before_mark(1) [OF w2(1) q(2,3)] q(4) by blast+
      from jvalue_jelems_jmember_jmembers.jv_arr [OF before_value [OF w1(1) p(2), of "w2 @ q @ x"] this(1) before_mark(2) [OF w2(1) q(2,3)] this(2)]
      show ?thesis by simp
    qed
    moreover have "visible (CHR ''['' # w1 @ p @ w2 @ q)" by (simp add: visible_def code_def)
    ultimately show "\<exists>p. minified (CHR ''['' # s) r p \<and> visible p \<and> (\<forall>x. ends_number x \<longrightarrow> jvalue True (p @ x) (JArr (j # js)) x)"
      using m by blast
  qed
next
  case (jv_obj_empty s r b)
  from minified_skip [OF jv_obj_empty.hyps] obtain w where w: "blanks w" "minified s (CHR ''}'' # r) w" by blast
  have m: "minified (CHR ''{'' # s) r (CHR ''{'' # w @ [CHR ''}''])"
    using minified_trans [OF minified_trans [OF minified_char [of "CHR ''{''" s] w(2)] minified_char [of "CHR ''}''" r]] solid_marks by simp
  have "jvalue True ((CHR ''{'' # w @ [CHR ''}'']) @ x) (JObj []) x" for x
    using jvalue_jelems_jmember_jmembers.jv_obj_empty [of "w @ [CHR ''}''] @ x" x True] before_mark(2) [OF w(1), of "[CHR ''}'']" x]
    by (simp add: mark_def)
  moreover have "visible (CHR ''{'' # w @ [CHR ''}''])" by (simp add: visible_def code_def)
  ultimately show ?case using m by blast
next
  case (jv_obj s s1 b ms r)
  show ?case
  proof
    assume b: b
    from minified_skip [OF jv_obj.hyps(1)] obtain w where w: "blanks w" "minified s s1 w" by blast
    from jv_obj.IH b obtain p where p: "minified s1 r p" "visible p" "\<forall>x. jmember True (p @ x) ms x" by blast
    have m: "minified (CHR ''{'' # s) r (CHR ''{'' # w @ p)"
      using minified_trans [OF minified_char [of "CHR ''{''" s] minified_trans [OF w(2) p(1)]] solid_marks by simp
    have "jvalue True ((CHR ''{'' # w @ p) @ x) (JObj ms) x" for x
      using jvalue_jelems_jmember_jmembers.jv_obj [OF before_value [OF w(1) p(2)]] p(3) by simp
    moreover have "visible (CHR ''{'' # w @ p)" by (simp add: visible_def code_def)
    ultimately show "\<exists>p. minified (CHR ''{'' # s) r p \<and> visible p \<and> (\<forall>x. ends_number x \<longrightarrow> jvalue True (p @ x) (JObj ms) x)"
      using m by blast
  qed
next
  case (je_end b r)
  show ?case using minified_char [OF solid_marks(2), of r] jvalue_jelems_jmember_jmembers.je_end
    by (intro impI exI [of _ "[CHR '']'']"]) (simp add: mark_def)
next
  case (je_more s s1 b j r1 r2 js r)
  show ?case
  proof
    assume b: b
    from minified_skip [OF je_more.hyps(1)] obtain w1 where w1: "blanks w1" "minified s s1 w1" by blast
    from minified_skip [OF je_more.hyps(3)] obtain w2 where w2: "blanks w2" "minified r1 r2 w2" by blast
    from je_more.IH b obtain p q where p: "minified s1 r1 p" "visible p" "\<forall>x. ends_number x \<longrightarrow> jvalue True (p @ x) j x"
      and q: "minified r2 r q" "q \<noteq> []" "mark (hd q)" "\<forall>x. jelems True (q @ x) js x" by blast
    have m: "minified (CHR '','' # s) r (CHR '','' # w1 @ p @ w2 @ q)"
      using minified_trans [OF minified_char [of "CHR '',''" s] minified_trans [OF w1(2) minified_trans [OF p(1) minified_trans [OF w2(2) q(1)]]]]
        solid_marks by simp
    have "jelems True ((CHR '','' # w1 @ p @ w2 @ q) @ x) (j # js) x" for x
    proof -
      have "jvalue True (p @ w2 @ q @ x) j (w2 @ q @ x)" "jelems True (q @ x) js x"
        using p(3) before_mark(1) [OF w2(1) q(2,3)] q(4) by blast+
      from jvalue_jelems_jmember_jmembers.je_more [OF before_value [OF w1(1) p(2), of "w2 @ q @ x"] this(1) before_mark(2) [OF w2(1) q(2,3)] this(2)]
      show ?thesis by simp
    qed
    then show "\<exists>p. minified (CHR '','' # s) r p \<and> p \<noteq> [] \<and> mark (hd p) \<and> (\<forall>x. jelems True (p @ x) (j # js) x)"
      using m by (intro exI [of _ "CHR '','' # w1 @ p @ w2 @ q"]) (simp add: mark_def)
  qed
next
  case (jm b s k r1 r2 r3 j r4 r5 ms r)
  show ?case
  proof
    assume b: b
    from literal_local [OF jm.hyps(1) b] obtain n where n: "kept Literal s = prepend n (kept Plain r1)" "\<forall>x. lit True (n @ x) k x" by blast
    from minified_skip [OF jm.hyps(2)] obtain w1 where w1: "blanks w1" "minified r1 (CHR '':'' # r2) w1" by blast
    from minified_skip [OF jm.hyps(3)] obtain w2 where w2: "blanks w2" "minified r2 r3 w2" by blast
    from minified_skip [OF jm.hyps(5)] obtain w3 where w3: "blanks w3" "minified r4 r5 w3" by blast
    from jm.IH b obtain p q where p: "minified r3 r4 p" "visible p" "\<forall>x. ends_number x \<longrightarrow> jvalue True (p @ x) j x"
      and q: "minified r5 r q" "q \<noteq> []" "mark (hd q)" "\<forall>x. jmembers True (q @ x) ms x" by blast
    let ?p = "QUOTE # n @ w1 @ [CHR '':''] @ w2 @ p @ w3 @ q"
    have "minified (QUOTE # s) r1 (QUOTE # n)" using n(1) by (simp add: minified_def prepend_one)
    with minified_trans [OF this minified_trans [OF w1(2) minified_trans [OF minified_char [OF solid_marks(6)]
        minified_trans [OF w2(2) minified_trans [OF p(1) minified_trans [OF w3(2) q(1)]]]]]]
    have m: "minified (QUOTE # s) r ?p" by simp
    have "jmember True (?p @ x) ((tk k, j) # ms) x" for x
    proof -
      have l: "lit True (n @ w1 @ [CHR '':''] @ w2 @ p @ w3 @ q @ x) k (w1 @ [CHR '':''] @ w2 @ p @ w3 @ q @ x)" using n(2) by blast
      have s1: "skip_text (w1 @ [CHR '':''] @ w2 @ p @ w3 @ q @ x) = Some (CHR '':'' # w2 @ p @ w3 @ q @ x)"
        using before_mark(2) [OF w1(1), of "[CHR '':'']"] by (simp add: mark_def)
      have "jvalue True (p @ w3 @ q @ x) j (w3 @ q @ x)" "jmembers True (q @ x) ms x"
        using p(3) before_mark(1) [OF w3(1) q(2,3)] q(4) by blast+
      from jvalue_jelems_jmember_jmembers.jm [OF l s1 before_value [OF w2(1) p(2), of "w3 @ q @ x"] this(1) before_mark(2) [OF w3(1) q(2,3)] this(2)]
      show ?thesis by simp
    qed
    then show "\<exists>p. minified (QUOTE # s) r p \<and> visible p \<and> (\<forall>x. jmember True (p @ x) ((tk k, j) # ms) x)"
      using m by (intro exI [of _ ?p]) simp
  qed
next
  case (jms_end b r)
  show ?case using minified_char [OF solid_marks(4), of r] jvalue_jelems_jmember_jmembers.jms_end
    by (intro impI exI [of _ "[CHR ''}'']"]) (simp add: mark_def)
next
  case (jms_more s s1 b ms r)
  show ?case
  proof
    assume b: b
    from minified_skip [OF jms_more.hyps(1)] obtain w where w: "blanks w" "minified s s1 w" by blast
    from jms_more.IH b obtain p where p: "minified s1 r p" "visible p" "\<forall>x. jmember True (p @ x) ms x" by blast
    have m: "minified (CHR '','' # s) r (CHR '','' # w @ p)"
      using minified_trans [OF minified_char [of "CHR '',''" s] minified_trans [OF w(2) p(1)]] solid_marks by simp
    have "jmembers True ((CHR '','' # w @ p) @ x) ms x" for x
      using jvalue_jelems_jmember_jmembers.jms_more [OF before_value [OF w(1) p(2)]] p(3) by simp
    then show "\<exists>p. minified (CHR '','' # s) r p \<and> p \<noteq> [] \<and> mark (hd p) \<and> (\<forall>x. jmembers True (p @ x) ms x)"
      using m by (intro exI [of _ "CHR '','' # w @ p"]) (simp add: mark_def)
  qed
qed

text \<open>C7: Minifying a text does not change what it says (\<open>cJSON_Minify\<close>): of a text with a JSON value up to
  its terminator, white space around it and inside it included, minifying in place succeeds, and the parser
  reads the same value from the minified text as the grammar gives to the original.\<close>

theorem minify_keeps_value:
  assumes "heap_ok h" "roomy h" "skip_text s = Some s0" "jvalue True s0 j r" "skip_text r = Some (NUL # y)"
  shows "\<exists>m c h' t. cJSON_Minify s = Some m \<and> cJSON_Parse (Ptr m) h = Some (c, h') \<and> c \<noteq> 0
    \<and> seg (mem h') 0 [t] 0 \<and> jaddr t = c \<and> jrep j t"
proof -
  from minified_skip [OF assms(3)] obtain w1 where w1: "blanks w1" "minified s s0 w1" by blast
  from minified_skip [OF assms(5)] obtain w2 where w2: "blanks w2" "minified r (NUL # y) w2" by blast
  from value_local(1) [OF assms(4)] obtain p where p: "minified s0 r p" "visible p" "\<forall>x. ends_number x \<longrightarrow> jvalue True (p @ x) j x" by blast
  let ?k = "w1 @ p @ w2" and ?e = "drop (Suc (length (w1 @ p @ w2))) s"
  have "kept Plain s = Some ?k"
    using minified_trans [OF w1(2) minified_trans [OF p(1) w2(2)]] by (simp add: minified_def)
  note m = minify_result [OF this]
  have n: "[NUL] \<noteq> []" "mark (hd [NUL])" by (simp_all add: mark_def)
  have "jvalue True (p @ w2 @ [NUL] @ ?e) j (w2 @ [NUL] @ ?e)" using p(3) before_mark(1) [OF w2(1) n] by blast
  from cJSON_ParseWithOpts_complete [OF assms(1,2) before_value [OF w1(1) p(2)] this] m show ?thesis
    by (fastforce simp: cJSON_Parse_def)
qed

theorem minify_keeps_value_witness:
  "\<exists>m c h' t. cJSON_Minify (''[ null , true ] '' @ [NUL]) = Some m \<and> cJSON_Parse (Ptr m) heap0 = Some (c, h') \<and> c \<noteq> 0
    \<and> seg (mem h') 0 [t] 0 \<and> jaddr t = c \<and> jrep (JArr [JNull, JTrue]) t"
proof -
  let ?s = "''[ null , true ] '' @ [NUL]"
  have k: "skip_text ?s = Some ?s" "skip_text ('' '' @ [NUL]) = Some (NUL # [])" by (simp_all add: code_def)
  have "jvalue True (''[ null , true ] '' @ [NUL]) (JArr [JNull, JTrue]) ('' '' @ [NUL])"
    unfolding append.simps
    by (rule jv_arr, simp add: code_def, rule jv_null, simp add: code_def, rule je_more, simp add: code_def, rule jv_true,
        simp add: code_def, rule je_end)
  from minify_keeps_value [OF heap0_ok _ k(1) this k(2)] show ?thesis by simp
qed

text \<open>A comment or a string that is not closed sends the reading index behind the terminator.\<close>

lemma minify_open_comment: "cJSON_Minify (''/* '' @ [NUL]) = None"
  by (simp add: minify_text)

lemma minify_open_string: "cJSON_Minify (QUOTE # ''ab'' @ [NUL]) = None"
  by (simp add: minify_text)

end
