(* ===== verification/HwData.thy ===== *)
theory HwData
  imports CFloat
begin

text \<open>
  The data of the terminal: the shared memory layout of \<open>hardware/dataDef.h\<close>, the enumerations,
  the parameter cache and the device record of \<open>hardware/srv_hardware.h\<close>, and the tables of
  \<open>dataflow/ws_dataflow.cpp\<close> and \<open>hardware/srv_hardware.cpp\<close> with their searches.  A \<open>char\<close> array
  of the code is a list of exactly its size; reading it as a C string without a terminator
  inside it is undefined.  The lookups of both tables meet one interface, the locale
  \<open>lookup_table\<close>.
\<close>

section \<open>Shared memory\<close>

definition AI_NUM_MAX :: nat where "AI_NUM_MAX = 32"
definition DI_NUM_MAX :: nat where "DI_NUM_MAX = 32"

record VERSION =
  v_type :: string
  softVersion :: string
  hwVersion :: string

record envMonitorSet =
  isInsTemperature :: nat
  isInsHumidity :: nat
  isInsNoise :: nat
  isInsPm2_5 :: nat
  isInsPm10 :: nat
  isInsO2 :: nat
  isInsTvoc :: nat

record RTU_INFO =
  ver :: VERSION
  aiChNumI :: nat
  aiChNumV :: nat
  diChNum :: nat
  voltageChNum :: nat
  currentChNum :: nat
  env_set :: envMonitorSet

record envMonitor =
  temperature :: fl
  humidity :: fl
  noise :: fl
  pm2_5 :: fl
  pm10 :: fl
  env_O2 :: fl
  tvoc :: fl

record SHM_DATA_RO =
  run :: nat
  err :: nat
  updateTime :: "int \<times> int"
  env_data :: envMonitor
  aiValI :: "fl list"
  aiValV :: "fl list"
  voltageV :: "fl list"
  currentA :: "fl list"
  diVal :: "nat list"

record SHM_DATA_DEF =
  shm_ro :: SHM_DATA_RO
  shm_rw :: "nat list"
  shm_info :: RTU_INFO

text \<open>The array sizes of the layout.\<close>

definition shm_wf :: "SHM_DATA_DEF \<Rightarrow> bool" where
  "shm_wf s \<longleftrightarrow> length (v_type (ver (shm_info s))) = 32
     \<and> length (aiValI (shm_ro s)) = AI_NUM_MAX \<and> length (aiValV (shm_ro s)) = AI_NUM_MAX
     \<and> length (voltageV (shm_ro s)) = AI_NUM_MAX \<and> length (currentA (shm_ro s)) = AI_NUM_MAX
     \<and> length (diVal (shm_ro s)) = DI_NUM_MAX \<and> length (shm_rw s) = 128"

section \<open>Enumerations\<close>

datatype hw_dev_type_e =
  HW_TYPE_CUR | HW_TYPE_VOL | HW_TYPE_TEMP | HW_TYPE_HUMI | HW_TYPE_NIOSE | HW_TYPE_PM2_5 | HW_TYPE_PM10
| HW_TYPE_O2 | HW_TYPE_TVOC | HW_TYPE_FLOW | HW_TYPE_SFLOW | HW_TYPE_RSPD | HW_TYPE_FREQ | HW_TYPE_POWER
| HW_TYPE_ELEC | HW_TYPE_RESV | HW_TYPE_1 | HW_TYPE_2 | HW_TYPE_TBD | HW_TYPE_END

datatype hw_dev_kind_e =
  HW_KIND_COL | HW_KIND_CUR | HW_KIND_VOL | HW_KIND_ENV | HW_KIND_ASE | HW_KIND_PSE | HW_KIND_TBD

datatype hw_data_status_e = HW_DATA_UPTARE | HW_DATA_KEEP | HW_DATA_USED | HW_DATA_DOWN | HW_DATA_INIT

text \<open>The values in the order of their declaration; a cast from int is a position in it.\<close>

definition hw_types :: "hw_dev_type_e list" where
  "hw_types = [HW_TYPE_CUR, HW_TYPE_VOL, HW_TYPE_TEMP, HW_TYPE_HUMI, HW_TYPE_NIOSE, HW_TYPE_PM2_5, HW_TYPE_PM10,
     HW_TYPE_O2, HW_TYPE_TVOC, HW_TYPE_FLOW, HW_TYPE_SFLOW, HW_TYPE_RSPD, HW_TYPE_FREQ, HW_TYPE_POWER,
     HW_TYPE_ELEC, HW_TYPE_RESV, HW_TYPE_1, HW_TYPE_2, HW_TYPE_TBD, HW_TYPE_END]"

fun type_id :: "hw_dev_type_e \<Rightarrow> nat" where
  "type_id HW_TYPE_CUR = 0"
| "type_id HW_TYPE_VOL = 1"
| "type_id HW_TYPE_TEMP = 2"
| "type_id HW_TYPE_HUMI = 3"
| "type_id HW_TYPE_NIOSE = 4"
| "type_id HW_TYPE_PM2_5 = 5"
| "type_id HW_TYPE_PM10 = 6"
| "type_id HW_TYPE_O2 = 7"
| "type_id HW_TYPE_TVOC = 8"
| "type_id HW_TYPE_FLOW = 9"
| "type_id HW_TYPE_SFLOW = 10"
| "type_id HW_TYPE_RSPD = 11"
| "type_id HW_TYPE_FREQ = 12"
| "type_id HW_TYPE_POWER = 13"
| "type_id HW_TYPE_ELEC = 14"
| "type_id HW_TYPE_RESV = 15"
| "type_id HW_TYPE_1 = 16"
| "type_id HW_TYPE_2 = 17"
| "type_id HW_TYPE_TBD = 18"
| "type_id HW_TYPE_END = 19"

definition type_of_int :: "nat \<Rightarrow> hw_dev_type_e option" where
  "type_of_int n = nth_opt hw_types n"

lemma type_id_lt: "type_id t < length hw_types"
  by (cases t) (simp_all add: hw_types_def)

lemma type_of_int_id [simp]: "type_of_int (type_id t) = Some t"
  by (cases t) (simp_all add: type_of_int_def hw_types_def)

lemma type_id_inj: "type_id s = type_id t \<Longrightarrow> s = t"
  by (metis type_of_int_id option.inject)

text \<open>The enumeration is ordered as it is declared.\<close>

instantiation hw_dev_type_e :: linorder
begin

definition less_eq_hw_dev_type_e :: "hw_dev_type_e \<Rightarrow> hw_dev_type_e \<Rightarrow> bool" where
  "less_eq_hw_dev_type_e s t \<longleftrightarrow> type_id s \<le> type_id t"

definition less_hw_dev_type_e :: "hw_dev_type_e \<Rightarrow> hw_dev_type_e \<Rightarrow> bool" where
  "less_hw_dev_type_e s t \<longleftrightarrow> type_id s < type_id t"

instance
  by standard (auto simp: less_eq_hw_dev_type_e_def less_hw_dev_type_e_def intro: type_id_inj)

end

section \<open>Parameters and the device\<close>

record hw_cache_t =
  gpio_io :: nat
  gpio_name :: string
  kks :: string
  zone :: string
  p_ref :: string
  val_type :: hw_dev_type_e
  val :: fl
  param_time :: string
  rangeI :: "int list"
  rangeD :: "int list"
  status :: hw_data_status_e

record hw_info_t =
  kind :: hw_dev_kind_e
  i_kind :: string
  model :: string
  disable :: bool
  i_name :: string
  i_id :: string
  terminal :: string
  i_time :: string
  i_status :: hw_data_status_e

definition cache_wf :: "hw_cache_t \<Rightarrow> bool" where
  "cache_wf p \<longleftrightarrow> length (gpio_name p) = 16 \<and> length (kks p) = 64 \<and> length (zone p) = 64
     \<and> length (p_ref p) = 128 \<and> length (param_time p) = 64 \<and> length (rangeI p) = 2 \<and> length (rangeD p) = 2
     \<and> gpio_io p < 65536"

definition info_wf :: "hw_info_t \<Rightarrow> bool" where
  "info_wf i \<longleftrightarrow> length (i_kind i) = 32 \<and> length (model i) = 32 \<and> length (i_name i) = 64
     \<and> length (i_id i) = 64 \<and> length (terminal i) = 32 \<and> length (i_time i) = 64"

text \<open>An object as \<open>calloc\<close> hands it out.\<close>

definition zero_cache :: hw_cache_t where
  "zero_cache = \<lparr>gpio_io = 0, gpio_name = replicate 16 NUL, kks = replicate 64 NUL, zone = replicate 64 NUL,
     p_ref = replicate 128 NUL, val_type = HW_TYPE_CUR, val = Fin False 0, param_time = replicate 64 NUL,
     rangeI = [0, 0], rangeD = [0, 0], status = HW_DATA_UPTARE\<rparr>"

lemma zero_cache_wf [simp]: "cache_wf zero_cache"
  by (simp add: cache_wf_def zero_cache_def)

text \<open>The class, with the shared memory it is mounted on kept apart.\<close>

record hardware =
  hwInfo :: hw_info_t
  nChNum :: nat
  pCache :: "hw_cache_t list"

definition hw_wf :: "hardware \<Rightarrow> bool" where
  "hw_wf h \<longleftrightarrow> info_wf (hwInfo h) \<and> length (pCache h) = nChNum h \<and> list_all cache_wf (pCache h)"

section \<open>Tables\<close>

record hw_vtype_t =
  vt_id :: hw_dev_type_e
  vt_name :: string
  vt_unit :: string
  vt_desc :: string

record hw_vkind_t =
  vk_id :: hw_dev_kind_e
  vk_name :: string
  vk_desc :: string

text \<open>
  The texts are the UTF-8 bytes of the source.  In order: current, voltage, temperature,
  humidity, noise, PM2.5, PM10, oxygen, TVOC, flow, accumulated flow, speed, frequency,
  power, energy.
\<close>

definition vtype :: "hw_dev_type_e \<Rightarrow> string \<Rightarrow> string \<Rightarrow> string \<Rightarrow> hw_vtype_t" where
  "vtype i n u d = \<lparr>vt_id = i, vt_name = n, vt_unit = u, vt_desc = d\<rparr>"

definition vkind :: "hw_dev_kind_e \<Rightarrow> string \<Rightarrow> string \<Rightarrow> hw_vkind_t" where
  "vkind i n d = \<lparr>vk_id = i, vk_name = n, vk_desc = d\<rparr>"

definition hw_vtype_values :: "hw_vtype_t list" where
  "hw_vtype_values = [
     vtype HW_TYPE_CUR
       [CHR 0xE7, CHR 0x94, CHR 0xB5, CHR 0xE6, CHR 0xB5, CHR 0x81]
       ''A''
       [CHR 0xE5, CHR 0xAE, CHR 0x89, CHR 0xE5, CHR 0x9F, CHR 0xB9],
     vtype HW_TYPE_VOL
       [CHR 0xE7, CHR 0x94, CHR 0xB5, CHR 0xE5, CHR 0x8E, CHR 0x8B]
       ''V''
       [],
     vtype HW_TYPE_TEMP
       [CHR 0xE6, CHR 0xB8, CHR 0xA9, CHR 0xE5, CHR 0xBA, CHR 0xA6]
       [CHR 0xE2, CHR 0x84, CHR 0x83]
       [],
     vtype HW_TYPE_HUMI
       [CHR 0xE6, CHR 0xB9, CHR 0xBF, CHR 0xE5, CHR 0xBA, CHR 0xA6]
       ''%%RH''
       [],
     vtype HW_TYPE_NIOSE
       [CHR 0xE5, CHR 0x99, CHR 0xAA, CHR 0xE5, CHR 0xA3, CHR 0xB0]
       ''MPa''
       [CHR 0xE5, CHR 0x88, CHR 0x86, CHR 0xE8, CHR 0xB4, CHR 0x9D, CHR 0xEF, CHR 0xBC, CHR 0x8C, CHR 0xE4, CHR 0xB8, CHR 0x8D, CHR 0xE9, CHR 0x9C, CHR 0x80, CHR 0xE8, CHR 0xA6, CHR 0x81, CHR 0xE6, CHR 0x8D, CHR 0xA2, CHR 0xE7, CHR 0xAE, CHR 0x97],
     vtype HW_TYPE_PM2_5
       ''PM2.5''
       [CHR 0xCE, CHR 0xBC, CHR 0x67, CHR 0x2F, CHR 0x6D, CHR 0xC2, CHR 0xB3]
       [CHR 0xE5, CHR 0xBE, CHR 0xAE, CHR 0xE5, CHR 0x85, CHR 0x8B, CHR 0x2F, CHR 0xE7, CHR 0xAB, CHR 0x8B, CHR 0xE6, CHR 0x96, CHR 0xB9, CHR 0xE7, CHR 0xB1, CHR 0xB3, CHR 0xEF, CHR 0xBC, CHR 0x8C, CHR 0xE4, CHR 0xB8, CHR 0x80, CHR 0xE8, CHR 0x88, CHR 0xAC, CHR 0xE5, CHR 0x8F, CHR 0xAF, CHR 0xE7, CHR 0x9C, CHR 0x81, CHR 0xE7, CHR 0x95, CHR 0xA5, CHR 0xE5, CHR 0x8D, CHR 0x95, CHR 0xE4, CHR 0xBD, CHR 0x8D],
     vtype HW_TYPE_PM10
       ''PM10''
       [CHR 0xCE, CHR 0xBC, CHR 0x67, CHR 0x2F, CHR 0x6D, CHR 0xC2, CHR 0xB3]
       [CHR 0xE5, CHR 0xBE, CHR 0xAE, CHR 0xE5, CHR 0x85, CHR 0x8B, CHR 0x2F, CHR 0xE7, CHR 0xAB, CHR 0x8B, CHR 0xE6, CHR 0x96, CHR 0xB9, CHR 0xE7, CHR 0xB1, CHR 0xB3, CHR 0xEF, CHR 0xBC, CHR 0x8C, CHR 0xE4, CHR 0xB8, CHR 0x80, CHR 0xE8, CHR 0x88, CHR 0xAC, CHR 0xE5, CHR 0x8F, CHR 0xAF, CHR 0xE7, CHR 0x9C, CHR 0x81, CHR 0xE7, CHR 0x95, CHR 0xA5, CHR 0xE5, CHR 0x8D, CHR 0x95, CHR 0xE4, CHR 0xBD, CHR 0x8D],
     vtype HW_TYPE_O2
       [CHR 0xE6, CHR 0xB0, CHR 0xA7, CHR 0xE6, CHR 0xB0, CHR 0x94]
       ''%%''
       [CHR 0xE4, CHR 0xBD, CHR 0x93, CHR 0xE7, CHR 0xA7, CHR 0xAF, CHR 0xE6, CHR 0xAF, CHR 0x94, CHR 0xEF, CHR 0xBC, CHR 0x8C, CHR 0xE4, CHR 0xB8, CHR 0x8D, CHR 0xE9, CHR 0x9C, CHR 0x80, CHR 0xE8, CHR 0xA6, CHR 0x81, CHR 0xE6, CHR 0x8D, CHR 0xA2, CHR 0xE7, CHR 0xAE, CHR 0x97],
     vtype HW_TYPE_TVOC
       ''TVOC''
       [CHR 0x6D, CHR 0x67, CHR 0x2F, CHR 0x6D, CHR 0xC2, CHR 0xB3]
       [],
     vtype HW_TYPE_FLOW
       [CHR 0xE6, CHR 0xB5, CHR 0x81, CHR 0xE9, CHR 0x87, CHR 0x8F]
       [CHR 0x6D, CHR 0xC2, CHR 0xB3, CHR 0x2F, CHR 0x6D]
       [],
     vtype HW_TYPE_SFLOW
       [CHR 0xE7, CHR 0xB4, CHR 0xAF, CHR 0xE7, CHR 0xA7, CHR 0xAF, CHR 0xE6, CHR 0xB5, CHR 0x81, CHR 0xE9, CHR 0x87, CHR 0x8F]
       [CHR 0x6D, CHR 0xC2, CHR 0xB3]
       [],
     vtype HW_TYPE_RSPD
       [CHR 0xE8, CHR 0xBD, CHR 0xAC, CHR 0xE9, CHR 0x80, CHR 0x9F]
       ''r/min''
       [],
     vtype HW_TYPE_FREQ
       [CHR 0xE9, CHR 0xA2, CHR 0x91, CHR 0xE7, CHR 0x8E, CHR 0x87]
       ''Hz''
       [],
     vtype HW_TYPE_POWER
       [CHR 0xE5, CHR 0x8A, CHR 0x9F, CHR 0xE7, CHR 0x8E, CHR 0x87]
       ''W''
       [],
     vtype HW_TYPE_ELEC
       [CHR 0xE7, CHR 0x94, CHR 0xB5, CHR 0xE8, CHR 0x83, CHR 0xBD]
       ''KW.h''
       []]"

definition hw_vkind_values :: "hw_vkind_t list" where
  "hw_vkind_values = [
     vkind HW_KIND_COL ''COL''
       [CHR 0xE6, CHR 0xA0, CHR 0x87, CHR 0xE6, CHR 0xAE, CHR 0xB5, CHR 0xE4, CHR 0xBA, CHR 0x8C],
     vkind HW_KIND_CUR ''CUR''
       [CHR 0xE7, CHR 0x94, CHR 0xB5, CHR 0xE6, CHR 0xB5, CHR 0x81],
     vkind HW_KIND_VOL ''VOL''
       [CHR 0xE7, CHR 0x94, CHR 0xB5, CHR 0xE5, CHR 0x8E, CHR 0x8B],
     vkind HW_KIND_ENV ''ENV''
       [CHR 0xE7, CHR 0x8E, CHR 0xAF, CHR 0xE5, CHR 0xA2, CHR 0x83],
     vkind HW_KIND_ASE ''ASE''
       [CHR 0xE6, CHR 0x9C, CHR 0x89, CHR 0xE6, CHR 0xBA, CHR 0x90, CHR 0xE4, CHR 0xBC, CHR 0xA0, CHR 0xE6, CHR 0x84, CHR 0x9F, CHR 0xE5, CHR 0x99, CHR 0xA8],
     vkind HW_KIND_PSE ''PSE''
       [CHR 0xE6, CHR 0x97, CHR 0xA0, CHR 0xE6, CHR 0xBA, CHR 0x90, CHR 0xE4, CHR 0xBC, CHR 0xA0, CHR 0xE6, CHR 0x84, CHR 0x9F, CHR 0xE5, CHR 0x99, CHR 0xA8],
     vkind HW_KIND_TBD ''TBD''
       [CHR 0xE6, CHR 0x9C, CHR 0xAA, CHR 0xE5, CHR 0xAE, CHR 0x9A, CHR 0xE4, CHR 0xB9, CHR 0x89]]"

subsection \<open>Searching a table\<close>

text \<open>\<open>for (i = 0; i < cnt; ++i) if (P (rows[i])) return rows[i]\<close>.\<close>

fun find_row :: "('r \<Rightarrow> bool) \<Rightarrow> 'r list \<Rightarrow> 'r option" where
  "find_row P [] = None"
| "find_row P (r # rs) = (if P r then Some r else find_row P rs)"

lemma find_row_Some: "find_row P rs = Some r \<Longrightarrow> P r \<and> r \<in> set rs"
  by (induction rs) (auto split: if_splits)

lemma find_row_None: "find_row P rs = None \<longleftrightarrow> (\<forall>r\<in>set rs. \<not> P r)"
  by (induction rs) auto

text \<open>
  The interface the users of a table rely on: rows with an identifier and a label, no identifier
  and no label (up to letter case) twice.
\<close>

locale lookup_table =
  fixes ident :: "'r \<Rightarrow> 'k" and label :: "'r \<Rightarrow> string" and rows :: "'r list"
  assumes idents: "distinct (map ident rows)"
    and labels: "distinct (map (\<lambda>r. map c_tolower (label r)) rows)"
begin

lemma ident_eq: "r \<in> set rows \<Longrightarrow> r' \<in> set rows \<Longrightarrow> ident r = ident r' \<Longrightarrow> r = r'"
  using idents by (auto simp: distinct_map dest: inj_onD)

lemma label_eq: "r \<in> set rows \<Longrightarrow> r' \<in> set rows \<Longrightarrow> same_nocase (label r) (label r') \<Longrightarrow> r = r'"
  using labels by (auto simp: distinct_map same_nocase_def dest: inj_onD)

lemma by_ident: "r \<in> set rows \<Longrightarrow> find_row (\<lambda>r'. ident r = ident r') rows = Some r"
proof (cases "find_row (\<lambda>r'. ident r = ident r') rows")
  case None
  assume "r \<in> set rows"
  with None show ?thesis by (auto simp: find_row_None)
next
  case (Some r')
  assume "r \<in> set rows"
  with Some find_row_Some [OF Some] ident_eq show ?thesis by auto
qed

lemma by_label:
  assumes "r \<in> set rows" "same_nocase n (label r)"
  shows "find_row (\<lambda>r'. same_nocase n (label r')) rows = Some r"
proof (cases "find_row (\<lambda>r'. same_nocase n (label r')) rows")
  case None
  with assms show ?thesis by (auto simp: find_row_None)
next
  case (Some r')
  from find_row_Some [OF Some] have r': "same_nocase n (label r')" "r' \<in> set rows" by simp_all
  with assms(2) have "same_nocase (label r) (label r')" by (simp add: same_nocase_def)
  from label_eq [OF assms(1) r'(2) this] Some show ?thesis by simp
qed

text \<open>Searching by label finds the row of the identifier searched by.\<close>

lemma label_ident:
  assumes "find_row (\<lambda>r'. k = ident r') rows = Some r" "same_nocase n (label r)"
  shows "map_option ident (find_row (\<lambda>r'. same_nocase n (label r')) rows) = Some k"
  using by_label [of r n] find_row_Some [OF assms(1)] assms(2) by auto

end

text \<open>The searches of the code; a null name is undefined, as it is for \<open>strcasecmp\<close>.\<close>

definition get_device_kind_by_name :: "string option \<Rightarrow> hw_dev_kind_e option" where
  "get_device_kind_by_name name = map_option (\<lambda>n.
     case find_row (\<lambda>r. same_nocase n (vk_name r)) hw_vkind_values of Some r \<Rightarrow> vk_id r | None \<Rightarrow> HW_KIND_TBD) name"

definition get_hw_type_by_name :: "string option \<Rightarrow> hw_dev_type_e option" where
  "get_hw_type_by_name name = map_option (\<lambda>n.
     case find_row (\<lambda>r. same_nocase n (vt_name r)) hw_vtype_values of Some r \<Rightarrow> vt_id r | None \<Rightarrow> HW_TYPE_TBD) name"

definition get_hw_name_by_type :: "hw_dev_type_e \<Rightarrow> string" where
  "get_hw_name_by_type t =
     (case find_row (\<lambda>r. t = vt_id r) hw_vtype_values of Some r \<Rightarrow> vt_name r | None \<Rightarrow> [])"

definition get_hw_unit_by_type :: "hw_dev_type_e \<Rightarrow> string" where
  "get_hw_unit_by_type t =
     (case find_row (\<lambda>r. t = vt_id r) hw_vtype_values of Some r \<Rightarrow> vt_unit r | None \<Rightarrow> [])"

interpretation vtypes: lookup_table vt_id vt_name hw_vtype_values
proof
  show "distinct (map vt_id hw_vtype_values)" by (simp add: hw_vtype_values_def vtype_def)
  show "distinct (map (\<lambda>r. map c_tolower (vt_name r)) hw_vtype_values)" by code_simp
qed

interpretation vkinds: lookup_table vk_id vk_name hw_vkind_values
proof
  show "distinct (map vk_id hw_vkind_values)" by (simp add: hw_vkind_values_def vkind_def)
  show "distinct (map (\<lambda>r. map c_tolower (vk_name r)) hw_vkind_values)" by code_simp
qed

lemma vtype_found: "t < HW_TYPE_RESV \<longleftrightarrow> find_row (\<lambda>r. t = vt_id r) hw_vtype_values \<noteq> None"
  by (cases t) (simp_all add: hw_vtype_values_def vtype_def less_hw_dev_type_e_def)

lemma vtypes_below: "\<forall>r\<in>set hw_vtype_values. vt_id r < HW_TYPE_RESV"
  by (simp add: hw_vtype_values_def vtype_def less_hw_dev_type_e_def)

text \<open>C20: The parameter types are named unambiguously: for every type before \<open>HW_TYPE_RESV\<close> and every
  spelling of its name in upper or lower case, \<open>get_hw_type_by_name\<close> gives the type back; any
  other name, and the names of the reserved types, give \<open>HW_TYPE_TBD\<close>.\<close>

theorem vtype_names_roundtrip:
  "(t < HW_TYPE_RESV \<and> same_nocase n (get_hw_name_by_type t) \<longrightarrow> get_hw_type_by_name (Some n) = Some t)
   \<and> (\<not> (\<exists>t<HW_TYPE_RESV. same_nocase n (get_hw_name_by_type t)) \<longrightarrow> get_hw_type_by_name (Some n) = Some HW_TYPE_TBD)"
proof (intro conjI impI)
  assume a: "t < HW_TYPE_RESV \<and> same_nocase n (get_hw_name_by_type t)"
  then obtain r where r: "find_row (\<lambda>r. t = vt_id r) hw_vtype_values = Some r" using vtype_found by auto
  with a have "same_nocase n (vt_name r)" by (simp add: get_hw_name_by_type_def)
  from vtypes.label_ident [OF r this] show "get_hw_type_by_name (Some n) = Some t"
    by (auto simp: get_hw_type_by_name_def)
next
  assume n: "\<not> (\<exists>t<HW_TYPE_RESV. same_nocase n (get_hw_name_by_type t))"
  have "\<not> same_nocase n (vt_name r)" if r: "r \<in> set hw_vtype_values" for r
    using n vtypes_below r vtypes.by_ident [OF r] by (auto simp: get_hw_name_by_type_def)
  then have "find_row (\<lambda>r. same_nocase n (vt_name r)) hw_vtype_values = None" by (simp add: find_row_None)
  then show "get_hw_type_by_name (Some n) = Some HW_TYPE_TBD" by (simp add: get_hw_type_by_name_def)
qed

theorem vtype_names_roundtrip_witness:
  "get_hw_type_by_name (Some ''tvoc'') = Some HW_TYPE_TVOC \<and> get_hw_type_by_name (Some ''tvoc2'') = Some HW_TYPE_TBD"
proof
  have "same_nocase ''tvoc'' (get_hw_name_by_type HW_TYPE_TVOC)" by code_simp
  with vtype_names_roundtrip [of HW_TYPE_TVOC "''tvoc''"] show "get_hw_type_by_name (Some ''tvoc'') = Some HW_TYPE_TVOC"
    by (simp add: less_hw_dev_type_e_def)
  have "list_all (\<lambda>t. \<not> same_nocase ''tvoc2'' (get_hw_name_by_type t)) hw_types" by code_simp
  moreover have "t \<in> set hw_types" for t by (cases t) (simp_all add: hw_types_def)
  ultimately have "\<not> same_nocase ''tvoc2'' (get_hw_name_by_type t)" for t by (simp add: list_all_iff)
  with vtype_names_roundtrip [of HW_TYPE_TVOC "''tvoc2''"] show "get_hw_type_by_name (Some ''tvoc2'') = Some HW_TYPE_TBD"
    by blast
qed

end
