(* ===== verification/DataConvert.thy ===== *)
theory DataConvert
  imports CFloat
begin

text \<open>
  \<open>dataflow/data_convert.c\<close>: the text of a value and the conversion of a loop current to a
  physical quantity, in the single precision arithmetic of the code.
\<close>

section \<open>The code\<close>

definition WS_VAL_STRLEN_MAX :: nat where "WS_VAL_STRLEN_MAX = 256"

text \<open>\<open>sprintf\<close> with \<open>%f\<close> into the static buffer.\<close>

definition hw_var2string :: "fl \<Rightarrow> string option" where
  "hw_var2string v = do { w \<leftarrow> emit_str (fmt_f 6 v) (WS_VAL_STRLEN_MAX, []); Some (snd w) }"

definition data_AD_convert :: "fl \<Rightarrow> fl \<Rightarrow> fl \<Rightarrow> fl \<Rightarrow> fl \<Rightarrow> fl" where
  "data_AD_convert v inMin inMax outMin outMax =
     (let f = binary32 in
      fadd f (fdiv f (fmul f (fsub f v inMin) (fsub f outMax outMin)) (fsub f inMax inMin)) outMin)"

section \<open>Correctness\<close>

text \<open>Single precision on integers that fit the significand.\<close>

definition small :: "int \<Rightarrow> bool" where "small i \<longleftrightarrow> \<bar>i\<bar> < 2 ^ 24"

definition is_int :: "fl \<Rightarrow> int \<Rightarrow> bool" where
  "is_int x i \<longleftrightarrow> (\<exists>s q. x = Fin s q \<and> 0 \<le> q \<and> fval x = of_int i)"

lemma is_intI: "is_int (int_fl i) i"
  by (auto simp: is_int_def int_fl_def)

lemma is_int_mag: "is_int (Fin s q) i \<Longrightarrow> q = of_int \<bar>i\<bar> \<and> (i \<noteq> 0 \<longrightarrow> (s \<longleftrightarrow> i < 0))"
  by (auto simp: is_int_def split: if_splits)

lemma of_val_is_int: "small i \<Longrightarrow> is_int (of_val binary32 z (of_int i)) i"
  using fround_exact [OF representable_int [of binary32 i]]
  by (auto simp: of_val_def is_int_def small_def)

lemma fround_is_int: "small i \<Longrightarrow> s = (i < 0) \<or> i = 0 \<Longrightarrow> is_int (fround binary32 s (of_int \<bar>i\<bar>)) i"
  using fround_exact [OF representable_int [of binary32 i]]
  by (auto simp: is_int_def small_def)

lemma fadd_is_int: "is_int x i \<Longrightarrow> is_int y j \<Longrightarrow> small (i + j) \<Longrightarrow> is_int (fadd binary32 x y) (i + j)"
proof -
  assume x: "is_int x i" and y: "is_int y j" and s: "small (i + j)"
  obtain s1 q1 s2 q2 where e: "x = Fin s1 q1" "y = Fin s2 q2" using x y by (auto simp: is_int_def)
  have "fval x + fval y = of_int (i + j)" using x y by (auto simp: is_int_def)
  with of_val_is_int [OF s, of "s1 \<and> s2"] show ?thesis unfolding e by simp
qed

lemma fneg_is_int: "is_int x i \<Longrightarrow> is_int (fneg x) (- i)"
  by (auto simp: is_int_def split: if_splits)

lemma fsub_is_int: "is_int x i \<Longrightarrow> is_int y j \<Longrightarrow> small (i - j) \<Longrightarrow> is_int (fsub binary32 x y) (i - j)"
  using fadd_is_int [of x i "fneg y" "- j"] fneg_is_int [of y j] by (simp add: fsub_def)

lemma fmul_is_int:
  assumes "is_int x i" "is_int y j" "small (i * j)"
  shows "is_int (fmul binary32 x y) (i * j)"
proof -
  obtain s q t r where e: "x = Fin s q" "y = Fin t r" using assms by (auto simp: is_int_def)
  have "q = of_int \<bar>i\<bar>" "r = of_int \<bar>j\<bar>" "i \<noteq> 0 \<longrightarrow> (s \<longleftrightarrow> i < 0)" "j \<noteq> 0 \<longrightarrow> (t \<longleftrightarrow> j < 0)"
    using is_int_mag assms unfolding e by auto
  then have "q * r = of_int \<bar>i * j\<bar>" "(s \<noteq> t) = (i * j < 0) \<or> i * j = 0"
    by (auto simp: abs_mult mult_less_0_iff not_less le_less)
  with fround_is_int [OF assms(3)] show ?thesis unfolding e by simp
qed

lemma fdiv_is_int:
  assumes "is_int x (k * j)" "is_int y j" "j \<noteq> 0" "small k"
  shows "is_int (fdiv binary32 x y) k"
proof -
  obtain s q t r where e: "x = Fin s q" "y = Fin t r" using assms by (auto simp: is_int_def)
  have m: "q = of_int \<bar>k * j\<bar>" "r = of_int \<bar>j\<bar>" "k * j \<noteq> 0 \<longrightarrow> (s \<longleftrightarrow> k * j < 0)" "t \<longleftrightarrow> j < 0"
    using is_int_mag [of s q "k * j"] is_int_mag [of t r j] assms unfolding e by simp_all
  have "r \<noteq> 0" "q / r = of_int \<bar>k\<bar>" using m(1,2) assms(3) by (simp_all add: abs_mult)
  moreover have "(s \<noteq> t) = (k < 0) \<or> k = 0"
    using m(3,4) assms(3) by (auto simp: mult_less_0_iff)
  ultimately show ?thesis using fround_is_int [OF assms(4)] unfolding e by simp
qed

lemma AD_is_int:
  assumes "(v - a) * (d - c) = k * (b - a)" "a \<noteq> b"
    and "small (v - a)" "small (b - a)" "small (d - c)" "small ((v - a) * (d - c))" "small k" "small (k + c)"
  shows "is_int (data_AD_convert (int_fl v) (int_fl a) (int_fl b) (int_fl c) (int_fl d)) (k + c)"
proof -
  let ?f = binary32
  have "is_int (fmul ?f (fsub ?f (int_fl v) (int_fl a)) (fsub ?f (int_fl d) (int_fl c))) (k * (b - a))"
    using fmul_is_int [OF fsub_is_int [OF is_intI is_intI assms(3)] fsub_is_int [OF is_intI is_intI assms(5)] assms(6)] assms(1)
    by simp
  from fdiv_is_int [OF this fsub_is_int [OF is_intI is_intI assms(4)] _ assms(7)] assms(2)
  have "is_int (fdiv ?f (fmul ?f (fsub ?f (int_fl v) (int_fl a)) (fsub ?f (int_fl d) (int_fl c))) (fsub ?f (int_fl b) (int_fl a))) k"
    by simp
  from fadd_is_int [OF this is_intI assms(8)] show ?thesis by (simp add: data_AD_convert_def Let_def)
qed

text \<open>C21: The conversion maps the calibration points exactly: with integer ranges whose spans and
  their product fit the single precision significand, the lower end of the input range gives
  the lower end of the output range and the upper end the upper end, without any rounding error.\<close>

theorem AD_endpoints_exact:
  assumes "a \<noteq> b" "small c" "small d" "small (b - a)" "small (d - c)" "small ((b - a) * (d - c))"
  shows "fval (data_AD_convert (int_fl a) (int_fl a) (int_fl b) (int_fl c) (int_fl d)) = of_int c
    \<and> fval (data_AD_convert (int_fl b) (int_fl a) (int_fl b) (int_fl c) (int_fl d)) = of_int d"
proof -
  have z: "small 0" by (simp add: small_def)
  have "is_int (data_AD_convert (int_fl a) (int_fl a) (int_fl b) (int_fl c) (int_fl d)) (0 + c)"
    by (rule AD_is_int) (use assms z in simp_all)
  moreover have "is_int (data_AD_convert (int_fl b) (int_fl a) (int_fl b) (int_fl c) (int_fl d)) ((d - c) + c)"
    by (rule AD_is_int) (use assms z in \<open>simp_all add: mult.commute\<close>)
  moreover have "is_int x i \<Longrightarrow> fval x = of_int i" for x i unfolding is_int_def by blast
  ultimately show ?thesis by simp
qed

theorem AD_endpoints_exact_witness:
  "fval (data_AD_convert (int_fl 20) (int_fl 4) (int_fl 20) (int_fl 0) (int_fl 100)) = 100"
  using AD_endpoints_exact [of 4 20 0 100] by (simp add: small_def)

text \<open>With the input range left unset (both ends 0) nothing finite comes out.\<close>

lemma AD_unset_range:
  "\<not> is_finite (data_AD_convert v (int_fl 0) (int_fl 0) c d)"
proof -
  have z: "fsub binary32 (int_fl 0) (int_fl 0) = Fin False 0"
    by (simp add: fsub_def int_fl_def of_val_def)
  have "\<not> is_finite (fdiv f x (Fin False 0))" for f x by (cases x) auto
  moreover have "\<not> is_finite x \<Longrightarrow> \<not> is_finite (fadd f x y)" for f x y by (cases x; cases y) auto
  ultimately show ?thesis unfolding data_AD_convert_def Let_def z by blast
qed

text \<open>A value of the single precision range and its text.\<close>

definition is_float :: "fl \<Rightarrow> bool" where
  "is_float x \<longleftrightarrow> (\<forall>s q. x = Fin s q \<longrightarrow> 0 \<le> q \<and> q < 2 ^ 128)"

lemma rne_less: "q < of_int n \<Longrightarrow> rne q \<le> n"
  using rne_mono [of q "of_int n"] by simp

lemma length_fmt_f_float:
  assumes "is_float x" "k \<le> 6"
  shows "length (fmt_f k x) \<le> 47"
proof (cases x)
  case (Fin s q)
  with assms have q: "0 \<le> q" "q < 2 ^ 128" by (auto simp: is_float_def)
  define n where "n = nat (rne (q * 10 ^ k))"
  have "q * 10 ^ k < of_int (2 ^ 128 * 10 ^ k)" using q by (simp add: mult_strict_right_mono)
  then have "rne (q * 10 ^ k) \<le> 2 ^ 128 * 10 ^ k" by (rule rne_less)
  then have n: "n \<le> 2 ^ 128 * 10 ^ k" unfolding n_def by (simp add: nat_le_iff)
  then have "n div 10 ^ k \<le> 2 ^ 128 * 10 ^ k div 10 ^ k" by (rule div_le_mono)
  then have "n div 10 ^ k < 10 ^ 39" by simp
  then have "length (dec (n div 10 ^ k)) \<le> 39" by (rule dec_length_le) simp
  moreover have "0 < k \<Longrightarrow> length (dec (n mod 10 ^ k)) \<le> k" by (rule dec_length_le) simp_all
  ultimately show ?thesis using assms(2) Fin n_def [symmetric]
    by (auto simp: digits_after_def sign_str_def length_pad_left)
qed (auto simp: sign_str_def)

text \<open>C22: Every single precision value, the special ones included, has a text that fits the static
  buffer of \<open>hw_var2string\<close>.\<close>

theorem var2string_fits:
  assumes "is_float v"
  shows "hw_var2string v = Some (fmt_f 6 v)"
  using length_fmt_f_float [OF assms, of 6] by (simp add: hw_var2string_def emit_str_def WS_VAL_STRLEN_MAX_def)

theorem var2string_fits_witness: "hw_var2string (Fin True (2 ^ 127)) = Some (fmt_f 6 (Fin True (2 ^ 127)))"
  by (rule var2string_fits) (simp add: is_float_def)

end
