(* ===== verification/SysUtil.thy ===== *)
theory SysUtil
  imports CString "HOL-Library.Word"
begin

text \<open>
  The thin layer over the operating system: \<open>common/common.c\<close> (rate limit of reconnects),
  \<open>common/sys_file.c\<close>, \<open>common/sys_time.c\<close>, \<open>common/sys_shm.c\<close> and \<open>shm/source/srv_shm.c\<close>.
  The kernel is a parameter: each function takes what its system calls return.  The documented
  behaviour of the calls appears as hypotheses of the theorems that need it.
\<close>

section \<open>Reconnect rate limit\<close>

text \<open>
  \<open>ratelimit_connects\<close>: seconds are a 64 bit \<open>time_t\<close>, the stored time and the distance are
  \<open>unsigned int\<close>; the result is the returned int and the stored time.
\<close>

definition ratelimit_connects :: "64 word \<Rightarrow> 32 word \<Rightarrow> 32 word \<Rightarrow> int \<times> 32 word" where
  "ratelimit_connects tv_sec lst secs =
     (if tv_sec - (ucast lst :: 64 word) < (ucast secs :: 64 word) then (0, lst) else (1, ucast tv_sec))"

text \<open>A client that asks at the given times; the times at which it was let through.\<close>

fun admitted :: "32 word \<Rightarrow> 32 word \<Rightarrow> 64 word list \<Rightarrow> 64 word list" where
  "admitted lst secs [] = []"
| "admitted lst secs (t # ts) =
     (let (ok, lst') = ratelimit_connects t lst secs
      in if ok = 1 then t # admitted lst' secs ts else admitted lst' secs ts)"

lemma ucast32_64: "t < 2 ^ 32 \<Longrightarrow> (ucast (ucast t :: 32 word) :: 64 word) = t"
proof -
  assume "t < 2 ^ 32"
  then have "uint t < 2 ^ 32" by (simp add: word_less_alt)
  then show ?thesis by (simp add: unsigned_ucast_eq word_uint_eq_iff unsigned_take_bit_eq take_bit_int_eq_self)
qed

lemma ratelimit_admits:
  assumes "t < 2 ^ 32" "ucast lst \<le> t"
  shows "fst (ratelimit_connects t lst secs) = 1 \<longleftrightarrow> uint lst + uint secs \<le> uint t"
proof -
  let ?l = "ucast lst :: 64 word" and ?s = "ucast secs :: 64 word"
  have "uint (t - ?l) = uint t - uint ?l" using assms(2) by (rule uint_minus_simple_alt [THEN iffD1])
  moreover have "uint ?l = uint lst" "uint ?s = uint secs" by (simp_all add: uint_up_ucast is_up)
  ultimately have "t - ?l < ?s \<longleftrightarrow> uint t - uint lst < uint secs" by (simp add: word_less_alt)
  then show ?thesis by (auto simp: ratelimit_connects_def)
qed

lemma ratelimit_last:
  assumes "t < 2 ^ 32"
  shows "ucast (snd (ratelimit_connects t lst secs))
    = (if fst (ratelimit_connects t lst secs) = 1 then t else ucast lst)"
  using ucast32_64 [OF assms] by (auto simp: ratelimit_connects_def)

section \<open>Files\<close>

text \<open>What the calls on one file return: \<open>open\<close>, \<open>errno\<close>, \<open>fstat\<close> with the size, \<open>read\<close> and \<open>write\<close>.\<close>

record file_calls =
  fc_open :: int
  fc_errno :: int
  fc_fstat :: int
  fc_size :: int
  fc_read :: "int \<Rightarrow> int \<times> string"
  fc_write :: "string \<Rightarrow> int"

text \<open>
  \<open>read_file\<close> into the buffer \<open>out\<close>: the returned int, the buffer, the stored length, and the
  descriptors closed.  The comparisons of \<open>uint32_t\<close> with \<open>off_t\<close> and \<open>ssize_t\<close> are 64 bit.
\<close>

definition read_file ::
  "file_calls \<Rightarrow> string option \<Rightarrow> string option \<Rightarrow> 32 word option
     \<Rightarrow> (int \<times> string option \<times> 32 word option \<times> int list) option" where
  "read_file k filename out outl =
     (case (filename, out, outl) of
        (Some f, Some buf, Some l) \<Rightarrow>
          if l = 0 then Some (- 1, out, outl, [])
          else let fd = fc_open k in
            if fd \<le> 0 then Some (fc_errno k, out, outl, [])
            else if fc_fstat k \<noteq> 0 then Some (fc_fstat k, out, outl, [fd])
            else if uint l < fc_size k then Some (- 1, out, outl, [fd])
            else do {
              let (n, bytes) = fc_read k (fc_size k);
              buf' \<leftarrow> splice_opt buf 0 bytes;
              (if fc_size k \<noteq> n then Some (- 1, Some buf', outl, [fd])
               else Some (0, Some buf', Some (word_of_int (fc_size k)), [fd]))
            }
      | _ \<Rightarrow> Some (- 1, out, outl, []))"

definition write_file :: "file_calls \<Rightarrow> string option \<Rightarrow> string option \<Rightarrow> 32 word \<Rightarrow> int \<times> int list" where
  "write_file k filename inp inl =
     (case (filename, inp) of
        (Some f, Some bytes) \<Rightarrow>
          if inl = 0 then (- 1, [])
          else let fd = fc_open k in
            if fd \<le> 0 then (fc_errno k, [])
            else if uint inl \<noteq> fc_write k (take (unat inl) bytes) then (- 1, [fd])
            else (0, [fd])
      | _ \<Rightarrow> (- 1, []))"

text \<open>\<open>write_file_from_str\<close>: the file and what \<open>fputs\<close> puts there; its result is ignored.\<close>

definition write_file_from_str :: "bool \<Rightarrow> (string \<Rightarrow> string) \<Rightarrow> string \<Rightarrow> int \<times> string option" where
  "write_file_from_str fopen_ok fputs_to str = (if \<not> fopen_ok then (- 1, None) else (0, Some (fputs_to str)))"

text \<open>The kernel as documented, for a regular file with the given bytes.\<close>

definition reads_file :: "file_calls \<Rightarrow> string \<Rightarrow> bool" where
  "reads_file k content \<longleftrightarrow> fc_open k > 0 \<and> fc_fstat k = 0 \<and> fc_size k = int (length content)
     \<and> (\<forall>n. fst (fc_read k n) \<le> n \<and> length (snd (fc_read k n)) = nat (fst (fc_read k n))
          \<and> snd (fc_read k n) = take (nat (fst (fc_read k n))) content)"

definition plain_calls :: "string \<Rightarrow> file_calls" where
  "plain_calls content = \<lparr>fc_open = 3, fc_errno = 0, fc_fstat = 0, fc_size = int (length content),
     fc_read = (\<lambda>n. (min n (int (length content)), take (nat (min n (int (length content)))) content)),
     fc_write = (\<lambda>s. int (length s))\<rparr>"

lemma plain_reads: "reads_file (plain_calls content) content"
  by (auto simp: reads_file_def plain_calls_def)

section \<open>Time stamps\<close>

record tm =
  tm_year :: int
  tm_mon :: int
  tm_mday :: int
  tm_hour :: int
  tm_min :: int
  tm_sec :: int

text \<open>\<open>%0wd\<close>.\<close>

definition fmt_0d :: "nat \<Rightarrow> int \<Rightarrow> string" where
  "fmt_0d w i = (if i < 0 then CHR ''-'' # pad_left CHR ''0'' (w - 1) (dec (nat (- i)))
                 else pad_left CHR ''0'' w (dec (nat i)))"

definition time_text :: "tm \<Rightarrow> int \<Rightarrow> string" where
  "time_text t millitm =
     fmt_0d 4 (tm_year t + 1900) @ ''-'' @ fmt_0d 2 (tm_mon t + 1) @ ''-'' @ fmt_0d 2 (tm_mday t) @ '' ''
     @ fmt_0d 2 (tm_hour t) @ '':'' @ fmt_0d 2 (tm_min t) @ '':'' @ fmt_0d 2 (tm_sec t) @ ''.'' @ fmt_0d 3 millitm"

text \<open>\<open>get_sys_time\<close> into a buffer of \<open>cap\<close> bytes, \<open>None\<close> for the null pointer.\<close>

definition get_sys_time :: "tm \<Rightarrow> int \<Rightarrow> nat option \<Rightarrow> (int \<times> string) option" where
  "get_sys_time now millitm time =
     (case time of None \<Rightarrow> Some (- 1, [])
      | Some cap \<Rightarrow> do {
          w \<leftarrow> emit_str (time_text now millitm) (cap, []);
          Some (int (length (time_text now millitm)), snd w)
        })"

definition calendar :: "tm \<Rightarrow> bool" where
  "calendar t \<longleftrightarrow> - 1900 \<le> tm_year t \<and> tm_year t < 8100 \<and> 0 \<le> tm_mon t \<and> tm_mon t < 12
     \<and> 1 \<le> tm_mday t \<and> tm_mday t \<le> 31 \<and> 0 \<le> tm_hour t \<and> tm_hour t < 24
     \<and> 0 \<le> tm_min t \<and> tm_min t < 60 \<and> 0 \<le> tm_sec t \<and> tm_sec t \<le> 60"

lemma length_fmt_0d: "0 \<le> i \<Longrightarrow> i < 10 ^ w \<Longrightarrow> 0 < w \<Longrightarrow> length (fmt_0d w i) = w"
proof -
  assume "0 \<le> i" "i < 10 ^ w" "0 < w"
  then have "nat i < 10 ^ w" by (simp add: nat_less_iff)
  then have "length (dec (nat i)) \<le> w" using dec_length_le \<open>0 < w\<close> by blast
  with \<open>0 \<le> i\<close> show ?thesis by (simp add: fmt_0d_def length_pad_left)
qed

lemma undec_zeros: "undec (replicate k CHR ''0'' @ s) = undec s"
proof -
  have "foldl (\<lambda>n c. 10 * n + digit_val c) 0 (replicate k CHR ''0'') = 0"
    by (induction k) (simp_all add: digit_val_def code_def)
  then show ?thesis by (simp add: undec_def)
qed

lemma undec_fmt_0d: "0 \<le> i \<Longrightarrow> int (undec (fmt_0d w i)) = i"
  by (simp add: fmt_0d_def pad_left_def undec_zeros)

lemma length_time_text:
  assumes "calendar t" "0 \<le> ms" "ms < 1000"
  shows "length (time_text t ms) = 23"
  using assms length_fmt_0d [of "tm_year t + 1900" 4] length_fmt_0d [of "tm_mon t + 1" 2]
    length_fmt_0d [of "tm_mday t" 2] length_fmt_0d [of "tm_hour t" 2] length_fmt_0d [of "tm_min t" 2]
    length_fmt_0d [of "tm_sec t" 2] length_fmt_0d [of ms 3]
  by (simp add: calendar_def time_text_def)

text \<open>Reading a time stamp back.\<close>

definition time_fields :: "string \<Rightarrow> int list" where
  "time_fields s = map (\<lambda>(i, n). int (undec (take n (drop i s)))) [(0, 4), (5, 2), (8, 2), (11, 2), (14, 2), (17, 2), (20, 3)]"

section \<open>Shared memory\<close>

definition IPC_CREAT :: nat where "IPC_CREAT = 512"

text \<open>\<open>ftok\<close>, \<open>shmget\<close> and \<open>shmat\<close>; an address is an int, 0 is null and -1 the failure of \<open>shmat\<close>.\<close>

record shm_calls =
  k_ftok :: "string \<Rightarrow> int \<Rightarrow> int"
  k_shmget :: "int \<Rightarrow> nat \<Rightarrow> nat \<Rightarrow> int"
  k_shmat :: "int \<Rightarrow> int"

definition c_or :: "nat \<Rightarrow> nat \<Rightarrow> nat" where  \<comment> \<open>the logical \<open>||\<close>\<close>
  "c_or a b = (if a \<noteq> 0 \<or> b \<noteq> 0 then 1 else 0)"

text \<open>
  \<open>shm_open\<close> returns the identifier and the new value of \<open>*addr\<close>.  A set \<open>*addr\<close> makes it free
  the pointer variable itself, which no allocation returned (or which it writes afterwards).
\<close>

definition shm_open :: "shm_calls \<Rightarrow> int \<Rightarrow> nat \<Rightarrow> int \<Rightarrow> (int \<times> int) option" where
  "shm_open k key sz addr = do {
     let fkey = k_ftok k ''/tmp'' key;
     guard (addr = 0);
     let shmid = k_shmget k fkey sz (c_or 438 IPC_CREAT);
     (if shmid < 0 then Some (- 1, addr)
      else let addr' = k_shmat k shmid in
        if addr' = 0 then Some (- 1, addr') else Some (shmid, addr'))
   }"

definition shm_close :: "int \<Rightarrow> int set \<Rightarrow> int set" where  \<comment> \<open>removes the segment\<close>
  "shm_close shm_id segs = segs - {shm_id}"

definition SHM_HW_KEY :: int where "SHM_HW_KEY = 209"

definition shm_hardware_init :: "shm_calls \<Rightarrow> int \<Rightarrow> (int \<times> int) option" where
  "shm_hardware_init k shmData = do {
     (r, addr) \<leftarrow> shm_open k SHM_HW_KEY (1024 * 4) shmData;
     (if r < 0 then Some (- 1, addr) else Some (0, addr))
   }"

record shm_handle_t =
  sh_key :: int
  sh_id :: int
  sh_paddr :: int
  sh_size :: nat

definition shm_init :: "shm_calls \<Rightarrow> shm_handle_t option \<Rightarrow> (int \<times> shm_handle_t option) option" where
  "shm_init k shm_handle =
     (case shm_handle of None \<Rightarrow> Some (- 1, None)
      | Some s \<Rightarrow> do {
          (r, addr) \<leftarrow> shm_open k (sh_key s) (sh_size s) (sh_paddr s);
          let s' = s\<lparr>sh_id := r, sh_paddr := addr\<rparr>;
          (if r < 0 then Some (- 1, Some s') else Some (0, Some s'))
        })"

section \<open>Properties\<close>

text \<open>C23: While the clock runs forward and fits 32 bits, the rate limit lets a client through exactly
  when the interval has passed since the last admission, so any two admissions are at least
  the interval apart, however often the client asks.\<close>

theorem ratelimit_spacing:
  assumes "sorted ts" "\<forall>t\<in>set ts. t < 2 ^ 32 \<and> ucast lst \<le> t"
  shows "successively (\<lambda>a b. uint a + uint secs \<le> uint b) (ucast lst # admitted lst secs ts)"
  using assms
proof (induction ts arbitrary: lst)
  case (Cons t ts)
  obtain ok lst' where r: "ratelimit_connects t lst secs = (ok, lst')" by (cases "ratelimit_connects t lst secs")
  from Cons.prems have t: "t < 2 ^ 32" "ucast lst \<le> t" by auto
  note a = ratelimit_admits [OF t, of secs, unfolded r] and l = ratelimit_last [OF t(1), of lst secs, unfolded r]
  have IH: "successively (\<lambda>a b. uint a + uint secs \<le> uint b) (ucast lst' # admitted lst' secs ts)"
    by (rule Cons.IH) (use Cons.prems t l in \<open>auto split: if_splits\<close>)
  show ?case
  proof (cases "ok = 1")
    case True
    with IH a l r show ?thesis by (simp add: uint_up_ucast is_up)
  next
    case False
    with r have "lst' = lst" by (auto simp: ratelimit_connects_def split: if_splits)
    with IH r False show ?thesis by simp
  qed
qed simp

theorem ratelimit_spacing_witness:
  "successively (\<lambda>a b. uint a + uint (5 :: 32 word) \<le> uint b) (ucast (100 :: 32 word) # admitted 100 5 [101, 105, 107, 111])
    \<and> admitted 100 5 [101, 105, 107, 111] = [105, 111]"
proof
  show "successively (\<lambda>a b. uint a + uint (5 :: 32 word) \<le> uint b) (ucast (100 :: 32 word) # admitted 100 5 [101, 105, 107, 111])"
    by (rule ratelimit_spacing) simp_all
qed (simp add: ratelimit_connects_def)

text \<open>When the clock is set back the distance wraps around and the client is let through at once.\<close>

lemma ratelimit_clock_set_back:
  assumes "t < ucast lst" "uint lst < 2 ^ 32"
  shows "fst (ratelimit_connects t lst secs) = 1"
proof -
  have l: "uint (ucast lst :: 64 word) = uint lst" and s: "uint (ucast secs :: 64 word) = uint secs"
    by (simp_all add: uint_up_ucast is_up)
  have pw: "(2 :: int) ^ 64 = 18446744073709551616" "(2 :: int) ^ 32 = 4294967296" by simp_all
  have "uint t < uint lst" using assms(1) l by (simp add: word_less_alt)
  then have "uint (t - ucast lst) = uint t - uint lst + 2 ^ 64"
    using l by (simp add: uint_sub_if')
  moreover have "uint secs < 2 ^ 32" using uint_lt2p [of secs] by simp
  ultimately have "\<not> t - ucast lst < ucast secs"
    using assms(2) uint_ge_0 [of t] s pw unfolding word_less_alt by linarith
  then show ?thesis by (simp add: ratelimit_connects_def)
qed



text \<open>C25: \<open>get_sys_time\<close> writes 23 characters and a terminator for every calendar date, so its
  buffers must hold 24 bytes and those of the terminal (64) do; the stamp determines the time: every
  field can be read back from its columns.\<close>

theorem time_stamp_roundtrip:
  assumes "calendar t" "0 \<le> ms" "ms < 1000" "24 \<le> cap"
  shows "\<exists>s. get_sys_time t ms (Some cap) = Some (23, s) \<and> length s = 23
    \<and> time_fields s = [tm_year t + 1900, tm_mon t + 1, tm_mday t, tm_hour t, tm_min t, tm_sec t, ms]"
proof -
  note len = length_fmt_0d [of "tm_year t + 1900" 4] length_fmt_0d [of "tm_mon t + 1" 2]
    length_fmt_0d [of "tm_mday t" 2] length_fmt_0d [of "tm_hour t" 2] length_fmt_0d [of "tm_min t" 2]
    length_fmt_0d [of "tm_sec t" 2] length_fmt_0d [of ms 3]
  have "time_fields (time_text t ms) = [tm_year t + 1900, tm_mon t + 1, tm_mday t, tm_hour t, tm_min t, tm_sec t, ms]"
    using assms len by (simp add: calendar_def time_fields_def time_text_def undec_fmt_0d)
  then show ?thesis
    using assms length_time_text [of t ms] by (simp add: get_sys_time_def emit_str_def)
qed

theorem time_stamp_roundtrip_witness:
  "\<exists>s. get_sys_time \<lparr>tm_year = 123, tm_mon = 3, tm_mday = 5, tm_hour = 9, tm_min = 28, tm_sec = 47\<rparr> 475 (Some 64) = Some (23, s)
    \<and> time_fields s = [2023, 4, 5, 9, 28, 47, 475]"
  using time_stamp_roundtrip [of "\<lparr>tm_year = 123, tm_mon = 3, tm_mday = 5, tm_hour = 9, tm_min = 28, tm_sec = 47\<rparr>" 475 64]
  by (auto simp: calendar_def)

text \<open>\<open>shm_open\<close> never creates the segment it is to open: the flag word \<open>0666 || IPC_CREAT\<close> is the
  logical or, it is 1 and has the creation bit clear; with a kernel that, as documented, refuses a
  missing segment to a call without that bit, the start of the terminal before the sampling process
  has created the segment ends in an error.\<close>

lemma shm_open_never_creates:
  assumes "\<forall>key sz flag. flag div IPC_CREAT mod 2 = 0 \<and> key \<notin> segs \<longrightarrow> k_shmget k key sz flag = - 1"
    and "k_ftok k ''/tmp'' SHM_HW_KEY \<notin> segs"
  shows "shm_hardware_init k 0 = Some (- 1, 0)"
proof -
  have "c_or 438 IPC_CREAT div IPC_CREAT mod 2 = 0" by (simp add: c_or_def IPC_CREAT_def)
  with assms show ?thesis by (simp add: shm_hardware_init_def shm_open_def Let_def)
qed

lemma shm_open_never_creates_witness:
  "shm_hardware_init \<lparr>k_ftok = (\<lambda>_ i. i), k_shmget = (\<lambda>key sz flag. if key = 7 \<or> flag div IPC_CREAT mod 2 = 1 then 5 else - 1),
     k_shmat = (\<lambda>_. 4096)\<rparr> 0 = Some (- 1, 0)"
  by (rule shm_open_never_creates [where segs = "{7}"]) (auto simp: SHM_HW_KEY_def)

text \<open>A failed attachment goes unnoticed: \<open>shmat\<close> reports it as -1, the code looks for null.\<close>

lemma shm_attach_failure_unnoticed:
  assumes "k_shmget k (k_ftok k ''/tmp'' SHM_HW_KEY) 4096 1 = 5" "k_shmat k 5 = - 1"
  shows "shm_hardware_init k 0 = Some (0, - 1)"
  using assms by (simp add: shm_hardware_init_def shm_open_def Let_def c_or_def)

text \<open>A second \<open>shm_init\<close> on the same handle frees an address inside it.\<close>

lemma shm_init_twice:
  assumes "shm_init k (Some s) = Some (0, Some s')"
  shows "shm_init k (Some s') = None"
  using assms by (auto simp: shm_init_def shm_open_def Let_def guard_def monad_simps split: if_splits prod.splits)

end
