(* ===== verification/StringTable.thy ===== *)
theory StringTable
  imports CString
begin

text \<open>
  The text tables of \<open>common/stringtable.c\<close>, with which the terminal shows its hardware
  interfaces.  A table lives in one block of memory: the structure \<open>s_t_matedate\<close>, one pointer per
  cell, and the rendered text.  The model keeps the structure as a record, the pointers as a list of
  positions in the text area, and the text area as the bytes up to the end of the block; a write
  behind the end of the block is undefined.  The second half shows that the text drawn by the
  offset arithmetic of the code is the picture of an abstract grid and that setting a cell is
  updating the grid.  Sizes are natural numbers: the products of the code stay below
  \<open>INT_MAX\<close> for every table the program draws.
\<close>

section \<open>The code\<close>

definition MAX_TABLE_NAME :: nat where "MAX_TABLE_NAME = 64"
definition MAX_COLWIDTH :: nat where "MAX_COLWIDTH = 32"

datatype tb_attribute = TB_LINE_SEPARATOR | TB_COLUMN_SEPARATOR | TB_INTERSECTION_SYMBOL | TB_STRING_END_SYMBOL

fun g_tb_default_value :: "tb_attribute \<Rightarrow> char" where
  "g_tb_default_value TB_LINE_SEPARATOR = CHR ''|''"
| "g_tb_default_value TB_COLUMN_SEPARATOR = CHR ''=''"
| "g_tb_default_value TB_INTERSECTION_SYMBOL = CHR ''=''"
| "g_tb_default_value TB_STRING_END_SYMBOL = NUL"

definition g_line_break :: "string list" where
  "g_line_break = [[CHR '' '', CHR 0x0A], [CHR 0x0D, CHR 0x0A]]"

text \<open>The name field holds its bytes up to the terminator; the code zeroes the block first.\<close>

record s_t_matedate =
  st_name :: string
  table_type :: nat
  table_x :: nat
  table_y :: nat
  mem_num :: nat
  colwidth :: nat
  rel_line_num :: nat
  st_ptrs :: "nat list"
  st_data :: string

text \<open>\<open>ps\<close> is the size of a pointer: 8 on the build host, 4 on the terminal.\<close>

definition sizeof_matedate :: "nat \<Rightarrow> nat" where
  "sizeof_matedate ps = MAX_TABLE_NAME + 6 * 4 + ps"

definition s_table_size_compute :: "nat \<Rightarrow> nat \<Rightarrow> nat \<Rightarrow> nat \<Rightarrow> nat" where
  "s_table_size_compute ps x y w =
     (let table_info = sizeof_matedate ps;
          table_mate_size = ps * x * y;
          table_wide = (w + 1) * x + 1 + 2;
          table_size = table_wide * (2 * y + 3) + 1
      in table_info + table_mate_size + table_wide + table_size)"

text \<open>The slot of a cell; the callers pass row and column in this order.\<close>

definition s_table_get :: "s_t_matedate \<Rightarrow> nat \<Rightarrow> nat \<Rightarrow> nat" where
  "s_table_get md x y = y * table_y md + x"

definition draw_lines :: "s_t_matedate \<Rightarrow> string \<Rightarrow> string option" where
  "draw_lines md = for_up (2 * table_y md + 3) 0 (\<lambda>y d. do {
     let L = rel_line_num md;
     let tmp = (if y mod 2 = 0 then g_tb_default_value TB_COLUMN_SEPARATOR else CHR '' '');
     d \<leftarrow> splice_opt d (y * L) (replicate L tmp);
     brk \<leftarrow> nth_opt g_line_break (table_type md);
     d \<leftarrow> upd_opt d (y * L + L - 2) (brk ! 0);
     upd_opt d (y * L + L - 1) (brk ! 1)
   })"

definition draw_columns :: "s_t_matedate \<Rightarrow> string \<Rightarrow> string option" where
  "draw_columns md = for_up (2 * table_y md + 3) 0 (\<lambda>y.
     for_up (rel_line_num md - 2) 0 (\<lambda>x d.
       if x mod (colwidth md + 1) = 0
       then upd_opt d (y * rel_line_num md + x)
              (g_tb_default_value (if y mod 2 = 0 then TB_INTERSECTION_SYMBOL else TB_LINE_SEPARATOR))
       else Some d))"

definition draw_title :: "s_t_matedate \<Rightarrow> string \<Rightarrow> string option" where
  "draw_title md d = do {
     let L = rel_line_num md;
     let n = length (st_name md);
     guard (5 \<le> L \<and> n div 2 \<le> (L + 1) + (L - 2) div 2);
     d \<leftarrow> splice_opt d (L + 1 + 1) (replicate (L - 5) CHR '' '');
     splice_opt d (L + 1 + (L - 2) div 2 - n div 2) (st_name md)
   }"

definition set_pointers :: "s_t_matedate \<Rightarrow> nat list \<Rightarrow> nat list option" where
  "set_pointers md = for_up (table_y md) 0 (\<lambda>y.
     for_up (table_x md) 0 (\<lambda>x ps.
       upd_opt ps (s_table_get md y x)
         (2 * rel_line_num md + y * (2 * rel_line_num md) + rel_line_num md + (x * (colwidth md + 1) + 1))))"

definition s_table_tableinit :: "s_t_matedate \<Rightarrow> s_t_matedate option" where
  "s_table_tableinit md = do {
     d \<leftarrow> draw_lines md (st_data md);
     d \<leftarrow> upd_opt d ((2 * table_y md + 3) * rel_line_num md) (g_tb_default_value TB_STRING_END_SYMBOL);
     d \<leftarrow> draw_columns md d;
     d \<leftarrow> draw_title md d;
     ps \<leftarrow> set_pointers md (st_ptrs md);
     Some (md\<lparr>st_data := d, st_ptrs := ps\<rparr>)
   }"

text \<open>
  \<open>s_table_create\<close> on a block of \<open>num\<close> bytes: the inner option is the returned pointer.
  The name check lets a name through that does not fit the field; copying it is undefined.
\<close>

definition s_table_create ::
  "nat \<Rightarrow> string \<Rightarrow> nat \<Rightarrow> nat \<Rightarrow> nat \<Rightarrow> nat \<Rightarrow> s_t_matedate option option" where
  "s_table_create ps table_name x y w num =
     (if num < sizeof_matedate ps + ps * x * y + (x * (w + 1) + 1) * (y + 2) then Some None
      else do {
        let L = (w + 1) * x + 1 + 2;
        let name_len = int (length table_name);
        (if name_len - 1 > int MAX_TABLE_NAME \<or> name_len - 1 > int L - 5 then Some None
         else do {
           guard (length table_name < MAX_TABLE_NAME);
           let md = \<lparr>st_name = table_name, table_type = 0, table_x = x, table_y = y, mem_num = num,
                     colwidth = w, rel_line_num = L, st_ptrs = replicate (x * y) 0,
                     st_data = replicate (num - sizeof_matedate ps - ps * x * y) NUL\<rparr>;
           md \<leftarrow> s_table_tableinit md;
           Some (Some md)
         })
      })"

definition s_table_create_0 ::
  "nat \<Rightarrow> (nat \<Rightarrow> bool) \<Rightarrow> string \<Rightarrow> nat \<Rightarrow> nat \<Rightarrow> nat \<Rightarrow> s_t_matedate option option" where
  "s_table_create_0 ps malloc_ok table_name x y w =
     (let tb_size = s_table_size_compute ps x y w
      in if malloc_ok tb_size then s_table_create ps table_name x y w tb_size else Some None)"

definition s_table_valueset :: "s_t_matedate \<Rightarrow> nat \<Rightarrow> nat \<Rightarrow> string \<Rightarrow> (nat \<times> s_t_matedate) option" where
  "s_table_valueset md x y value =
     (if table_x md \<le> x \<or> table_y md \<le> y then Some (0, md)
      else if colwidth md < length value then Some (0, md)
      else do {
        p \<leftarrow> nth_opt (st_ptrs md) (s_table_get md y x);
        d \<leftarrow> splice_opt (st_data md) p (replicate (colwidth md) CHR '' '');
        d \<leftarrow> splice_opt d p value;
        Some (1, md\<lparr>st_data := d\<rparr>)
      })"

text \<open>
  Cutting the next value off a separated list.  The value buffer of the caller has
  \<open>MAX_COLWIDTH + 1\<close> bytes; the list is terminated, its end is the empty list here.
\<close>

fun sv_copy :: "string \<Rightarrow> char \<Rightarrow> writer \<Rightarrow> (writer \<times> string) option" where
  "sv_copy [] separ w = Some (w, [])"
| "sv_copy (c # s) separ w =
     (if c = separ then Some (w, c # s) else do { w \<leftarrow> emit [c] w; sv_copy s separ w })"

fun sv_skip :: "string \<Rightarrow> char \<Rightarrow> string" where
  "sv_skip [] separ = []"
| "sv_skip (c # s) separ = (if c = separ then sv_skip s separ else c # s)"

definition s_table_values_get :: "string \<Rightarrow> char \<Rightarrow> nat \<Rightarrow> (string \<times> string option) option" where
  "s_table_values_get values separ cap = do {
     guard (separ \<noteq> NUL);
     (w, rest) \<leftarrow> sv_copy values separ (cap, []);
     w \<leftarrow> emit_str [] w;
     let next = sv_skip rest separ;
     Some (snd w, if next = [] then None else Some next)
   }"

function s_table_valuesetxs_ex ::
  "s_t_matedate \<Rightarrow> nat \<Rightarrow> nat \<Rightarrow> string \<Rightarrow> char \<Rightarrow> bool \<Rightarrow> nat \<Rightarrow> (nat \<times> s_t_matedate) option" where
  "s_table_valuesetxs_ex md x_y s values separ type n =
     (if (if type then table_y md else table_x md) \<le> s then Some (n, md)
      else do {
        (tmp_value, value_next) \<leftarrow> s_table_values_get values separ (MAX_COLWIDTH + 1);
        (ret, md') \<leftarrow> (if type then s_table_valueset md x_y s tmp_value
                     else s_table_valueset md s x_y tmp_value);
        (if ret = 0 then Some (n, md')
         else case value_next of
             None \<Rightarrow> Some (n + ret, md')
           | Some v \<Rightarrow> if length v < length values
                      then s_table_valuesetxs_ex md' x_y (s + 1) v separ type (n + ret) else None)
      })"
  by pat_completeness auto
termination
  by (relation "measure (\<lambda>(md, x_y, s, values, separ, type, sum). length values)") auto

definition s_table_valuesetxs ::
  "s_t_matedate \<Rightarrow> nat \<Rightarrow> nat \<Rightarrow> string \<Rightarrow> char \<Rightarrow> (nat \<times> s_t_matedate) option" where
  "s_table_valuesetxs md x s values separ = s_table_valuesetxs_ex md x s values separ False 0"

definition s_table_valuesetys ::
  "s_t_matedate \<Rightarrow> nat \<Rightarrow> nat \<Rightarrow> string \<Rightarrow> char \<Rightarrow> (nat \<times> s_t_matedate) option" where
  "s_table_valuesetys md y s values separ = s_table_valuesetxs_ex md y s values separ True 0"

definition s_table_valueget :: "nat \<Rightarrow> nat \<Rightarrow> cptr" where
  "s_table_valueget x y = Null"

definition s_table_string_get :: "s_t_matedate option \<Rightarrow> cptr" where
  "s_table_string_get t = (case t of None \<Rightarrow> Null | Some md \<Rightarrow> Ptr (st_data md))"

section \<open>The picture of a grid\<close>

text \<open>What a table shows: a title and the values of the cells, column by row.\<close>

definition rule_line :: "nat \<Rightarrow> string" where
  "rule_line L = replicate (L - 2) CHR ''='' @ [CHR '' '', CHR 0x0A]"

definition cell_block :: "nat \<Rightarrow> string \<Rightarrow> string" where
  "cell_block w v = pad_right w v @ [CHR ''|'']"

definition cell_line :: "nat \<Rightarrow> string list \<Rightarrow> string" where
  "cell_line w vs = CHR ''|'' # concat (map (cell_block w) vs) @ [CHR '' '', CHR 0x0A]"

definition title_line :: "nat \<Rightarrow> string \<Rightarrow> string" where
  "title_line L name =
     (let a = (L - 2) div 2 - length name div 2
      in CHR ''|'' # replicate a CHR '' '' @ name @ replicate (L - 4 - a - length name) CHR '' ''
         @ [CHR ''|'', CHR '' '', CHR 0x0A])"

definition grid_lines :: "nat \<Rightarrow> nat \<Rightarrow> nat \<Rightarrow> string \<Rightarrow> (nat \<Rightarrow> nat \<Rightarrow> string) \<Rightarrow> string list" where
  "grid_lines w X Y name f =
     (let L = (w + 1) * X + 3
      in [rule_line L, title_line L name, rule_line L]
         @ concat (map (\<lambda>y. [cell_line w (map (\<lambda>x. f x y) [0..<X]), rule_line L]) [0..<Y]))"

definition render :: "nat \<Rightarrow> nat \<Rightarrow> nat \<Rightarrow> string \<Rightarrow> (nat \<Rightarrow> nat \<Rightarrow> string) \<Rightarrow> string" where
  "render w X Y name f = concat (grid_lines w X Y name f)"

text \<open>The refinement relation.\<close>

definition shows_grid :: "s_t_matedate \<Rightarrow> (nat \<Rightarrow> nat \<Rightarrow> string) \<Rightarrow> bool" where
  "shows_grid md f \<longleftrightarrow>
     rel_line_num md = (colwidth md + 1) * table_x md + 3
     \<and> length (st_ptrs md) = table_x md * table_y md
     \<and> (\<forall>x<table_x md. \<forall>y<table_y md. st_ptrs md ! (x * table_y md + y)
          = (3 + 2 * y) * rel_line_num md + (1 + x * (colwidth md + 1)))
     \<and> (\<forall>x<table_x md. \<forall>y<table_y md. length (f x y) \<le> colwidth md)
     \<and> (\<exists>z. st_data md = render (colwidth md) (table_x md) (table_y md) (st_name md) f @ NUL # z)"

subsection \<open>Lines\<close>

lemma length_pad_right [simp]: "length v \<le> w \<Longrightarrow> length (pad_right w v) = w"
  by (simp add: pad_right_def)

lemma length_cell_line:
  "(\<forall>v\<in>set vs. length v \<le> w) \<Longrightarrow> length (cell_line w vs) = (w + 1) * length vs + 3"
  by (induction vs) (auto simp: cell_line_def cell_block_def algebra_simps)

lemma length_rule_line: "3 \<le> L \<Longrightarrow> length (rule_line L) = L"
  by (simp add: rule_line_def)

lemma length_title_line: "length name + 6 \<le> L \<Longrightarrow> length (title_line L name) = L"
  by (auto simp: title_line_def Let_def)

lemma length_grid_lines:
  assumes "0 < X" "\<forall>x<X. \<forall>y<Y. length (f x y) \<le> w" "length name + 6 \<le> (w + 1) * X + 3"
  shows "\<forall>l\<in>set (grid_lines w X Y name f). length l = (w + 1) * X + 3"
  using assms length_cell_line [of _ w] length_rule_line [of "(w + 1) * X + 3"] length_title_line [of name "(w + 1) * X + 3"]
  by (auto simp: grid_lines_def Let_def)

lemma count_grid_lines: "length (grid_lines w X Y name f) = 2 * Y + 3"
  by (induction Y) (simp_all add: grid_lines_def Let_def)

lemma splice_opt_line:
  assumes "\<forall>l\<in>set ls. length l = n" "r < length ls" "splice_opt (ls ! r) k ys = Some l'"
  shows "splice_opt (concat ls @ z) (r * n + k) ys = Some (concat (ls[r := l']) @ z)"
proof -
  have "length (ls ! r) = n" using assms(1,2) by simp
  with assms(3) have "k + length ys \<le> n" "l' = take k (ls ! r) @ ys @ drop (k + length ys) (ls ! r)"
    by (auto simp: splice_opt_def split: if_splits)
  with splice_opt_concat [OF assms(1,2)] show ?thesis by simp
qed

lemma splice_opt_Cons: "splice_opt (c # xs) (Suc i) ys = map_option (Cons c) (splice_opt xs i ys)"
  by (simp add: splice_opt_def)

lemma pairs_nth: "y < Y \<Longrightarrow> concat (map (\<lambda>k. [a k, b]) [0..<Y]) ! (2 * y) = a y"
proof (induction Y)
  case (Suc Y)
  have "length (concat (map (\<lambda>k. [a k, b]) [0..<Y])) = 2 * Y" by (induction Y) auto
  with Suc show ?case by (auto simp: nth_append less_Suc_eq)
qed simp

lemma pairs_upd: "y < Y \<Longrightarrow> (concat (map (\<lambda>k. [a k, b]) [0..<Y]))[2 * y := v]
    = concat (map (\<lambda>k. [if k = y then v else a k, b]) [0..<Y])"
proof (induction Y)
  case (Suc Y)
  have l: "length (concat (map (\<lambda>k. [a k, b]) [0..<Y])) = 2 * Y" for a :: "nat \<Rightarrow> 'a" by (induction Y) auto
  show ?case
  proof (cases "y = Y")
    case True
    have "map (\<lambda>k. [if k = Y then v else a k, b]) [0..<Y] = map (\<lambda>k. [a k, b]) [0..<Y]" by simp
    with True l show ?thesis by (auto simp: list_update_append intro!: arg_cong [of _ _ concat])
  next
    case False
    with Suc l show ?thesis by (simp add: list_update_append)
  qed
qed simp

lemma grid_lines_nth:
  "y < Y \<Longrightarrow> grid_lines w X Y name f ! (3 + 2 * y) = cell_line w (map (\<lambda>x. f x y) [0..<X])"
  by (simp add: grid_lines_def Let_def pairs_nth)

lemma grid_lines_upd:
  assumes "y < Y" "x < X"
  shows "(grid_lines w X Y name f)[3 + 2 * y := cell_line w ((map (\<lambda>x. f x y) [0..<X])[x := v])]
    = grid_lines w X Y name (\<lambda>x' y'. if x' = x \<and> y' = y then v else f x' y')"
proof -
  have "(map (\<lambda>x. f x y) [0..<X])[x := v] = map (\<lambda>x'. if x' = x then v else f x' y) [0..<X]"
    using assms(2) by (auto intro!: nth_equalityI simp: nth_list_update)
  with assms(1) show ?thesis
    by (auto simp: grid_lines_def Let_def pairs_upd intro!: arg_cong [of _ _ concat])
qed

lemma splice_cell_line:
  assumes "\<forall>v\<in>set vs. length v \<le> w" "x < length vs" "length u \<le> w"
    and "u @ drop (length u) (cell_block w (vs ! x)) = cell_block w v"
  shows "splice_opt (cell_line w vs) (1 + x * (w + 1)) u = Some (cell_line w (vs[x := v]))"
proof -
  have l: "\<forall>l\<in>set (map (cell_block w) vs). length l = w + 1"
    using assms(1) by (auto simp: cell_block_def)
  have "splice_opt (map (cell_block w) vs ! x) 0 u = Some (cell_block w v)"
    using assms l by (simp add: splice_opt_def)
  from splice_opt_line [OF l _ this, of "[CHR '' '', CHR 0x0A]"] assms(2) show ?thesis
    by (simp add: cell_line_def splice_opt_Cons map_update)
qed

subsection \<open>Setting a cell\<close>

lemma draw_value:
  assumes vs: "\<forall>v\<in>set vs. length v \<le> w" and x: "x < length vs" and v: "length v \<le> w"
  shows "splice_opt (cell_line w vs) (1 + x * (w + 1)) (replicate w CHR '' '')
      = Some (cell_line w (vs[x := []]))"
    and "splice_opt (cell_line w (vs[x := []])) (1 + x * (w + 1)) v = Some (cell_line w (vs[x := v]))"
proof -
  show "splice_opt (cell_line w vs) (1 + x * (w + 1)) (replicate w CHR '' '')
      = Some (cell_line w (vs[x := []]))"
    by (rule splice_cell_line [OF vs x]) (use vs x in \<open>auto simp: cell_block_def pad_right_def\<close>)
  have "\<forall>u\<in>set (vs[x := []]). length u \<le> w"
    using vs set_update_subset_insert [of vs x "[]"] by auto
  from splice_cell_line [OF this _ v, of x v] show
    "splice_opt (cell_line w (vs[x := []])) (1 + x * (w + 1)) v = Some (cell_line w (vs[x := v]))"
    using x v by (simp add: cell_block_def pad_right_def)
qed

lemma valueset_shows:
  assumes S: "shows_grid md f" and n: "length (st_name md) + 6 \<le> rel_line_num md"
    and x: "x < table_x md" and y: "y < table_y md" and v: "length v \<le> colwidth md"
  shows "\<exists>d. s_table_valueset md x y v = Some (1, md\<lparr>st_data := d\<rparr>)
    \<and> shows_grid (md\<lparr>st_data := d\<rparr>) (\<lambda>x' y'. if x' = x \<and> y' = y then v else f x' y')"
proof -
  let ?w = "colwidth md" and ?X = "table_x md" and ?Y = "table_y md" and ?nm = "st_name md"
  let ?L = "rel_line_num md"
  let ?f0 = "\<lambda>x' y'. if x' = x \<and> y' = y then [] else f x' y'"
  let ?f1 = "\<lambda>x' y'. if x' = x \<and> y' = y then v else f x' y'"
  let ?row = "map (\<lambda>x. f x y) [0..<?X]"
  from S obtain z where L: "?L = (?w + 1) * ?X + 3" and ptr: "length (st_ptrs md) = ?X * ?Y"
    "st_ptrs md ! (x * ?Y + y) = (3 + 2 * y) * ?L + (1 + x * (?w + 1))"
    and fl: "\<forall>x<?X. \<forall>y<?Y. length (f x y) \<le> ?w"
    and d: "st_data md = render ?w ?X ?Y ?nm f @ NUL # z"
    using x y by (auto simp: shows_grid_def)
  have "x * ?Y + y < x * ?Y + ?Y" using y by simp
  also have "\<dots> \<le> ?X * ?Y" using x by (metis Suc_leI mult_Suc add.commute mult_le_mono1)
  finally have idx: "nth_opt (st_ptrs md) (s_table_get md y x) = Some ((3 + 2 * y) * ?L + (1 + x * (?w + 1)))"
    using ptr by (simp add: s_table_get_def)
  have X: "0 < ?X" using x by simp
  have row: "\<forall>u\<in>set ?row. length u \<le> ?w" "x < length ?row" using fl x y by auto
  note dv = draw_value [OF row v]
  have f0: "\<forall>x<?X. \<forall>y<?Y. length (?f0 x y) \<le> ?w" and f1: "\<forall>x<?X. \<forall>y<?Y. length (?f1 x y) \<le> ?w"
    using fl v by auto
  note lens = length_grid_lines [OF X fl n [unfolded L], folded L] length_grid_lines [OF X f0 n [unfolded L], folded L]
  have r: "3 + 2 * y < length (grid_lines ?w ?X ?Y ?nm g)" for g using y by (simp add: count_grid_lines)
  have s1: "splice_opt (st_data md) ((3 + 2 * y) * ?L + (1 + x * (?w + 1))) (replicate ?w CHR '' '')
      = Some (render ?w ?X ?Y ?nm ?f0 @ NUL # z)"
    unfolding d render_def
    by (subst splice_opt_line [OF lens(1) r]) (unfold grid_lines_nth [OF y] dv(1), rule refl, simp only: grid_lines_upd [OF y x])
  have "grid_lines ?w ?X ?Y ?nm ?f0 ! (3 + 2 * y) = cell_line ?w (?row[x := []])"
    unfolding grid_lines_nth [OF y]
    by (rule arg_cong [of _ _ "cell_line ?w"]) (use x in \<open>auto intro!: nth_equalityI simp: nth_list_update\<close>)
  moreover have "(grid_lines ?w ?X ?Y ?nm ?f0)[3 + 2 * y := cell_line ?w (?row[x := v])] = grid_lines ?w ?X ?Y ?nm ?f1"
  proof -
    have "grid_lines ?w ?X ?Y ?nm ?f0 = (grid_lines ?w ?X ?Y ?nm f)[3 + 2 * y := cell_line ?w (?row[x := []])]"
      by (rule grid_lines_upd [OF y x, symmetric])
    then show ?thesis using grid_lines_upd [OF y x, of ?w ?nm f v] by (simp only: list_update_overwrite)
  qed
  ultimately have s2: "splice_opt (render ?w ?X ?Y ?nm ?f0 @ NUL # z) ((3 + 2 * y) * ?L + (1 + x * (?w + 1))) v
      = Some (render ?w ?X ?Y ?nm ?f1 @ NUL # z)"
    unfolding render_def
    by (subst splice_opt_line [OF lens(2) r]) (simp only: dv(2), simp only:)
  have "s_table_valueset md x y v = Some (1, md\<lparr>st_data := render ?w ?X ?Y ?nm ?f1 @ NUL # z\<rparr>)"
    using x y v idx s1 s2 by (simp add: s_table_valueset_def)
  moreover have "shows_grid (md\<lparr>st_data := render ?w ?X ?Y ?nm ?f1 @ NUL # z\<rparr>) ?f1"
    using S f1 by (simp add: shows_grid_def)
  ultimately show ?thesis by blast
qed

subsection \<open>Drawing the empty grid\<close>

text \<open>Painting inside one row, column by column.\<close>

definition paint :: "nat \<Rightarrow> (nat \<Rightarrow> bool) \<Rightarrow> char \<Rightarrow> string \<Rightarrow> string" where
  "paint n P c l = map (\<lambda>i. if i < n \<and> P i then c else l ! i) [0..<length l]"

lemma length_paint [simp]: "length (paint n P c l) = length l"
  by (simp add: paint_def)

lemma paint_0 [simp]: "paint 0 P c l = l"
  by (simp add: paint_def map_nth)

lemma paint_Suc:
  "j < length l \<Longrightarrow> paint (Suc j) P c l = (if P j then (paint j P c l)[j := c] else paint j P c l)"
  by (auto simp: paint_def intro!: nth_equalityI simp: nth_list_update less_Suc_eq)

lemma paint_row:
  assumes ls: "\<forall>l\<in>set ls. length l = L" and y: "y < length ls" and n: "n \<le> L"
  shows "for_up n 0 (\<lambda>x d. if P x then upd_opt d (y * L + x) c else Some d) (concat ls @ z)
    = Some (concat (ls[y := paint n P c (ls ! y)]) @ z)"
proof -
  let ?g = "\<lambda>j. concat (ls[y := paint j P c (ls ! y)]) @ z"
  have "for_up n 0 (\<lambda>x d. if P x then upd_opt d (y * L + x) c else Some d) (?g 0) = Some (?g n)"
  proof (rule for_up_state)
    fix j assume j: "j < n"
    have l: "length (ls ! y) = L" using ls y by simp
    let ?ls = "ls[y := paint j P c (ls ! y)]"
    have ls': "\<forall>l\<in>set ?ls. length l = L" using ls l set_update_subset_insert [of ls y] by fastforce
    have "splice_opt (?ls ! y) j [c] = Some ((paint j P c (ls ! y))[j := c])"
      using y l j n by (simp flip: upd_opt_splice)
    from splice_opt_line [OF ls' _ this, of z] y l j n
    show "(if P (0 + j) then upd_opt (?g j) (y * L + (0 + j)) c else Some (?g j)) = Some (?g (Suc j))"
      by (simp add: upd_opt_splice paint_Suc)
  qed
  then show ?thesis using y by simp
qed

text \<open>A loop that turns row after row into its final form.\<close>

lemma rows_loop:
  assumes "\<And>y ls. y < n \<Longrightarrow> length ls = n \<Longrightarrow> \<forall>l\<in>set ls. length l = L \<Longrightarrow> ls ! y = a y
      \<Longrightarrow> f y (concat ls @ z) = Some (concat (ls[y := b y]) @ z)"
    and "\<And>y. y < n \<Longrightarrow> length (a y) = L" "\<And>y. y < n \<Longrightarrow> length (b y) = L"
  shows "for_up n 0 f (concat (map a [0..<n]) @ z) = Some (concat (map b [0..<n]) @ z)"
proof -
  let ?m = "\<lambda>k. map (\<lambda>y. if y < k then b y else a y) [0..<n]"
  have "for_up n 0 f (concat (?m 0) @ z) = Some (concat (?m n) @ z)"
  proof (rule for_up_state [where g = "\<lambda>k. concat (?m k) @ z"])
    fix k assume k: "k < n"
    have "f k (concat (?m k) @ z) = Some (concat ((?m k)[k := b k]) @ z)"
      by (rule assms(1) [OF k]) (use assms(2,3) k in auto)
    moreover have "(?m k)[k := b k] = ?m (Suc k)"
      using k by (auto intro!: nth_equalityI simp: nth_list_update less_Suc_eq)
    ultimately show "f (0 + k) (concat (?m k) @ z) = Some (concat (?m (Suc k)) @ z)" by simp
  qed
  moreover have "?m n = map b [0..<n]" by simp
  ultimately show ?thesis by simp
qed

definition line0 :: "nat \<Rightarrow> nat \<Rightarrow> string" where
  "line0 L y = replicate (L - 2) (if y mod 2 = 0 then CHR ''='' else CHR '' '') @ [CHR '' '', CHR 0x0A]"

lemma length_line0: "3 \<le> L \<Longrightarrow> length (line0 L y) = L"
  by (simp add: line0_def)

lemma draw_lines_ok:
  assumes "3 \<le> rel_line_num md" "table_type md = 0"
  shows "draw_lines md (concat (map (\<lambda>_. replicate (rel_line_num md) NUL) [0..<2 * table_y md + 3]) @ z)
    = Some (concat (map (line0 (rel_line_num md)) [0..<2 * table_y md + 3]) @ z)"
  unfolding draw_lines_def
proof (rule rows_loop)
  let ?L = "rel_line_num md"
  fix y ls assume y: "y < 2 * table_y md + 3" "length ls = 2 * table_y md + 3" "\<forall>l\<in>set ls. length l = ?L"
    "ls ! y = replicate ?L NUL"
  define tmp where "tmp = (if y mod 2 = 0 then CHR ''='' else CHR '' '')"
  have yl: "y < length ls" using y by simp
  let ?a = "replicate ?L tmp" and ?b = "(replicate ?L tmp)[?L - 2 := CHR '' '']"
  have s1: "splice_opt (concat ls @ z) (y * ?L + 0) ?a = Some (concat (ls[y := ?a]) @ z)"
    by (rule splice_opt_line [OF y(3) yl]) (use y in \<open>simp add: splice_opt_def\<close>)
  have l1: "\<forall>l\<in>set (ls[y := ?a]). length l = ?L"
    using y(3) set_update_subset_insert [of ls y ?a] by auto
  have s2: "splice_opt (concat (ls[y := ?a]) @ z) (y * ?L + (?L - 2)) [CHR '' ''] = Some (concat ((ls[y := ?a])[y := ?b]) @ z)"
    by (rule splice_opt_line [OF l1]) (use yl assms in \<open>auto simp flip: upd_opt_splice\<close>)
  have l2: "\<forall>l\<in>set (ls[y := ?b]). length l = ?L"
    using y(3) set_update_subset_insert [of ls y ?b] by auto
  have e: "?b[?L - 1 := CHR 0x0A] = line0 ?L y"
  proof -
    have "\<exists>k. ?L = Suc (Suc k)" using assms(1) by presburger
    then obtain k where k: "?L = Suc (Suc k)" by blast
    have "replicate (Suc (Suc k)) tmp = replicate k tmp @ [tmp, tmp]"
      using replicate_add [of k 2 tmp] by (simp add: numeral_2_eq_2)
    then show ?thesis unfolding line0_def tmp_def [symmetric] k by (simp add: list_update_append)
  qed
  have s3: "splice_opt (concat (ls[y := ?b]) @ z) (y * ?L + (?L - 1)) [CHR 0x0A] = Some (concat ((ls[y := ?b])[y := line0 ?L y]) @ z)"
    by (rule splice_opt_line [OF l2]) (use yl assms e in \<open>auto simp flip: upd_opt_splice\<close>)
  have p: "y * ?L + ?L - 2 = y * ?L + (?L - 2)" "y * ?L + ?L - 1 = y * ?L + (?L - 1)" using assms(1) by simp_all
  have t: "(if y mod 2 = 0 then g_tb_default_value TB_COLUMN_SEPARATOR else CHR '' '') = tmp" by (simp add: tmp_def)
  show "(let L = ?L; tmp = if y mod 2 = 0 then g_tb_default_value TB_COLUMN_SEPARATOR else CHR '' ''
      in splice_opt (concat ls @ z) (y * L) (replicate L tmp) \<bind>
        (\<lambda>d. nth_opt g_line_break (table_type md) \<bind>
        (\<lambda>brk. upd_opt d (y * L + L - 2) (brk ! 0) \<bind> (\<lambda>d. upd_opt d (y * L + L - 1) (brk ! 1)))))
      = Some (concat (ls[y := line0 ?L y]) @ z)"
    using s1 s2 s3 assms(2) unfolding Let_def t p by (simp add: upd_opt_splice g_line_break_def)
qed (use assms length_line0 in auto)

definition mark :: "nat \<Rightarrow> char" where
  "mark y = (if y mod 2 = 0 then CHR ''='' else CHR ''|'')"

definition line1 :: "nat \<Rightarrow> nat \<Rightarrow> nat \<Rightarrow> string" where
  "line1 w L y = paint (L - 2) (\<lambda>i. i mod (w + 1) = 0) (mark y) (line0 L y)"

lemma draw_columns_ok:
  assumes "3 \<le> rel_line_num md"
  shows "draw_columns md (concat (map (line0 (rel_line_num md)) [0..<2 * table_y md + 3]) @ z)
    = Some (concat (map (line1 (colwidth md) (rel_line_num md)) [0..<2 * table_y md + 3]) @ z)"
  unfolding draw_columns_def
proof (rule rows_loop)
  let ?L = "rel_line_num md"
  fix y ls assume y: "y < 2 * table_y md + 3" "length ls = 2 * table_y md + 3" "\<forall>l\<in>set ls. length l = ?L"
    "ls ! y = line0 ?L y"
  have m: "g_tb_default_value (if y mod 2 = 0 then TB_INTERSECTION_SYMBOL else TB_LINE_SEPARATOR) = mark y"
    by (simp add: mark_def)
  show "for_up (?L - 2) 0 (\<lambda>x d. if x mod (colwidth md + 1) = 0
        then upd_opt d (y * ?L + x) (g_tb_default_value (if y mod 2 = 0 then TB_INTERSECTION_SYMBOL else TB_LINE_SEPARATOR))
        else Some d) (concat ls @ z)
      = Some (concat (ls[y := line1 (colwidth md) ?L y]) @ z)"
    unfolding m line1_def
    by (subst paint_row [OF y(3)]) (use y in simp_all)
qed (use assms length_line0 in \<open>auto simp: line1_def\<close>)

lemma line1_even: "3 \<le> L \<Longrightarrow> y mod 2 = 0 \<Longrightarrow> line1 w L y = rule_line L"
  by (auto simp: line1_def paint_def mark_def line0_def rule_line_def nth_append intro!: nth_equalityI)

lemma upt_shift: "[0..<n + m] = [0..<n] @ map (\<lambda>j. n + j) [0..<m]"
  by (induction m) auto

lemma columns_text:
  "map (\<lambda>i. if i mod (w + 1) = 0 then b else a) [0..<(w + 1) * X + 1]
    = b # concat (replicate X (replicate w a @ [b]))"
proof (induction X)
  case (Suc X)
  have split: "[0..<(w + 1) * Suc X + 1] = [0..<(w + 1) * X + 1] @ map (\<lambda>j. (w + 1) * X + 1 + j) [0..<w + 1]"
  proof -
    have "(w + 1) * Suc X + 1 = ((w + 1) * X + 1) + (w + 1)" by simp
    then show ?thesis by (simp only: upt_shift)
  qed
  have "map (\<lambda>j. if ((w + 1) * X + 1 + j) mod (w + 1) = 0 then b else a) [0..<w + 1] = replicate w a @ [b]"
  proof -
    have "((w + 1) * X + 1 + j) mod (w + 1) = (if j = w then 0 else 1 + j)" if "j < w + 1" for j
      using that by (simp only: add.assoc mod_mult_self4) auto
    then show ?thesis by (auto intro!: nth_equalityI simp: nth_append)
  qed
  then show ?case unfolding split map_append Suc.IH
    by (simp add: o_def replicate_append_same [symmetric])
qed simp

lemma paint_append: "n \<le> length xs \<Longrightarrow> paint n P c (xs @ ys) = paint n P c xs @ ys"
  by (auto simp: paint_def nth_append intro!: nth_equalityI)

lemma paint_replicate: "paint n P b (replicate n a) = map (\<lambda>i. if P i then b else a) [0..<n]"
  by (auto simp: paint_def)

lemma line1_odd:
  assumes "L = (w + 1) * X + 3" "y mod 2 = 1"
  shows "line1 w L y = cell_line w (replicate X [])"
proof -
  have n: "L - 2 = (w + 1) * X + 1" using assms(1) by simp
  have blk: "cell_block w [] = replicate w CHR '' '' @ [CHR ''|'']" by (simp add: cell_block_def pad_right_def)
  have "line1 w L y = paint (L - 2) (\<lambda>i. i mod (w + 1) = 0) CHR ''|'' (replicate (L - 2) CHR '' '') @ [CHR '' '', CHR 0x0A]"
    using assms(2) by (simp add: line1_def line0_def mark_def paint_append)
  also have "\<dots> = cell_line w (replicate X [])"
    unfolding paint_replicate n columns_text by (simp add: cell_line_def blk)
  finally show ?thesis .
qed

definition blank_line :: "nat \<Rightarrow> string" where
  "blank_line L = CHR ''|'' # replicate (L - 4) CHR '' '' @ [CHR ''|'', CHR '' '', CHR 0x0A]"

lemma clear_title_row:
  assumes L: "L = (w + 1) * X + 3" and X: "0 < X" "0 < w" "5 \<le> L"
  shows "splice_opt (line1 w L 1) 2 (replicate (L - 5) CHR '' '') = Some (blank_line L)"
proof -
  have len: "length (line1 w L 1) = L" using X by (simp add: line1_def length_line0)
  have n1: "line1 w L 1 ! i = (if i < L - 2 then (if i mod (w + 1) = 0 then CHR ''|'' else CHR '' '')
      else if i = L - 2 then CHR '' '' else CHR 0x0A)" if "i < L" for i
  proof -
    have "i < L - 2 \<or> i = L - 2 \<or> i = Suc (L - 2)" using that X by arith
    then show ?thesis
      using X by (auto simp: line1_def paint_def line0_def mark_def nth_append length_line0)
  qed
  have "L - 3 = (w + 1) * X" using L by simp
  then have last: "(L - 3) mod (w + 1) = 0" by (simp only: mod_mult_self1_is_0)
  have "2 + length (replicate (L - 5) CHR '' '') \<le> length (line1 w L 1)"
    unfolding len length_replicate using X by linarith
  then obtain zs where zs: "splice_opt (line1 w L 1) 2 (replicate (L - 5) CHR '' '') = Some zs"
    using splice_opt_Some by blast
  have "zs = blank_line L"
  proof (rule nth_equalityI)
    show "length zs = length (blank_line L)"
      using splice_opt_length [OF zs] len X by (simp add: blank_line_def)
  next
    fix i assume "i < length zs"
    then have i: "i < L" using splice_opt_length [OF zs] len by simp
    have b: "blank_line L ! i = (if i = 0 \<or> i = L - 3 then CHR ''|'' else if i = L - 1 then CHR 0x0A else CHR '' '')"
    proof -
      have "i = 0 \<or> 0 < i \<and> i < L - 3 \<or> i = L - 3 \<or> i = L - 2 \<or> i = L - 1" using i by arith
      then show ?thesis using X i
        by (auto simp: blank_line_def nth_Cons' nth_append)
    qed
    have z: "zs ! i = (if 2 \<le> i \<and> i < L - 3 then CHR '' '' else line1 w L 1 ! i)"
      using splice_opt_nth [OF zs, of i] i len X by auto
    have "i = 0 \<or> i = 1 \<or> 2 \<le> i \<and> i < L - 3 \<or> i = L - 3 \<or> i = L - 2 \<or> i = L - 1" using i by arith
    then show "zs ! i = blank_line L ! i"
      unfolding b z using X n1 [of 0] n1 [of 1] n1 [of "L - 3"] n1 [of "L - 2"] n1 [of "L - 1"] last
      by (elim disjE) auto
  qed
  with zs show ?thesis by simp
qed

lemma write_title:
  assumes "length name + 6 \<le> L"
  shows "splice_opt (blank_line L) (1 + ((L - 2) div 2 - length name div 2)) name = Some (title_line L name)"
proof -
  define a where "a = (L - 2) div 2 - length name div 2"
  have a: "a + length name \<le> L - 4" using assms by (simp add: a_def)
  have "drop (a + length name) (replicate (L - 4) CHR '' '') = replicate (L - 4 - a - length name) CHR '' ''" by simp
  with a assms show ?thesis
    by (simp add: splice_opt_def blank_line_def title_line_def Let_def flip: a_def)
qed

lemma draw_title_ok:
  assumes L: "rel_line_num md = (w + 1) * X + 3" and X: "0 < X" "0 < w"
    and n: "length (st_name md) + 6 \<le> rel_line_num md"
    and ls: "\<forall>l\<in>set ls. length l = rel_line_num md" "1 < length ls" "ls ! 1 = line1 w (rel_line_num md) 1"
  shows "draw_title md (concat ls @ z) = Some (concat (ls[1 := title_line (rel_line_num md) (st_name md)]) @ z)"
proof -
  let ?L = "rel_line_num md" and ?n = "length (st_name md)"
  have g: "5 \<le> ?L \<and> ?n div 2 \<le> (?L + 1) + (?L - 2) div 2" using n by auto
  have p: "?L + 1 + 1 = 1 * ?L + 2"
    "?L + 1 + (?L - 2) div 2 - ?n div 2 = 1 * ?L + (1 + ((?L - 2) div 2 - ?n div 2))" using n by simp_all
  have s1: "splice_opt (ls ! 1) 2 (replicate (?L - 5) CHR '' '') = Some (blank_line ?L)"
    using clear_title_row [OF L X] g ls(3) by simp
  have ls': "\<forall>l\<in>set (ls[1 := blank_line ?L]). length l = ?L"
    using ls(1) set_update_subset_insert [of ls 1 "blank_line ?L"] g by (auto simp: blank_line_def)
  have s2: "splice_opt (ls[1 := blank_line ?L] ! 1) (1 + ((?L - 2) div 2 - ?n div 2)) (st_name md) = Some (title_line ?L (st_name md))"
    using write_title [OF n] ls(2) by simp
  have l2: "1 < length (ls[1 := blank_line ?L])" using ls(2) by simp
  show ?thesis
    unfolding draw_title_def Let_def p using g splice_opt_line [OF ls(1,2) s1] splice_opt_line [OF ls' l2 s2]
    by simp
qed

subsection \<open>The cell pointers\<close>

lemma slot_less: "x < X \<Longrightarrow> y < Y \<Longrightarrow> x * Y + y < X * (Y :: nat)"
proof -
  assume "x < X" "y < Y"
  then have "x * Y + y < Suc x * Y" by simp
  also have "\<dots> \<le> X * Y" using \<open>x < X\<close> by (intro mult_le_mono1) simp
  finally show ?thesis .
qed

lemma slot_eq_iff: "y < Y \<Longrightarrow> y' < Y \<Longrightarrow> x * Y + y = x' * Y + y' \<longleftrightarrow> x = x' \<and> y = (y' :: nat)"
proof -
  assume y: "y < Y" "y' < Y"
  have "x = x' \<and> y = y'" if e: "x * Y + y = x' * Y + y'"
  proof -
    have "(x * Y + y) div Y = x" "(x' * Y + y') div Y = x'" using y by auto
    with e have "x = x'" by metis
    with e show ?thesis by simp
  qed
  then show ?thesis by auto
qed

lemma set_pointers_ok:
  assumes "length ps = table_x md * table_y md"
  defines "val x y \<equiv> 2 * rel_line_num md + y * (2 * rel_line_num md) + rel_line_num md + (x * (colwidth md + 1) + 1)"
  shows "\<exists>qs. set_pointers md ps = Some qs \<and> length qs = table_x md * table_y md
    \<and> (\<forall>x<table_x md. \<forall>y<table_y md. qs ! (x * table_y md + y) = val x y)"
proof -
  let ?X = "table_x md" and ?Y = "table_y md"
  let ?I = "\<lambda>y ps. length ps = ?X * ?Y \<and> (\<forall>x<?X. \<forall>y'<y. y' < ?Y \<longrightarrow> ps ! (x * ?Y + y') = val x y')"
  let ?J = "\<lambda>y x ps. ?I y ps \<and> (\<forall>x'<x. ps ! (x' * ?Y + y) = val x' y)"
  have row: "\<exists>qs. for_up ?X 0 (\<lambda>x ps. upd_opt ps (x * ?Y + y) (val x y)) ps' = Some qs \<and> ?J y (0 + ?X) qs"
    if "y < ?Y" "?I y ps'" for y ps'
  proof (rule for_up_inv)
    show "?J y 0 ps'" using that(2) by simp
  next
    fix x qs assume x: "0 \<le> x" "x < 0 + ?X" "?J y x qs"
    have i: "x * ?Y + y < length qs" using slot_less [of x ?X y ?Y] x that(1) by simp
    have "?J y (Suc x) (qs[x * ?Y + y := val x y])"
      using x(3) i that(1) slot_eq_iff [of _ ?Y _ _ _]
      by (auto simp: nth_list_update less_Suc_eq)
    with i show "\<exists>qs'. upd_opt qs (x * ?Y + y) (val x y) = Some qs' \<and> ?J y (Suc x) qs'" by simp
  qed
  have "\<exists>qs. set_pointers md ps = Some qs \<and> ?I (0 + ?Y) qs"
    unfolding set_pointers_def
  proof (rule for_up_inv)
    show "?I 0 ps" using assms by simp
  next
    fix y qs assume y: "0 \<le> y" "y < 0 + ?Y" "?I y qs"
    from row [of y qs] y obtain qs' where
      "for_up ?X 0 (\<lambda>x ps. upd_opt ps (x * ?Y + y) (val x y)) qs = Some qs'" "?J y ?X qs'" by auto
    then show "\<exists>qs'. for_up ?X 0 (\<lambda>x ps. upd_opt ps (s_table_get md y x)
          (2 * rel_line_num md + y * (2 * rel_line_num md) + rel_line_num md + (x * (colwidth md + 1) + 1))) qs
        = Some qs' \<and> ?I (Suc y) qs'"
      by (auto simp: s_table_get_def val_def less_Suc_eq)
  qed
  then show ?thesis by auto
qed

subsection \<open>Creating a table\<close>

lemma rows_upt: "[0..<2 * Y + 3] = [0, 1, 2] @ concat (map (\<lambda>y. [3 + 2 * y, 4 + 2 * y]) [0..<Y])"
proof (induction Y)
  case 0
  show ?case by (simp add: numeral_3_eq_3)
next
  case (Suc Y)
  have "2 * Suc Y + 3 = Suc (Suc (2 * Y + 3))" by simp
  then have "[0..<2 * Suc Y + 3] = [0..<2 * Y + 3] @ [3 + 2 * Y, 4 + 2 * Y]"
    by (simp only: upt_Suc) (simp add: add.commute)
  with Suc show ?case by simp
qed

lemma drawn_lines:
  assumes L: "L = (w + 1) * X + 3" and w: "3 \<le> L"
  shows "(map (line1 w L) [0..<2 * Y + 3])[1 := title_line L name] = grid_lines w X Y name (\<lambda>x y. [])"
proof -
  have e: "line1 w L (4 + 2 * y) = rule_line L" "line1 w L 0 = rule_line L" "line1 w L 2 = rule_line L" for y
    using w by (auto intro!: line1_even)
  have o: "line1 w L (3 + 2 * y) = cell_line w (map (\<lambda>x. []) [0..<X])" for y
    using line1_odd [OF L, of "3 + 2 * y"] by (simp add: map_replicate_const)
  show ?thesis
    unfolding rows_upt grid_lines_def Let_def L [symmetric]
    by (simp add: map_concat e o o_def)
qed

lemma tableinit_ok:
  assumes L: "rel_line_num md = (colwidth md + 1) * table_x md + 3" and X: "0 < table_x md" "0 < colwidth md"
    and t: "table_type md = 0" and n: "length (st_name md) + 6 \<le> rel_line_num md"
    and ptrs: "length (st_ptrs md) = table_x md * table_y md"
    and d: "st_data md = replicate N NUL" "(2 * table_y md + 3) * rel_line_num md < N"
  shows "\<exists>md'. s_table_tableinit md = Some md' \<and> shows_grid md' (\<lambda>x y. [])
    \<and> st_name md' = st_name md \<and> rel_line_num md' = rel_line_num md \<and> table_x md' = table_x md
    \<and> table_y md' = table_y md \<and> colwidth md' = colwidth md"
proof -
  let ?L = "rel_line_num md" and ?R = "2 * table_y md + 3" and ?w = "colwidth md"
  let ?z = "replicate (N - ?R * ?L) NUL" and ?z' = "NUL # replicate (N - ?R * ?L - 1) NUL"
  have L3: "3 \<le> ?L" using n by simp
  have "replicate (k * l) c = concat (map (\<lambda>_. replicate l c) [0..<k])" for k l :: nat and c :: char
  proof (induction k)
    case (Suc k)
    have "Suc k * l = k * l + l" by simp
    then show ?case by (simp only: replicate_add Suc.IH) simp
  qed simp
  moreover have "replicate N NUL = replicate (?R * ?L) NUL @ ?z"
    using d(2) by (simp flip: replicate_add)
  ultimately have "st_data md = concat (map (\<lambda>_. replicate ?L NUL) [0..<?R]) @ ?z" using d(1) by simp
  then have s1: "draw_lines md (st_data md) = Some (concat (map (line0 ?L) [0..<?R]) @ ?z)"
    using draw_lines_ok [OF L3 t] by simp
  have lc: "length (concat (map (line0 ?L) [0..<k])) = k * ?L" for k
    by (induction k) (simp_all add: length_line0 [OF L3])
  have "?z = NUL # replicate (N - ?R * ?L - 1) NUL" using d(2) by (cases "N - ?R * ?L") auto
  then have s2: "upd_opt (concat (map (line0 ?L) [0..<?R]) @ ?z) (?R * ?L) NUL
      = Some (concat (map (line0 ?L) [0..<?R]) @ ?z')"
    unfolding upd_opt_def length_append lc by (simp add: list_update_append lc)
  have s3: "draw_columns md (concat (map (line0 ?L) [0..<?R]) @ ?z') = Some (concat (map (line1 ?w ?L) [0..<?R]) @ ?z')"
    by (rule draw_columns_ok [OF L3])
  have s4: "draw_title md (concat (map (line1 ?w ?L) [0..<?R]) @ ?z')
      = Some (concat (grid_lines ?w (table_x md) (table_y md) (st_name md) (\<lambda>x y. [])) @ ?z')"
  proof -
    have "draw_title md (concat (map (line1 ?w ?L) [0..<?R]) @ ?z')
        = Some (concat ((map (line1 ?w ?L) [0..<?R])[1 := title_line ?L (st_name md)]) @ ?z')"
      by (rule draw_title_ok [OF L X n]) (simp_all add: line1_def length_line0 [OF L3])
    then show ?thesis by (simp only: drawn_lines [OF L L3])
  qed
  from set_pointers_ok [OF ptrs] obtain qs where qs: "set_pointers md (st_ptrs md) = Some qs"
    "length qs = table_x md * table_y md"
    "\<forall>x<table_x md. \<forall>y<table_y md. qs ! (x * table_y md + y)
      = 2 * ?L + y * (2 * ?L) + ?L + (x * (?w + 1) + 1)" by blast
  let ?md = "md\<lparr>st_data := concat (grid_lines ?w (table_x md) (table_y md) (st_name md) (\<lambda>x y. [])) @ ?z', st_ptrs := qs\<rparr>"
  have "s_table_tableinit md = Some ?md"
    using s1 s2 s3 s4 qs(1) by (simp add: s_table_tableinit_def)
  moreover have "shows_grid ?md (\<lambda>x y. [])"
    using qs(2,3) L by (auto simp: shows_grid_def render_def algebra_simps)
  ultimately show ?thesis by simp
qed

lemma create_0_shows:
  assumes X: "0 < x" "0 < w" and n: "length name + 3 \<le> (w + 1) * x" "length name < MAX_TABLE_NAME"
    and m: "malloc_ok (s_table_size_compute ps x y w)"
  shows "\<exists>md. s_table_create_0 ps malloc_ok name x y w = Some (Some md) \<and> shows_grid md (\<lambda>x y. [])
    \<and> st_name md = name \<and> rel_line_num md = (w + 1) * x + 3 \<and> table_x md = x \<and> table_y md = y \<and> colwidth md = w"
proof -
  let ?L = "(w + 1) * x + 1 + 2" and ?num = "s_table_size_compute ps x y w"
  let ?md = "\<lparr>st_name = name, table_type = 0, table_x = x, table_y = y, mem_num = ?num,
     colwidth = w, rel_line_num = ?L, st_ptrs = replicate (x * y) 0,
     st_data = replicate (?num - sizeof_matedate ps - ps * x * y) NUL\<rparr>"
  have num: "?num = sizeof_matedate ps + ps * x * y + (?L + (?L * (2 * y + 3) + 1))"
    by (simp add: s_table_size_compute_def)
  have "(x * (w + 1) + 1) * (y + 2) \<le> ?L * (2 * y + 3)"
    by (rule mult_le_mono) simp_all
  then have c1: "\<not> ?num < sizeof_matedate ps + ps * x * y + (x * (w + 1) + 1) * (y + 2)" unfolding num by linarith
  have c2: "\<not> (int (length name) - 1 > int MAX_TABLE_NAME \<or> int (length name) - 1 > int ?L - 5)"
  proof -
    have "int (length name) + 3 \<le> int ((w + 1) * x)" using n(1) by linarith
    with n(2) show ?thesis by (simp add: MAX_TABLE_NAME_def)
  qed
  have N: "(2 * y + 3) * ?L < ?num - sizeof_matedate ps - ps * x * y"
    unfolding num by (simp add: mult.commute)
  have "\<exists>md'. s_table_tableinit ?md = Some md' \<and> shows_grid md' (\<lambda>x y. [])
    \<and> st_name md' = st_name ?md \<and> rel_line_num md' = rel_line_num ?md \<and> table_x md' = table_x ?md
    \<and> table_y md' = table_y ?md \<and> colwidth md' = colwidth ?md"
    by (rule tableinit_ok) (use X n N in simp_all)
  then obtain md' where "s_table_tableinit ?md = Some md'" "shows_grid md' (\<lambda>x y. [])"
    "st_name md' = name" "rel_line_num md' = ?L" "table_x md' = x" "table_y md' = y" "colwidth md' = w" by auto
  with m c1 c2 n(2) show ?thesis
    by (simp add: s_table_create_0_def s_table_create_def Let_def)
qed

subsection \<open>Setting a list of cells\<close>

lemma sv_copy_ok:
  "length out + length (takeWhile (\<lambda>c. c \<noteq> separ) s) \<le> cap
    \<Longrightarrow> sv_copy s separ (cap, out) = Some ((cap, out @ takeWhile (\<lambda>c. c \<noteq> separ) s), dropWhile (\<lambda>c. c \<noteq> separ) s)"
  by (induction s arbitrary: out) (auto simp: emit_def split: if_splits)

lemma sv_copy_overflow:
  "length out \<le> cap \<Longrightarrow> cap < length out + length (takeWhile (\<lambda>c. c \<noteq> separ) s) \<Longrightarrow> sv_copy s separ (cap, out) = None"
  by (induction s arbitrary: out) (auto simp: emit_def split: if_splits)

lemma sv_skip_dropWhile: "sv_skip s separ = dropWhile (\<lambda>c. c = separ) s"
  by (induction s) auto

definition after_first :: "char \<Rightarrow> string \<Rightarrow> string" where
  "after_first separ s = dropWhile (\<lambda>c. c = separ) (dropWhile (\<lambda>c. c \<noteq> separ) s)"

lemma after_first_shorter: "after_first separ s \<noteq> [] \<Longrightarrow> length (after_first separ s) < length s"
proof -
  assume "after_first separ s \<noteq> []"
  then obtain x xs where x: "dropWhile (\<lambda>c. c \<noteq> separ) s = x # xs"
    by (cases "dropWhile (\<lambda>c. c \<noteq> separ) s") (auto simp: after_first_def)
  then have "x = separ" using hd_dropWhile [of "\<lambda>c. c \<noteq> separ" s] by simp
  with x have "length (after_first separ s) \<le> length xs"
    by (simp add: after_first_def length_dropWhile_le)
  also have "\<dots> < length (dropWhile (\<lambda>c. c \<noteq> separ) s)" using x by simp
  also have "\<dots> \<le> length s" by (rule length_dropWhile_le)
  finally show ?thesis .
qed

lemma values_get_ok:
  assumes "separ \<noteq> NUL" "length (takeWhile (\<lambda>c. c \<noteq> separ) s) < cap"
  shows "s_table_values_get s separ cap = Some (takeWhile (\<lambda>c. c \<noteq> separ) s,
    if after_first separ s = [] then None else Some (after_first separ s))"
proof -
  have e: "sv_copy s separ (cap, []) = Some ((cap, takeWhile (\<lambda>c. c \<noteq> separ) s), dropWhile (\<lambda>c. c \<noteq> separ) s)"
    using sv_copy_ok [of "[]" separ s cap] assms(2) by simp
  have g: "guard (separ \<noteq> NUL) = Some ()" using assms by simp
  have f: "emit_str [] (cap, takeWhile (\<lambda>c. c \<noteq> separ) s) = Some (cap, takeWhile (\<lambda>c. c \<noteq> separ) s)"
    using assms by (simp add: emit_str_def)
  show ?thesis
    unfolding s_table_values_get_def g e Option.bind.simps prod.case f Let_def sv_skip_dropWhile after_first_def snd_conv ..
qed

text \<open>The values of a separated list; runs of separators count once.\<close>

function split_values :: "char \<Rightarrow> string \<Rightarrow> string list" where
  "split_values separ s = takeWhile (\<lambda>c. c \<noteq> separ) s
     # (if after_first separ s = [] then [] else split_values separ (after_first separ s))"
  by pat_completeness auto
termination
  by (relation "measure (\<lambda>(separ, s). length s)") (auto simp: after_first_shorter)

declare split_values.simps [simp del]

lemma split_values_nonempty [simp]: "split_values separ s \<noteq> []"
  by (subst split_values.simps) simp

text \<open>The cells from \<open>s\<close> on in row \<open>y\<close> take the values of a list.\<close>

definition put_row :: "nat \<Rightarrow> nat \<Rightarrow> string list \<Rightarrow> (nat \<Rightarrow> nat \<Rightarrow> string) \<Rightarrow> nat \<Rightarrow> nat \<Rightarrow> string" where
  "put_row s y vs f = (\<lambda>x y'. if y' = y \<and> s \<le> x \<and> x < s + length vs then vs ! (x - s) else f x y')"

lemma put_row_Cons:
  "put_row (Suc s) y vs (\<lambda>x' y'. if x' = s \<and> y' = y then v else f x' y') = put_row s y (v # vs) f"
  by (auto simp: put_row_def fun_eq_iff nth_Cons' Suc_diff_Suc)

lemma put_row_Nil [simp]: "put_row s y [] f = f"
  by (auto simp: put_row_def fun_eq_iff)

lemma valuesetxs_shows:
  assumes "shows_grid md f" "length (st_name md) + 6 \<le> rel_line_num md" "y < table_y md" "separ \<noteq> NUL"
    and "\<forall>v\<in>set (split_values separ vals). length v \<le> colwidth md \<and> length v \<le> MAX_COLWIDTH"
  shows "\<exists>d. s_table_valuesetxs_ex md y s vals separ False n
      = Some (n + min (length (split_values separ vals)) (table_x md - s), md\<lparr>st_data := d\<rparr>)
    \<and> shows_grid (md\<lparr>st_data := d\<rparr>) (put_row s y (take (table_x md - s) (split_values separ vals)) f)"
  using assms
proof (induction separ vals arbitrary: md f s n rule: split_values.induct)
  case (1 separ vals)
  show ?case
  proof (cases "table_x md \<le> s")
    case True
    with 1(2) show ?thesis
      by (subst s_table_valuesetxs_ex.simps) (auto intro!: exI [of _ "st_data md"])
  next
    case False
    let ?v = "takeWhile (\<lambda>c. c \<noteq> separ) vals" and ?r = "after_first separ vals"
    have len: "length ?v \<le> colwidth md" "length ?v \<le> MAX_COLWIDTH" "?r \<noteq> [] \<Longrightarrow>
        \<forall>v\<in>set (split_values separ ?r). length v \<le> colwidth md \<and> length v \<le> MAX_COLWIDTH"
      using 1(6) by (auto simp: split_values.simps [of separ vals])
    from valueset_shows [OF 1(2,3) _ 1(4) len(1), of s] False obtain d where
      d: "s_table_valueset md s y ?v = Some (1, md\<lparr>st_data := d\<rparr>)"
      "shows_grid (md\<lparr>st_data := d\<rparr>) (\<lambda>x' y'. if x' = s \<and> y' = y then ?v else f x' y')" by auto
    have g: "s_table_values_get vals separ (MAX_COLWIDTH + 1) = Some (?v, if ?r = [] then None else Some ?r)"
      by (rule values_get_ok [OF 1(5)]) (use len in simp)
    obtain j where j: "table_x md - s = Suc j" "table_x md - Suc s = j" using False by (cases "table_x md - s") auto
    show ?thesis
    proof (cases "?r = []")
      case True
      have vs: "split_values separ vals = [?v]" using True by (subst split_values.simps) simp
      have "s_table_valuesetxs_ex md y s vals separ False n = Some (n + 1, md\<lparr>st_data := d\<rparr>)"
        using d(1) g False True by (subst s_table_valuesetxs_ex.simps) simp
      moreover have "shows_grid (md\<lparr>st_data := d\<rparr>) (put_row s y [?v] f)"
        using d(2) unfolding put_row_Cons [of s y "[]", symmetric] put_row_Nil .
      ultimately show ?thesis unfolding vs j by auto
    next
      case r: False
      from 1(1) [OF r d(2), of "Suc s" "Suc n"] 1(3-5) len(3) r obtain d' where d':
        "s_table_valuesetxs_ex (md\<lparr>st_data := d\<rparr>) y (Suc s) ?r separ False (Suc n)
          = Some (Suc n + min (length (split_values separ ?r)) j, md\<lparr>st_data := d'\<rparr>)"
        "shows_grid (md\<lparr>st_data := d'\<rparr>) (put_row s y (?v # take j (split_values separ ?r)) f)"
        unfolding put_row_Cons using j by auto
      have "s_table_valuesetxs_ex md y s vals separ False n
          = s_table_valuesetxs_ex (md\<lparr>st_data := d\<rparr>) y (Suc s) ?r separ False (Suc n)"
        using d(1) g False r after_first_shorter [OF r]
        by (subst s_table_valuesetxs_ex.simps) simp
      moreover have "split_values separ vals = ?v # split_values separ ?r" using r by (subst split_values.simps) simp
      ultimately show ?thesis using d' unfolding j by (auto intro!: exI [of _ d'])
    qed
  qed
qed

section \<open>Properties\<close>



text \<open>C18: \<open>s_table_valueset\<close> refines the update of the grid: a value that fits a cell of the
  table is drawn into that cell and nowhere else, whatever the other cells show; a value that is too
  long or a cell outside the table is refused and changes nothing.\<close>

theorem table_valueset_refines:
  assumes "shows_grid md f" "length (st_name md) + 6 \<le> rel_line_num md"
  shows "if x < table_x md \<and> y < table_y md \<and> length v \<le> colwidth md
    then \<exists>md'. s_table_valueset md x y v = Some (1, md')
      \<and> shows_grid md' (\<lambda>x' y'. if x' = x \<and> y' = y then v else f x' y')
    else s_table_valueset md x y v = Some (0, md)"
proof (cases "x < table_x md \<and> y < table_y md \<and> length v \<le> colwidth md")
  case True
  with valueset_shows [OF assms, of x y v] show ?thesis by auto
qed (auto simp: s_table_valueset_def)

theorem table_valueset_refines_witness:
  "\<exists>md md'. s_table_create_0 8 (\<lambda>_. True) ''HW'' 2 1 4 = Some (Some md)
    \<and> s_table_valueset md 1 0 ''adc'' = Some (1, md')
    \<and> shows_grid md' (\<lambda>x' y'. if x' = 1 \<and> y' = 0 then ''adc'' else [])"
proof -
  have "\<exists>md. s_table_create_0 8 (\<lambda>_. True) ''HW'' 2 1 4 = Some (Some md) \<and> shows_grid md (\<lambda>x y. [])
    \<and> st_name md = ''HW'' \<and> rel_line_num md = (4 + 1) * 2 + 3 \<and> table_x md = 2 \<and> table_y md = 1 \<and> colwidth md = 4"
    by (rule create_0_shows) (simp_all add: MAX_TABLE_NAME_def)
  then obtain md where md: "s_table_create_0 8 (\<lambda>_. True) ''HW'' 2 1 4 = Some (Some md)" "shows_grid md (\<lambda>x y. [])"
    "st_name md = ''HW''" "rel_line_num md = 13" "table_x md = 2" "table_y md = 1" "colwidth md = 4" by auto
  with table_valueset_refines [OF md(2), of 1 0 "''adc''"] show ?thesis by auto
qed


lemma split_two: "split_values CHR ''|'' ''di|||gpio'' = [''di'', ''gpio'']"
  by (simp add: split_values.simps [of "CHR ''|''" "''di|||gpio''"] split_values.simps [of "CHR ''|''" "''gpio''"]
      after_first_def)


text \<open>C0: The size check of \<open>s_table_create\<close> counts a row per line of cells and forgets the rules
  between them: a block that passes the check can be too small, and drawing then writes behind
  its end.\<close>

theorem table_size_check_too_weak:
  "let num = sizeof_matedate 8 + 8 * 1 * 1 + (1 * (4 + 1) + 1) * (1 + 2)
   in num < s_table_size_compute 8 1 1 4 \<and> s_table_create 8 ''t'' 1 1 4 num = None"
proof -
  have for_Suc: "for_up 5 i f s = f i s \<bind> for_up 4 (Suc i) f" for i and f :: "nat \<Rightarrow> string \<Rightarrow> string option" and s
    using for_up.simps(2) [of 4 i f s] by simp
  have for_Suc': "for_up 4 i f s = f i s \<bind> for_up 3 (Suc i) f" for i and f :: "nat \<Rightarrow> string \<Rightarrow> string option" and s
    using for_up.simps(2) [of 3 i f s] by (simp add: numeral_eq_Suc)
  have for_Suc'': "for_up 3 i f s = f i s \<bind> for_up 2 (Suc i) f" for i and f :: "nat \<Rightarrow> string \<Rightarrow> string option" and s
    using for_up.simps(2) [of 2 i f s] by (simp add: numeral_eq_Suc)
  show ?thesis
    by (simp add: s_table_create_def s_table_tableinit_def draw_lines_def Let_def sizeof_matedate_def MAX_TABLE_NAME_def
        s_table_size_compute_def for_Suc for_Suc' for_Suc'' splice_opt_def upd_opt_def nth_opt_def g_line_break_def)
qed

text \<open>C0: The name check lets 64 and 65 bytes pass although the field holds 63 and a terminator:
  such a title makes \<open>s_table_create\<close> leave the field.\<close>

theorem table_name_overflow:
  assumes "length name = MAX_TABLE_NAME \<or> length name = MAX_TABLE_NAME + 1"
    and "length name < (w + 1) * x" "num = s_table_size_compute ps x y w"
  shows "s_table_create ps name x y w num = None"
proof -
  let ?L = "(w + 1) * x + 1 + 2"
  have "(x * (w + 1) + 1) * (y + 2) \<le> ?L * (2 * y + 3)" by (rule mult_le_mono) simp_all
  then have "\<not> num < sizeof_matedate ps + ps * x * y + (x * (w + 1) + 1) * (y + 2)"
    unfolding assms(3) s_table_size_compute_def Let_def by linarith
  moreover have "int (length name) < int ((w + 1) * x)" using assms(2) by linarith
  ultimately show ?thesis using assms(1) by (auto simp: s_table_create_def Let_def guard_def)
qed

theorem table_name_overflow_witness:
  "s_table_create 8 (replicate 64 CHR ''n'') 9 1 9 (s_table_size_compute 8 9 1 9) = None"
  by (rule table_name_overflow) (simp_all add: MAX_TABLE_NAME_def)

text \<open>C0: A value longer than 32 bytes in a separated list leaves the value buffer of
  \<open>s_table_valuesetxs\<close>: it is copied before its length is checked.\<close>

theorem table_list_value_overflow:
  assumes "s < table_x md" "MAX_COLWIDTH < length (takeWhile (\<lambda>c. c \<noteq> separ) vals)"
  shows "s_table_valuesetxs md y s vals separ = None"
proof -
  have "s_table_values_get vals separ (MAX_COLWIDTH + 1) = None"
  proof (cases "MAX_COLWIDTH + 1 < length (takeWhile (\<lambda>c. c \<noteq> separ) vals)")
    case True
    with sv_copy_overflow [of "[]" "MAX_COLWIDTH + 1" separ vals] show ?thesis
      by (cases "separ = NUL") (auto simp: s_table_values_get_def)
  next
    case False
    with assms(2) have l: "length (takeWhile (\<lambda>c. c \<noteq> separ) vals) = MAX_COLWIDTH + 1" by simp
    with sv_copy_ok [of "[]" separ vals "MAX_COLWIDTH + 1"] show ?thesis
      by (cases "separ = NUL") (auto simp: s_table_values_get_def emit_str_def)
  qed
  with assms(1) show ?thesis
    by (subst s_table_valuesetxs_def, subst s_table_valuesetxs_ex.simps) simp
qed

theorem table_list_value_overflow_witness:
  "\<exists>md. s_table_create_0 8 (\<lambda>_. True) ''HW'' 3 1 4 = Some (Some md)
    \<and> s_table_valuesetxs md 0 0 (replicate 33 CHR ''x'') CHR ''|'' = None"
proof -
  have "\<exists>md. s_table_create_0 8 (\<lambda>_. True) ''HW'' 3 1 4 = Some (Some md) \<and> shows_grid md (\<lambda>x y. [])
    \<and> st_name md = ''HW'' \<and> rel_line_num md = (4 + 1) * 3 + 3 \<and> table_x md = 3 \<and> table_y md = 1 \<and> colwidth md = 4"
    by (rule create_0_shows) (simp_all add: MAX_TABLE_NAME_def)
  then obtain md where md: "s_table_create_0 8 (\<lambda>_. True) ''HW'' 3 1 4 = Some (Some md)" "table_x md = 3" by auto
  have "takeWhile (\<lambda>c. c \<noteq> CHR ''|'') (replicate 33 CHR ''x'') = replicate 33 CHR ''x''"
    by (rule takeWhile_eq_all_conv [THEN iffD2]) simp
  with table_list_value_overflow [of 0 md "CHR ''|''" "replicate 33 CHR ''x''" 0] md show ?thesis
    by (simp add: MAX_COLWIDTH_def)
qed

end
