(* ===== verification/Hardware.thy ===== *)
theory Hardware
  imports HwData DataConvert SysUtil StringTable
begin

text \<open>
  The hardware service of \<open>hardware/srv_hardware.cpp\<close>: mounting the shared memory, detecting the
  kind of the device, the parameter cache and its monitor, and the readings handed to the uplink.
  The shared memory is written by the sampling process; every operation takes its content
  at the time of the call, and the clock as a function from the number of the call.
\<close>

section \<open>The code\<close>

definition JSON_HW_ENV_INS_NUM :: nat where "JSON_HW_ENV_INS_NUM = 7"

text \<open>\<open>strncpy\<close> of \<open>n\<close> bytes from inside an array.\<close>

fun strncpy_n :: "nat \<Rightarrow> string \<Rightarrow> string option" where
  "strncpy_n 0 s = Some []"
| "strncpy_n (Suc n) [] = None"
| "strncpy_n (Suc n) (c # s) =
     (if c = NUL then Some (replicate (Suc n) NUL) else map_option (Cons c) (strncpy_n n s))"

definition hw_kind_init :: "RTU_INFO \<Rightarrow> hw_info_t \<Rightarrow> hw_info_t option" where
  "hw_kind_init dev_info i = do {
     k \<leftarrow> upd_opt (i_kind i) 3 NUL;
     t \<leftarrow> strncpy_n 3 (v_type (ver dev_info));
     k \<leftarrow> splice_opt k 0 t;
     m \<leftarrow> strncpy_n 32 (drop 4 (v_type (ver dev_info)));
     m \<leftarrow> splice_opt (model i) 0 m;
     ks \<leftarrow> c_str k;
     kd \<leftarrow> get_device_kind_by_name (Some ks);
     Some (i\<lparr>i_kind := k, model := m, kind := kd\<rparr>)
   }"

definition get_env_isEnable_number :: nat where
  "get_env_isEnable_number = JSON_HW_ENV_INS_NUM"

text \<open>The overload with an argument counts nothing; null gives -1 as \<open>uint16_t\<close>.\<close>

definition get_env_isEnable_number_of :: "RTU_INFO option \<Rightarrow> nat" where
  "get_env_isEnable_number_of info = (case info of None \<Rightarrow> 65535 | Some _ \<Rightarrow> 0)"

fun hw_get_channel_sum :: "hw_dev_kind_e \<Rightarrow> RTU_INFO \<Rightarrow> nat" where
  "hw_get_channel_sum HW_KIND_CUR d = currentChNum d"
| "hw_get_channel_sum HW_KIND_VOL d = voltageChNum d"
| "hw_get_channel_sum HW_KIND_ENV d = get_env_isEnable_number"
| "hw_get_channel_sum HW_KIND_ASE d = aiChNumI d"
| "hw_get_channel_sum HW_KIND_PSE d = aiChNumI d"
| "hw_get_channel_sum _ d = 1"

text \<open>
  \<open>objects_new_2arr\<close>: a table of pointers to consecutive zeroed objects.  Without memory for the
  table the loop writes through null, without memory for the objects it indexes null.
\<close>

definition objects_new_2arr :: "bool \<Rightarrow> bool \<Rightarrow> 'a \<Rightarrow> nat \<Rightarrow> 'a list option" where
  "objects_new_2arr pptr_ok ptr_ok zero nitems = do {
     guard (nitems = 0 \<or> pptr_ok \<and> ptr_ok);
     Some (replicate nitems zero)
   }"

definition init_type :: "hw_dev_kind_e \<Rightarrow> nat \<Rightarrow> hw_cache_t \<Rightarrow> hw_cache_t option" where
  "init_type kd i pd =
     (if kd = HW_KIND_CUR then Some (pd\<lparr>val_type := HW_TYPE_CUR\<rparr>)
      else if kd = HW_KIND_VOL then Some (pd\<lparr>val_type := HW_TYPE_VOL\<rparr>)
      else if kd = HW_KIND_ENV then
        (case type_of_int (type_id HW_TYPE_TEMP + i) of None \<Rightarrow> None | Some t \<Rightarrow> Some (pd\<lparr>val_type := t\<rparr>))
      else Some pd)"

text \<open>\<open>hw_info_init\<close>; the constructor exits the program when it returns -1.\<close>

definition hw_info_init ::
  "bool \<Rightarrow> bool \<Rightarrow> SHM_DATA_DEF option \<Rightarrow> hw_info_t \<Rightarrow> (int \<times> hardware option) option" where
  "hw_info_init pptr_ok ptr_ok shmD info0 =
     (case shmD of None \<Rightarrow> Some (- 1, None)
      | Some shm \<Rightarrow> do {
          i \<leftarrow> hw_kind_init (shm_info shm) info0;
          let n = hw_get_channel_sum (kind i) (shm_info shm) mod 65536;
          cs \<leftarrow> objects_new_2arr pptr_ok ptr_ok zero_cache n;
          cs \<leftarrow> for_up n 0 (\<lambda>j cs. do {
                  pd \<leftarrow> nth_opt cs j; pd \<leftarrow> init_type (kind i) j pd; upd_opt cs j pd }) cs;
          Some (0, Some \<lparr>hwInfo = i, nChNum = n, pCache = cs\<rparr>)
        })"

subsection \<open>Readings\<close>

fun get_env_value_by_vtype :: "SHM_DATA_RO \<Rightarrow> hw_dev_type_e \<Rightarrow> fl" where
  "get_env_value_by_vtype d HW_TYPE_TEMP = temperature (env_data d)"
| "get_env_value_by_vtype d HW_TYPE_HUMI = humidity (env_data d)"
| "get_env_value_by_vtype d HW_TYPE_NIOSE = noise (env_data d)"
| "get_env_value_by_vtype d HW_TYPE_PM2_5 = pm2_5 (env_data d)"
| "get_env_value_by_vtype d HW_TYPE_PM10 = pm10 (env_data d)"
| "get_env_value_by_vtype d HW_TYPE_O2 = env_O2 (env_data d)"
| "get_env_value_by_vtype d HW_TYPE_TVOC = tvoc (env_data d)"
| "get_env_value_by_vtype d _ = int_fl (- 1)"

fun get_env_isIns_by_vtype :: "hw_dev_type_e \<Rightarrow> RTU_INFO option \<Rightarrow> nat" where
  "get_env_isIns_by_vtype t None = 65535"
| "get_env_isIns_by_vtype HW_TYPE_TEMP (Some i) = isInsTemperature (env_set i)"
| "get_env_isIns_by_vtype HW_TYPE_HUMI (Some i) = isInsHumidity (env_set i)"
| "get_env_isIns_by_vtype HW_TYPE_NIOSE (Some i) = isInsNoise (env_set i)"
| "get_env_isIns_by_vtype HW_TYPE_PM2_5 (Some i) = isInsPm2_5 (env_set i)"
| "get_env_isIns_by_vtype HW_TYPE_PM10 (Some i) = isInsPm10 (env_set i)"
| "get_env_isIns_by_vtype HW_TYPE_O2 (Some i) = isInsO2 (env_set i)"
| "get_env_isIns_by_vtype HW_TYPE_TVOC (Some i) = isInsTvoc (env_set i)"
| "get_env_isIns_by_vtype t (Some i) = 65535"

definition get_device_kind_by_type :: "hw_dev_type_e \<Rightarrow> int" where
  "get_device_kind_by_type t = - 1"

text \<open>A physical port counts from 1; a port outside the array of the kind is undefined.\<close>

definition read_port :: "fl list \<Rightarrow> nat \<Rightarrow> fl option" where
  "read_port vs gpio = do { guard (1 \<le> gpio); nth_opt vs (gpio - 1) }"

text \<open>The returned int and \<open>*val\<close>, \<open>None\<close> as long as it was never written.\<close>

definition get_gpio_val ::
  "SHM_DATA_RO \<Rightarrow> hw_dev_kind_e \<Rightarrow> hw_dev_type_e \<Rightarrow> nat \<Rightarrow> fl option \<Rightarrow> (int \<times> fl option) option" where
  "get_gpio_val d kd t gpio v =
     (if kd = HW_KIND_CUR then do { r \<leftarrow> read_port (currentA d) gpio; Some (0, Some r) }
      else if kd = HW_KIND_VOL then do { r \<leftarrow> read_port (voltageV d) gpio; Some (0, Some r) }
      else if kd = HW_KIND_ASE \<or> kd = HW_KIND_PSE then do { r \<leftarrow> read_port (aiValI d) gpio; Some (0, Some r) }
      else if kd = HW_KIND_ENV then Some (0, Some (get_env_value_by_vtype d t))
      else Some (- 1, v))"

subsection \<open>The monitor\<close>

text \<open>\<open>get_sys_time\<close> into a \<open>char[64]\<close> field.\<close>

definition put_time :: "tm \<times> int \<Rightarrow> string \<Rightarrow> string option" where
  "put_time c field = do {
     (n, s) \<leftarrow> get_sys_time (fst c) (snd c) (Some (length field));
     splice_opt field 0 (s @ [NUL])
   }"

definition monitor_step ::
  "(nat \<Rightarrow> tm \<times> int) \<Rightarrow> SHM_DATA_RO \<Rightarrow> hw_dev_kind_e \<Rightarrow> nat \<Rightarrow> fl option \<times> hw_cache_t list
     \<Rightarrow> (fl option \<times> hw_cache_t list) option" where
  "monitor_step clk d kd i st = (case st of (rdata, cs) \<Rightarrow> do {
     pd \<leftarrow> nth_opt cs i;
     (rc, rdata) \<leftarrow> get_gpio_val d kd (val_type pd) (gpio_io pd) rdata;
     r \<leftarrow> rdata;
     (if feq (val pd) r then Some (rdata, cs)
      else do {
        t \<leftarrow> put_time (clk (Suc i)) (param_time pd);
        cs \<leftarrow> upd_opt cs i (pd\<lparr>val := r, param_time := t, status := HW_DATA_UPTARE\<rparr>);
        Some (rdata, cs)
      })
   })"

definition hw_param_monitor :: "(nat \<Rightarrow> tm \<times> int) \<Rightarrow> SHM_DATA_DEF \<Rightarrow> hardware \<Rightarrow> hardware option" where
  "hw_param_monitor clk shm h = do {
     t \<leftarrow> put_time (clk 0) (i_time (hwInfo h));
     (rdata, cs) \<leftarrow> for_up (nChNum h) 0 (monitor_step clk (shm_ro shm) (kind (hwInfo h))) (None, pCache h);
     Some (h\<lparr>hwInfo := (hwInfo h)\<lparr>i_time := t\<rparr>, pCache := cs\<rparr>)
   }"

definition hw_heartbeat :: "(nat \<Rightarrow> tm \<times> int) \<Rightarrow> SHM_DATA_DEF \<Rightarrow> hardware \<Rightarrow> hardware option" where
  "hw_heartbeat clk shm h = hw_param_monitor clk shm h"

definition hw_update_cache :: "SHM_DATA_RO \<Rightarrow> hw_cache_t option \<Rightarrow> nat \<Rightarrow> (int \<times> hw_cache_t option) option" where
  "hw_update_cache d data ch =
     (case data of None \<Rightarrow> Some (- 1, None)
      | Some p \<Rightarrow> do { v \<leftarrow> nth_opt (aiValI d) ch; Some (0, Some (p\<lparr>val := v, status := HW_DATA_UPTARE\<rparr>)) })"

definition hw_used_cache :: "hw_cache_t \<Rightarrow> int \<times> hw_cache_t" where
  "hw_used_cache p = (0, p\<lparr>status := HW_DATA_USED\<rparr>)"

text \<open>Status of the whole cache as an int: 0 updated, 1 kept, -1 for a null pointer.\<close>

fun look_loop :: "hw_cache_t option list \<Rightarrow> nat \<Rightarrow> int option" where
  "look_loop ps 0 = Some 1"
| "look_loop [] (Suc n) = None"
| "look_loop (p # ps) (Suc n) =
     (case p of None \<Rightarrow> Some (- 1)
      | Some pd \<Rightarrow> if status pd = HW_DATA_UPTARE then Some 0 else look_loop ps n)"

definition hw_look_cache_status :: "hw_cache_t option list option \<Rightarrow> nat \<Rightarrow> int option" where
  "hw_look_cache_status pData number = (case pData of None \<Rightarrow> Some (- 1) | Some ps \<Rightarrow> look_loop ps number)"

subsection \<open>Texts for the uplink\<close>

definition get_param_ref :: "nat option \<Rightarrow> hw_cache_t option \<Rightarrow> (int \<times> string) option" where
  "get_param_ref ref param =
     (case (ref, param) of
        (Some cap, Some p) \<Rightarrow> do {
          s \<leftarrow> c_str (p_ref p);
          w \<leftarrow> emit_str s (cap, []);
          Some (int (length s), snd w) }
      | _ \<Rightarrow> Some (- 1, []))"

definition get_val :: "hw_dev_kind_e \<Rightarrow> hw_cache_t option \<Rightarrow> fl option" where
  "get_val kd param =
     (case param of None \<Rightarrow> Some (int_fl (- 1))
      | Some p \<Rightarrow>
          if kd = HW_KIND_ASE \<or> kd = HW_KIND_PSE then do {
            i0 \<leftarrow> nth_opt (rangeI p) 0; i1 \<leftarrow> nth_opt (rangeI p) 1;
            d0 \<leftarrow> nth_opt (rangeD p) 0; d1 \<leftarrow> nth_opt (rangeD p) 1;
            Some (data_AD_convert (val p) (of_int_fl binary32 i0) (of_int_fl binary32 i1)
              (of_int_fl binary32 d0) (of_int_fl binary32 d1)) }
          else Some (val p))"

definition get_val_strUnit :: "nat option \<Rightarrow> hw_cache_t option \<Rightarrow> fl \<Rightarrow> (int \<times> string) option" where
  "get_val_strUnit buf param v =
     (case (buf, param) of
        (Some cap, Some p) \<Rightarrow> do {
          let s = fmt_f 1 v @ ''-'' @ get_hw_unit_by_type (val_type p);
          w \<leftarrow> emit_str s (cap, []);
          Some (int (length s), snd w) }
      | _ \<Rightarrow> Some (- 1, []))"

definition get_val_strUnit_raw :: "nat option \<Rightarrow> hw_cache_t option \<Rightarrow> (int \<times> string) option" where
  "get_val_strUnit_raw buf param =
     (case param of None \<Rightarrow> Some (- 1, []) | Some p \<Rightarrow> get_val_strUnit buf param (val p))"

subsection \<open>The table on the console\<close>

definition maxWidth :: nat where "maxWidth = 25"

definition table_line :: "hardware \<Rightarrow> nat \<Rightarrow> hw_cache_t \<Rightarrow> string option" where
  "table_line h y p = do {
     ty \<leftarrow> emit_str (get_hw_name_by_type (val_type p)) (maxWidth, []);
     ik \<leftarrow> c_str (i_kind (hwInfo h));
     ref \<leftarrow> emit_str (''xx/'' @ snd ty @ ''.'' @ ik @ dec (gpio_io p)) (maxWidth, []);
     k \<leftarrow> c_str (kks p);
     v \<leftarrow> hw_var2string (val p);
     t \<leftarrow> c_str (param_time p);
     str \<leftarrow> emit_str (dec y @ '','' @ k @ '','' @ snd ref @ '','' @ snd ty @ '','' @ v @ '','' @ t) (maxWidth, []);
     Some (snd str)
   }"

definition show_hw_table :: "nat \<Rightarrow> (nat \<Rightarrow> bool) \<Rightarrow> hardware \<Rightarrow> string option" where
  "show_hw_table ps malloc_ok h = do {
     tb \<leftarrow> s_table_create_0 ps malloc_ok ''hardware data'' 6 (2 + nChNum h) maxWidth;
     md \<leftarrow> tb;
     (n, md) \<leftarrow> s_table_valuesetxs md 0 1 ''kks ref vtype val t'' CHR '' '';
     (n, md) \<leftarrow> s_table_valuesetys md 0 1 ''1 2 3 4 5 6'' CHR '' '';
     md \<leftarrow> for_up (nChNum h) 0 (\<lambda>i md. do {
             p \<leftarrow> nth_opt (pCache h) i;
             str \<leftarrow> table_line h (Suc i) p;
             (n, md) \<leftarrow> s_table_valuesetxs md (Suc i) 0 str CHR '','';
             Some md }) md;
     c_str (st_data md)
   }"

section \<open>Correctness\<close>

text \<open>What one pass of the monitor makes of a parameter.\<close>

definition good_clock :: "(nat \<Rightarrow> tm \<times> int) \<Rightarrow> bool" where
  "good_clock clk \<longleftrightarrow> (\<forall>k. calendar (fst (clk k)) \<and> 0 \<le> snd (clk k) \<and> snd (clk k) < 1000)"

definition stamped :: "tm \<times> int \<Rightarrow> string \<Rightarrow> string" where
  "stamped c field = time_text (fst c) (snd c) @ NUL # drop 24 field"

definition reading :: "SHM_DATA_RO \<Rightarrow> hw_dev_kind_e \<Rightarrow> hw_cache_t \<Rightarrow> fl" where
  "reading d kd p =
     (if kd = HW_KIND_ENV then get_env_value_by_vtype d (val_type p)
      else (if kd = HW_KIND_CUR then currentA d else if kd = HW_KIND_VOL then voltageV d else aiValI d)
        ! (gpio_io p - 1))"

definition refreshed :: "tm \<times> int \<Rightarrow> SHM_DATA_RO \<Rightarrow> hw_dev_kind_e \<Rightarrow> hw_cache_t \<Rightarrow> hw_cache_t" where
  "refreshed c d kd p =
     (if feq (val p) (reading d kd p) then p
      else p\<lparr>val := reading d kd p, param_time := stamped c (param_time p), status := HW_DATA_UPTARE\<rparr>)"

text \<open>A kind of device the monitor knows, with the ports of all parameters inside the arrays.\<close>

definition monitorable :: "hw_dev_kind_e \<Rightarrow> hw_cache_t list \<Rightarrow> bool" where
  "monitorable kd cs \<longleftrightarrow> kd = HW_KIND_ENV
     \<or> kd \<in> {HW_KIND_CUR, HW_KIND_VOL, HW_KIND_ASE, HW_KIND_PSE}
       \<and> list_all (\<lambda>p. 1 \<le> gpio_io p \<and> gpio_io p \<le> AI_NUM_MAX) cs"

lemma put_time_stamped:
  assumes "calendar (fst c)" "0 \<le> snd c" "snd c < 1000" "length field = 64"
  shows "put_time c field = Some (stamped c field)" "length (stamped c field) = 64"
  using assms length_time_text [of "fst c" "snd c"]
  by (simp_all add: put_time_def get_sys_time_def emit_str_def splice_opt_def stamped_def)

lemma get_gpio_val_reading:
  assumes "shm_wf shm" "monitorable kd cs" "p \<in> set cs"
  shows "get_gpio_val (shm_ro shm) kd (val_type p) (gpio_io p) v = Some (0, Some (reading (shm_ro shm) kd p))"
  using assms by (auto simp: monitorable_def get_gpio_val_def reading_def read_port_def shm_wf_def list_all_iff AI_NUM_MAX_def)

lemma refreshed_wf:
  assumes "calendar (fst c)" "0 \<le> snd c" "snd c < 1000" "cache_wf p"
  shows "cache_wf (refreshed c d kd p)"
  using assms put_time_stamped [of c "param_time p"] by (simp add: refreshed_def cache_wf_def)

lemma monitor_step_refreshed:
  assumes "good_clock clk" "shm_wf shm" "monitorable kd ps" "list_all cache_wf ps" "length cs = length ps"
    and "i < length ps" "cs ! i = ps ! i"
  shows "monitor_step clk (shm_ro shm) kd i (r, cs)
    = Some (Some (reading (shm_ro shm) kd (ps ! i)),
        cs[i := refreshed (clk (Suc i)) (shm_ro shm) kd (ps ! i)])"
proof -
  have p: "ps ! i \<in> set ps" using assms(6) by simp
  then have t: "length (param_time (ps ! i)) = 64" using assms(4) by (simp add: list_all_iff cache_wf_def)
  have c: "calendar (fst (clk (Suc i)))" "0 \<le> snd (clk (Suc i))" "snd (clk (Suc i)) < 1000"
    using assms(1) by (simp_all add: good_clock_def)
  have "cs[i := ps ! i] = cs" using assms(7) by (metis list_update_id)
  then show ?thesis
    using assms(5,6,7) get_gpio_val_reading [OF assms(2,3) p] put_time_stamped(1) [OF c t]
    by (simp add: monitor_step_def refreshed_def)
qed

lemma monitor_loop:
  assumes "good_clock clk" "shm_wf shm" "monitorable kd ps" "list_all cache_wf ps"
  shows "\<exists>r. for_up (length ps) 0 (monitor_step clk (shm_ro shm) kd) (None, ps)
    = Some (r, map (\<lambda>i. refreshed (clk (Suc i)) (shm_ro shm) kd (ps ! i)) [0..<length ps])"
proof -
  let ?f = "\<lambda>i. refreshed (clk (Suc i)) (shm_ro shm) kd (ps ! i)"
  let ?I = "\<lambda>k (st :: fl option \<times> hw_cache_t list). snd st = map ?f [0..<k] @ drop k ps"
  have "\<exists>st. for_up (length ps) 0 (monitor_step clk (shm_ro shm) kd) (None, ps) = Some st \<and> ?I (0 + length ps) st"
  proof (rule for_up_inv)
    fix k st assume k: "k < 0 + length ps" and I: "?I k st"
    have len: "length (snd st) = length ps" using k I by simp
    have nth: "snd st ! k = ps ! k" using k I by (simp add: nth_append)
    have "(snd st)[k := ?f k] = map ?f [0..<Suc k] @ drop (Suc k) ps"
      unfolding I using k by (simp add: list_update_append Cons_nth_drop_Suc [symmetric])
    with monitor_step_refreshed [OF assms len, of k "fst st"] k nth
    show "\<exists>st'. monitor_step clk (shm_ro shm) kd k st = Some st' \<and> ?I (Suc k) st'" by simp
  qed simp
  then show ?thesis by auto
qed

lemma monitor_refreshed:
  assumes "hw_wf h" "shm_wf shm" "good_clock clk" "monitorable (kind (hwInfo h)) (pCache h)"
  shows "\<exists>h'. hw_param_monitor clk shm h = Some h' \<and> hw_wf h'
    \<and> h' = h\<lparr>hwInfo := (hwInfo h)\<lparr>i_time := stamped (clk 0) (i_time (hwInfo h))\<rparr>,
             pCache := map (\<lambda>i. refreshed (clk (Suc i)) (shm_ro shm) (kind (hwInfo h)) (pCache h ! i)) [0..<nChNum h]\<rparr>"
proof -
  have n: "nChNum h = length (pCache h)" and ps: "list_all cache_wf (pCache h)" and i: "info_wf (hwInfo h)"
    using assms(1) by (simp_all add: hw_wf_def)
  have c: "calendar (fst (clk k))" "0 \<le> snd (clk k)" "snd (clk k) < 1000" for k
    using assms(3) by (simp_all add: good_clock_def)
  have t: "put_time (clk 0) (i_time (hwInfo h)) = Some (stamped (clk 0) (i_time (hwInfo h)))"
    "length (stamped (clk 0) (i_time (hwInfo h))) = 64"
    using put_time_stamped [OF c] i by (simp_all add: info_wf_def)
  have wf: "cache_wf (refreshed (clk (Suc k)) (shm_ro shm) kd (pCache h ! k))" if "k < nChNum h" for k kd
    using refreshed_wf [OF c] ps n that by (simp add: list_all_length)
  from monitor_loop [OF assms(3,2,4) ps] obtain r where
    "for_up (nChNum h) 0 (monitor_step clk (shm_ro shm) (kind (hwInfo h))) (None, pCache h)
      = Some (r, map (\<lambda>i. refreshed (clk (Suc i)) (shm_ro shm) (kind (hwInfo h)) (pCache h ! i)) [0..<nChNum h])"
    unfolding n by blast
  with t wf i show ?thesis
    by (simp add: hw_param_monitor_def hw_wf_def info_wf_def list_all_iff)
qed

text \<open>C13: One pass of the monitor (\<open>hw_param_monitor\<close>) on a device of a known kind whose ports lie in
  the arrays: every parameter whose cached value equals the reading of its port is left alone, every
  other one takes the reading, gets the time of its own clock call and is marked updated; nothing else
  of the device but its time changes, and the arrays keep their sizes.\<close>

theorem monitor_refreshes:
  assumes "hw_wf h" "shm_wf shm" "good_clock clk" "monitorable (kind (hwInfo h)) (pCache h)"
  shows "\<exists>h'. hw_param_monitor clk shm h = Some h' \<and> hw_wf h'
    \<and> h' = h\<lparr>hwInfo := (hwInfo h)\<lparr>i_time := stamped (clk 0) (i_time (hwInfo h))\<rparr>,
             pCache := map (\<lambda>i. refreshed (clk (Suc i)) (shm_ro shm) (kind (hwInfo h)) (pCache h ! i)) [0..<nChNum h]\<rparr>"
  by (rule monitor_refreshed [OF assms])

text \<open>A current transformer with one port, before and after a reading of 2.5.\<close>

definition clock0 :: "nat \<Rightarrow> tm \<times> int" where
  "clock0 k = (\<lparr>tm_year = 123, tm_mon = 3, tm_mday = 5, tm_hour = 9, tm_min = 28, tm_sec = 47\<rparr>, int (k mod 1000))"

definition shm0 :: SHM_DATA_DEF where
  "shm0 = \<lparr>shm_ro = \<lparr>run = 1, err = 0, updateTime = (0, 0),
       env_data = \<lparr>temperature = int_fl 20, humidity = int_fl 40, noise = int_fl 3, pm2_5 = int_fl 9, pm10 = int_fl 12,
         env_O2 = int_fl 21, tvoc = int_fl 0\<rparr>,
       aiValI = replicate 32 (int_fl 4), aiValV = replicate 32 (int_fl 0), voltageV = replicate 32 (int_fl 220),
       currentA = Fin False (5 / 2) # replicate 31 (int_fl 0), diVal = replicate 32 0\<rparr>,
     shm_rw = replicate 128 0,
     shm_info = \<lparr>ver = \<lparr>v_type = ''cur:DA_IO_02'' @ replicate 20 NUL, softVersion = ''1.0'', hwVersion = ''1.0''\<rparr>,
       aiChNumI = 2, aiChNumV = 0, diChNum = 0, voltageChNum = 3, currentChNum = 1,
       env_set = \<lparr>isInsTemperature = 1, isInsHumidity = 1, isInsNoise = 1, isInsPm2_5 = 1, isInsPm10 = 1,
         isInsO2 = 1, isInsTvoc = 1\<rparr>\<rparr>\<rparr>"

definition info0 :: hw_info_t where
  "info0 = \<lparr>kind = HW_KIND_CUR, i_kind = ''CUR'' @ replicate 29 NUL, model = replicate 32 NUL, disable = False,
     i_name = replicate 64 NUL, i_id = replicate 64 NUL, terminal = replicate 32 NUL, i_time = replicate 64 NUL,
     i_status = HW_DATA_INIT\<rparr>"

definition hw0 :: hardware where
  "hw0 = \<lparr>hwInfo = info0, nChNum = 1, pCache = [zero_cache\<lparr>gpio_io := 1, status := HW_DATA_USED\<rparr>]\<rparr>"

lemma sample0 [simp]: "hw_wf hw0" "shm_wf shm0" "good_clock clock0" "monitorable (kind (hwInfo hw0)) (pCache hw0)"
  by (simp_all add: hw_wf_def info_wf_def hw0_def info0_def cache_wf_def zero_cache_def shm_wf_def shm0_def
      AI_NUM_MAX_def DI_NUM_MAX_def good_clock_def clock0_def calendar_def monitorable_def)

theorem monitor_refreshes_witness:
  "\<exists>h'. hw_param_monitor clock0 shm0 hw0 = Some h' \<and> map val (pCache h') = [Fin False (5 / 2)]
     \<and> map status (pCache h') = [HW_DATA_UPTARE]"
proof -
  from monitor_refreshes [of hw0 shm0 clock0] obtain h' where
    "hw_param_monitor clock0 shm0 hw0 = Some h'"
    "pCache h' = map (\<lambda>i. refreshed (clock0 (Suc i)) (shm_ro shm0) (kind (hwInfo hw0)) (pCache hw0 ! i)) [0..<nChNum hw0]"
    by auto
  then show ?thesis
    by (simp add: hw0_def info0_def refreshed_def reading_def zero_cache_def shm0_def feq_def)
qed

subsection \<open>Status of the cache\<close>

lemma look_loop_spec:
  "look_loop (map Some cs) (length cs) = Some (if \<exists>p\<in>set cs. status p = HW_DATA_UPTARE then 0 else 1)"
  by (induction cs) auto

lemma bex_nth: "(\<exists>x\<in>set xs. P x) \<longleftrightarrow> (\<exists>i<length xs. P (xs ! i))"
  by (metis in_set_conv_nth)

text \<open>C14: A change on any port is seen: after a pass of the monitor the status of the cache is
  \<open>HW_DATA_UPTARE\<close> exactly when some parameter was already marked updated before the pass or holds a
  value different from the reading of its port, and \<open>HW_DATA_KEEP\<close> otherwise.\<close>

theorem monitor_signals_changes:
  assumes "hw_wf h" "shm_wf shm" "good_clock clk" "monitorable (kind (hwInfo h)) (pCache h)"
    and "hw_param_monitor clk shm h = Some h'"
  shows "hw_look_cache_status (Some (map Some (pCache h'))) (nChNum h')
    = Some (if \<exists>p\<in>set (pCache h). status p = HW_DATA_UPTARE \<or> \<not> feq (val p) (reading (shm_ro shm) (kind (hwInfo h)) p)
            then 0 else 1)"
proof -
  let ?g = "\<lambda>i. refreshed (clk (Suc i)) (shm_ro shm) (kind (hwInfo h)) (pCache h ! i)"
  have n: "nChNum h = length (pCache h)" using assms(1) by (simp add: hw_wf_def)
  from monitor_refreshed [OF assms(1-4)] assms(5)
  have h': "pCache h' = map ?g [0..<nChNum h]" "nChNum h' = nChNum h" by auto
  have "(\<exists>p\<in>set (pCache h'). status p = HW_DATA_UPTARE) \<longleftrightarrow> (\<exists>i<nChNum h. status (?g i) = HW_DATA_UPTARE)"
    by (auto simp: h')
  also have "\<dots> \<longleftrightarrow> (\<exists>p\<in>set (pCache h). status p = HW_DATA_UPTARE \<or> \<not> feq (val p) (reading (shm_ro shm) (kind (hwInfo h)) p))"
    unfolding n bex_nth by (auto simp: refreshed_def split: if_splits)
  finally show ?thesis using look_loop_spec [of "pCache h'"] h' by (simp add: hw_look_cache_status_def)
qed

theorem monitor_signals_changes_witness:
  "\<exists>h'. hw_param_monitor clock0 shm0 hw0 = Some h' \<and> hw_look_cache_status (Some (map Some (pCache h'))) (nChNum h') = Some 0"
proof -
  from monitor_loop [of clock0 shm0 "kind (hwInfo hw0)" "pCache hw0"] obtain r where
    "for_up (nChNum hw0) 0 (monitor_step clock0 (shm_ro shm0) (kind (hwInfo hw0))) (None, pCache hw0)
      = Some (r, map (\<lambda>i. refreshed (clock0 (Suc i)) (shm_ro shm0) (kind (hwInfo hw0)) (pCache hw0 ! i)) [0..<length (pCache hw0)])"
    using sample0 by (auto simp: hw_wf_def)
  moreover have "put_time (clock0 0) (i_time (hwInfo hw0)) = Some (stamped (clock0 0) (i_time (hwInfo hw0)))"
    by (rule put_time_stamped) (simp_all add: clock0_def calendar_def hw0_def info0_def)
  ultimately obtain h' where h': "hw_param_monitor clock0 shm0 hw0 = Some h'" by (simp add: hw_param_monitor_def)
  from monitor_signals_changes [OF sample0 h'] h' show ?thesis
    by (simp add: hw0_def info0_def reading_def zero_cache_def shm0_def feq_def)
qed

subsection \<open>Mounting\<close>

lemma strncpy_n_terminated:
  "NUL \<notin> set s \<Longrightarrow> strncpy_n n (s @ NUL # r) = Some (strncpy_field n s)"
proof (induction n arbitrary: s)
  case (Suc n)
  then show ?case by (cases s) (auto simp: strncpy_field_def)
qed (simp add: strncpy_field_def)

lemma strncpy_n_prefix: "NUL \<notin> set s \<Longrightarrow> strncpy_n (length s) (s @ r) = Some s"
  by (induction s) auto

text \<open>The type of a channel after the mount, and a version text \<open>KIND:MODEL\<close>.\<close>

definition channel_type :: "hw_dev_kind_e \<Rightarrow> nat \<Rightarrow> hw_dev_type_e" where
  "channel_type kd j = (if kd = HW_KIND_VOL then HW_TYPE_VOL
     else if kd = HW_KIND_ENV then hw_types ! (2 + j) else HW_TYPE_CUR)"

definition version_text :: "string \<Rightarrow> string \<Rightarrow> string \<Rightarrow> bool" where
  "version_text t k m \<longleftrightarrow> (\<exists>c r. t = k @ c # m @ NUL # r) \<and> length k = 3 \<and> length m \<le> 27
     \<and> NUL \<notin> set k \<and> NUL \<notin> set m"

lemma kind_init_ok:
  assumes "version_text (v_type (ver d)) k m" "info_wf i"
  obtains kd where "get_device_kind_by_name (Some k) = Some kd"
    and "hw_kind_init d i = Some (i\<lparr>i_kind := k @ NUL # drop 4 (i_kind i), model := strncpy_field 32 m, kind := kd\<rparr>)"
proof -
  obtain c r where t: "v_type (ver d) = k @ c # m @ NUL # r" using assms(1) by (auto simp: version_text_def)
  have k: "length k = 3" "NUL \<notin> set k" and m: "NUL \<notin> set m" using assms(1) by (simp_all add: version_text_def)
  have l: "length (i_kind i) = 32" "length (model i) = 32" using assms(2) by (simp_all add: info_wf_def)
  have s: "strncpy_n 3 (k @ c # m @ NUL # r) = Some k"
    using strncpy_n_prefix [OF k(2), of "c # m @ NUL # r"] k(1) by simp
  have d: "drop 4 (k @ c # m @ NUL # r) = m @ NUL # r" using k(1) by simp
  have kk: "splice_opt ((i_kind i)[3 := NUL]) 0 k = Some (k @ NUL # drop 4 (i_kind i))"
    using k(1) l(1) by (simp add: splice_opt_def upd_conv_take_nth_drop)
  obtain kd where kd: "get_device_kind_by_name (Some k) = Some kd" by (simp add: get_device_kind_by_name_def)
  have "hw_kind_init d i = Some (i\<lparr>i_kind := k @ NUL # drop 4 (i_kind i), model := strncpy_field 32 m, kind := kd\<rparr>)"
    unfolding hw_kind_init_def t d s strncpy_n_terminated [OF m] using l kk kd k
    by (simp add: splice_opt_def c_str_append)
  with kd show ?thesis by (rule that)
qed

lemma init_type_ok:
  assumes "kd = HW_KIND_ENV \<Longrightarrow> j < JSON_HW_ENV_INS_NUM"
  shows "init_type kd j zero_cache = Some (zero_cache\<lparr>val_type := channel_type kd j\<rparr>)"
proof -
  have "2 + j < length hw_types" if "kd = HW_KIND_ENV"
    using assms [OF that] by (simp add: JSON_HW_ENV_INS_NUM_def hw_types_def)
  then show ?thesis by (auto simp: init_type_def channel_type_def type_of_int_def zero_cache_def)
qed

lemma mount_runs:
  assumes "version_text (v_type (ver (shm_info shm))) k m" "info_wf i0"
    and "aiChNumI (shm_info shm) < 65536" "currentChNum (shm_info shm) < 65536" "voltageChNum (shm_info shm) < 65536"
  shows "hw_info_init True True None i0 = Some (- 1, None) \<and>
    (\<exists>h kd. hw_info_init True True (Some shm) i0 = Some (0, Some h) \<and> hw_wf h \<and> kind (hwInfo h) = kd
      \<and> get_device_kind_by_name (Some k) = Some kd \<and> nChNum h = hw_get_channel_sum kd (shm_info shm)
      \<and> pCache h = map (\<lambda>j. zero_cache\<lparr>val_type := channel_type kd j\<rparr>) [0..<nChNum h])"
proof -
  from kind_init_ok [OF assms(1,2)] obtain kd where kd: "get_device_kind_by_name (Some k) = Some kd"
    and i: "hw_kind_init (shm_info shm) i0
      = Some (i0\<lparr>i_kind := k @ NUL # drop 4 (i_kind i0), model := strncpy_field 32 m, kind := kd\<rparr>)" .
  let ?i = "i0\<lparr>i_kind := k @ NUL # drop 4 (i_kind i0), model := strncpy_field 32 m, kind := kd\<rparr>"
  let ?n = "hw_get_channel_sum kd (shm_info shm)"
  let ?body = "\<lambda>j cs. do { pd \<leftarrow> nth_opt cs j; pd \<leftarrow> init_type kd j pd; upd_opt cs j pd }"
  let ?t = "\<lambda>j. zero_cache\<lparr>val_type := channel_type kd j\<rparr>"
  have n: "?n mod 65536 = ?n" using assms(3-5) by (cases kd) (simp_all add: get_env_isEnable_number_def JSON_HW_ENV_INS_NUM_def)
  have env: "kd = HW_KIND_ENV \<Longrightarrow> ?n = JSON_HW_ENV_INS_NUM" by (simp add: get_env_isEnable_number_def)
  define g where "g = (\<lambda>j. map ?t [0..<j] @ replicate (?n - j) zero_cache)"
  have step: "?body (0 + j) (g j) = Some (g (Suc j))" if j: "j < ?n" for j
  proof -
    have r: "replicate (?n - j) zero_cache = zero_cache # replicate (?n - Suc j) zero_cache"
      using j by (metis Suc_diff_Suc replicate_Suc)
    with j have "nth_opt (g j) j = Some zero_cache" by (simp add: g_def nth_append)
    moreover have "upd_opt (g j) j (?t j) = Some (g (Suc j))" using j r by (simp add: g_def list_update_append)
    moreover have "init_type kd j zero_cache = Some (?t j)" by (rule init_type_ok) (use env j in simp)
    ultimately show ?thesis by simp
  qed
  have "for_up ?n 0 ?body (g 0) = Some (g ?n)"
    by (rule for_up_state [where f = ?body and g = g]) (use step in blast)
  then have "for_up ?n 0 ?body (replicate ?n zero_cache) = Some (map ?t [0..<?n])" by (simp add: g_def)
  then have "hw_info_init True True (Some shm) i0 = Some (0, Some \<lparr>hwInfo = ?i, nChNum = ?n, pCache = map ?t [0..<?n]\<rparr>)"
    by (simp add: hw_info_init_def i n objects_new_2arr_def Let_def)
  moreover have "hw_wf \<lparr>hwInfo = ?i, nChNum = ?n, pCache = map ?t [0..<?n]\<rparr>"
    using assms(1,2) by (simp add: hw_wf_def info_wf_def list_all_iff cache_wf_def zero_cache_def version_text_def)
  ultimately show ?thesis using kd by (simp add: hw_info_init_def)
qed



subsection \<open>Where the code is undefined\<close>

text \<open>Of an unknown kind (\<open>COL\<close>, \<open>TBD\<close>) the first parameter is compared with a local never assigned.\<close>

lemma monitor_unknown_kind:
  assumes "kind (hwInfo h) \<in> {HW_KIND_COL, HW_KIND_TBD}" "0 < nChNum h"
  shows "hw_param_monitor clk shm h = None"
  using assms by (cases "nChNum h") (auto simp: hw_param_monitor_def monitor_step_def get_gpio_val_def Option.bind_eq_None_conv)

text \<open>A port that is not configured (0) is read in front of the array.\<close>

lemma monitor_port_0:
  assumes "kind (hwInfo h) = HW_KIND_CUR" "nChNum h = Suc n" "pCache h = p # ps" "gpio_io p = 0"
  shows "hw_param_monitor clk shm h = None"
  using assms by (simp add: hw_param_monitor_def monitor_step_def get_gpio_val_def read_port_def Option.bind_eq_None_conv)

text \<open>A stamped parameter does not fit the row of the table.\<close>

lemma table_line_overflows:
  assumes "c_str (param_time p) = Some t" "length t = 23"
  shows "table_line h y p = None"
proof -
  have "emit_str (dec y @ '','' @ k @ '','' @ r @ '','' @ ty @ '','' @ v @ '','' @ t) (maxWidth, []) = None" for k r ty v
    using assms(2) by (simp add: emit_str_def maxWidth_def)
  with assms(1) show ?thesis by (simp add: table_line_def Option.bind_eq_None_conv)
qed

end
