(* ===== verification/CJSON_Build.thy ===== *)
theory CJSON_Build
  imports CJSON_Ops
begin

text \<open>
  Building documents with the constructors of \<open>common/cJSON.c\<close>.  The callers of the library
  see it through the interface \<open>json_builder\<close>: a state that builds a list of documents, each with its
  handle, on top of an initial state.  The interface is proved for the constructors of the model on
  a heap whose allocations succeed; the uplink formatter and the generator of the configuration file
  are verified against it.
\<close>

section \<open>Runs with a postcondition\<close>

definition succeeds :: "'a option \<Rightarrow> ('a \<Rightarrow> bool) \<Rightarrow> bool" where
  "succeeds m Q \<longleftrightarrow> (\<exists>r. m = Some r \<and> Q r)"

lemma succeeds_Some [simp]: "succeeds (Some r) Q \<longleftrightarrow> Q r"
  by (simp add: succeeds_def)

lemma succeeds_None [simp]: "\<not> succeeds None Q"
  by (simp add: succeeds_def)

lemma succeeds_bind [simp]: "succeeds (m \<bind> f) Q \<longleftrightarrow> succeeds m (\<lambda>x. succeeds (f x) Q)"
  by (cases m) simp_all

lemma succeeds_mono: "succeeds m P \<Longrightarrow> (\<And>r. P r \<Longrightarrow> Q r) \<Longrightarrow> succeeds m Q"
  by (auto simp: succeeds_def)

lemma succeeds_eqI: "m = Some r \<Longrightarrow> Q r \<Longrightarrow> succeeds m Q"
  by simp

section \<open>The interface\<close>

text \<open>
  \<open>builds h0 ds h\<close>: in state \<open>h\<close> the documents \<open>ds\<close> stand free on top of what \<open>h0\<close> held, the
  value at each handle; their order is of no account.  \<open>prt\<close> prints a document, \<open>del\<close> deletes it.
\<close>

locale json_builder =
  fixes builds :: "'s \<Rightarrow> ('a \<times> json) list \<Rightarrow> 's \<Rightarrow> bool"
    and new_obj new_arr :: "'s \<Rightarrow> ('a \<times> 's) option"
    and add_str :: "'a \<Rightarrow> string \<Rightarrow> string \<Rightarrow> 's \<Rightarrow> 's option"
    and add_member :: "'a \<Rightarrow> string \<Rightarrow> 'a \<Rightarrow> 's \<Rightarrow> 's option"
    and add_elem :: "'a \<Rightarrow> 'a \<Rightarrow> 's \<Rightarrow> 's option"
    and null :: 'a
  assumes new_obj: "builds h0 ds h \<Longrightarrow> succeeds (new_obj h) (\<lambda>(a, h'). a \<noteq> null \<and> builds h0 ((a, JObj []) # ds) h')"
    and new_arr: "builds h0 ds h \<Longrightarrow> succeeds (new_arr h) (\<lambda>(a, h'). a \<noteq> null \<and> builds h0 ((a, JArr []) # ds) h')"
    and add_str: "builds h0 ((a, JObj ms) # ds) h
      \<Longrightarrow> succeeds (add_str a k s h) (builds h0 ((a, JObj (ms @ [(k, JStr s)])) # ds))"
    and add_member: "builds h0 ((a, JObj ms) # (b, j) # ds) h
      \<Longrightarrow> succeeds (add_member a k b h) (builds h0 ((a, JObj (ms @ [(k, j)])) # ds))"
    and add_elem: "builds h0 ((a, JArr js) # (b, j) # ds) h
      \<Longrightarrow> succeeds (add_elem a b h) (builds h0 ((a, JArr (js @ [j])) # ds))"
    and perm: "builds h0 ds h \<Longrightarrow> mset ds = mset ds' \<Longrightarrow> builds h0 ds' h"
begin

text \<open>The laws as steps of a run: what follows may assume the new documents.\<close>

lemma new_objI:
  "builds h0 ds h \<Longrightarrow> (\<And>a h'. a \<noteq> null \<Longrightarrow> builds h0 ((a, JObj []) # ds) h' \<Longrightarrow> Q (a, h')) \<Longrightarrow> succeeds (new_obj h) Q"
  by (rule succeeds_mono [OF new_obj]) auto

lemma new_arrI:
  "builds h0 ds h \<Longrightarrow> (\<And>a h'. a \<noteq> null \<Longrightarrow> builds h0 ((a, JArr []) # ds) h' \<Longrightarrow> Q (a, h')) \<Longrightarrow> succeeds (new_arr h) Q"
  by (rule succeeds_mono [OF new_arr]) auto

lemma add_strI:
  "builds h0 ((a, JObj ms) # ds) h \<Longrightarrow> (\<And>h'. builds h0 ((a, JObj (ms @ [(k, JStr s)])) # ds) h' \<Longrightarrow> Q h')
    \<Longrightarrow> succeeds (add_str a k s h) Q"
  by (rule succeeds_mono [OF add_str]) auto

lemma add_memberI:
  "builds h0 ((a, JObj ms) # (b, j) # ds) h \<Longrightarrow> (\<And>h'. builds h0 ((a, JObj (ms @ [(k, j)])) # ds) h' \<Longrightarrow> Q h')
    \<Longrightarrow> succeeds (add_member a k b h) Q"
  by (rule succeeds_mono [OF add_member]) auto

lemma add_elemI:
  "builds h0 ((a, JArr js) # (b, j) # ds) h \<Longrightarrow> (\<And>h'. builds h0 ((a, JArr (js @ [j])) # ds) h' \<Longrightarrow> Q h')
    \<Longrightarrow> succeeds (add_elem a b h) Q"
  by (rule succeeds_mono [OF add_elem]) auto

lemma swap: "builds h0 (d # e # ds) h \<Longrightarrow> builds h0 (e # d # ds) h"
  by (erule perm) simp

end

section \<open>Documents on a heap\<close>

definition forest :: "heap \<Rightarrow> jt list \<Rightarrow> heap \<Rightarrow> bool" where
  "forest h0 ts h \<longleftrightarrow> heap_ok h0 \<and> roomy h0 \<and> grow {} (foot ts) h0 h \<and> (\<forall>t\<in>set ts. seg (mem h) 0 [t] 0)"

definition represents :: "addr \<times> json \<Rightarrow> jt \<Rightarrow> bool" where
  "represents d t \<longleftrightarrow> jaddr t = fst d \<and> jrep (snd d) t \<and> jname t = None"

definition heap_builds :: "heap \<Rightarrow> (addr \<times> json) list \<Rightarrow> heap \<Rightarrow> bool" where
  "heap_builds h0 ds h \<longleftrightarrow> (\<exists>ts. list_all2 represents ds ts \<and> forest h0 ts h)"

lemma forest_ok: "forest h0 ts h \<Longrightarrow> heap_ok h \<and> roomy h \<and> distinct (foot ts)"
  by (simp add: forest_def grow_def)

lemma foot_concat: "foot ts = concat (map (\<lambda>t. foot [t]) ts)"
proof (induction ts)
  case (Cons t ts)
  then show ?case using foot_append [of "[t]" ts] by simp
qed simp

lemma foot_mset: "mset (foot ts) = sum_mset (image_mset (\<lambda>t. mset (foot [t])) (mset ts))"
proof (induction ts)
  case (Cons t ts)
  then show ?case using foot_append [of "[t]" ts] by simp
qed simp

lemma foot_perm: "mset ts = mset us \<Longrightarrow> mset (foot ts) = mset (foot us)"
  unfolding foot_mset [of ts] foot_mset [of us] by simp

lemma foot_two: "foot (t # u # ts) = foot [t] @ foot [u] @ foot ts"
  using foot_append [of "[t]" "u # ts"] foot_append [of "[u]" ts] by simp

lemma forest_perm: "forest h0 ts h \<Longrightarrow> mset ts = mset us \<Longrightarrow> forest h0 us h"
  using grow_perm [OF _ foot_perm [of ts us]] mset_eq_setD [of ts us] by (auto simp: forest_def)

text \<open>A step that owns some of the trees and new memory.\<close>

lemma forest_step:
  assumes F: "forest h0 (us @ ts) h" and g: "grow (set (foot us)) X h h'"
    and m: "mset (foot us') = mset (foot us) + mset X" and s: "\<forall>u\<in>set us'. seg (mem h') 0 [u] 0"
  shows "forest h0 (us' @ ts) h'"
proof -
  have g0: "grow {} (foot us @ foot ts) h0 h" using F by (simp add: forest_def)
  have "grow {} ((foot us @ foot ts) @ X) h0 h'" by (rule grow_trans [OF g0 g]) auto
  then have "grow {} (foot (us' @ ts)) h0 h'" by (rule grow_perm) (simp add: m)
  moreover have "seg (mem h') 0 [t] 0" if t: "t \<in> set ts" for t
  proof (rule grow_seg [OF g])
    show "seg (mem h) 0 [t] 0" using F t by (simp add: forest_def)
    have "set (foot [t]) \<subseteq> set (foot ts)" using t foot_concat [of ts] by auto
    with forest_ok [OF F] show "set (foot [t]) \<inter> set (foot us) = {}" by auto
  qed (use forest_ok [OF F] in simp)
  ultimately show ?thesis using F s by (auto simp: forest_def)
qed

lemma forest_create:
  assumes F: "forest h0 ts h" and f: "f zero_node = node_of 0 0 (Own (brk h) ty None vi vd None [])" and ty: "\<not> is_ref ty"
  shows "\<exists>h'. create f h = Some (brk h, h') \<and> brk h \<noteq> 0 \<and> forest h0 (Own (brk h) ty None vi vd None [] # ts) h'"
proof -
  have ok: "heap_ok h" "roomy h" using forest_ok [OF F] by simp_all
  from roomy_malloc [OF ok, of "Node zero_node"] obtain h1 where
    n: "cJSON_New_Item h = (brk h, h1)" "brk h \<noteq> 0" by (auto simp: cJSON_New_Item_def)
  note N = new_item [OF ok(1) n]
  note u = upd_node_mem [OF grow_ok [OF N(1)], of "brk h" zero_node f, unfolded N(3), simplified]
  let ?h = "h1\<lparr>mem := (mem h)(brk h := Some (Node (f zero_node)))\<rparr>"
  have "grow {} ([brk h] @ []) h ?h"
    by (rule grow_trans [OF N(1) grow_upd(1) [OF grow_ok [OF N(1)] u(1), of "{brk h}"]]) simp_all
  moreover have "seg (mem ?h) 0 [Own (brk h) ty None vi vd None []] 0"
    using f ty n(2) by simp
  ultimately have "forest h0 ([Own (brk h) ty None vi vd None []] @ ts) ?h"
    using forest_step [where us = "[]" and ts = ts and us' = "[Own (brk h) ty None vi vd None []]" and X = "[brk h]"] F by simp
  with u(1) n show ?thesis by (simp add: create_def)
qed

text \<open>Adding to an array; \<open>A\<close> and \<open>t\<close> are two trees of the forest.\<close>

lemma forest_add:
  assumes F: "forest h0 (Own a ty vs vi vd nm ks # t # ts) h"
  shows "\<exists>h'. cJSON_AddItemToArray a (jaddr t) h = Some h' \<and> forest h0 (Own a ty vs vi vd nm (ks @ [t]) # ts) h'"
proof -
  let ?A = "Own a ty vs vi vd nm ks" and ?B = "Own a ty vs vi vd nm (ks @ [t])"
  have d: "distinct (foot [?A] @ foot [t])" using forest_ok [OF F] unfolding foot_two [of _ _ ts] by (auto simp del: foot.simps)
  have s: "seg (mem h) 0 [?A] 0" "seg (mem h) 0 [t] 0" using F by (simp_all add: forest_def)
  have "distinct (foot [?A])" using d by (simp del: foot.simps)
  then have "holds h 0 0 ?A" using s(1) forest_ok [OF F] unfolding holds_def by blast
  from add_item_ok [OF this s(2) d] obtain h' where
    h': "cJSON_AddItemToArray a (jaddr t) h = Some h'" "holds h' 0 0 ?B" "changes (foot [?B]) h h'" by blast
  have "foot ([?A] @ [t]) = foot [?A] @ foot [t]" by (rule foot_append)
  then have m: "mset (foot [?B]) = mset (foot ([?A] @ [t]))" by simp
  have "grow (set (foot ([?A] @ [t]))) [] h h'"
    using h'(2,3) mset_eq_setD [OF m] by (simp add: grow_def changes_def holds_def)
  then have "forest h0 ([?B] @ ts) h'"
    by (rule forest_step [rotated]) (use F m h'(2) in \<open>simp_all add: holds_def\<close>)
  with h'(1) show ?thesis by auto
qed

text \<open>Giving a tree a name or a value string.\<close>

lemma forest_strdup:
  assumes F: "forest h0 (t # ts) h" and t: "t = Own b ty vs vi vd nm ks"
    and c: "nm = None \<and> vs' = vs \<and> nm' = Some (brk h, k) \<or> vs = None \<and> vs' = Some (brk h, k) \<and> nm' = nm"
    and f: "f (node_of 0 0 t) = node_of 0 0 (Own b ty vs' vi vd nm' ks)"
  shows "\<exists>h2 h3. cJSON_strdup k h = (brk h, h2) \<and> upd_node b f h2 = Some h3
    \<and> forest h0 (Own b ty vs' vi vd nm' ks # ts) h3"
proof -
  let ?t = "Own b ty vs' vi vd nm' ks"
  have ok: "heap_ok h" "roomy h" using forest_ok [OF F] by simp_all
  from roomy_malloc [OF ok, of "Buf k"] obtain h2 where
    n: "c_malloc (Buf k) h = (brk h, h2)" "brk h \<noteq> 0" by blast
  note g = grow_malloc [OF ok(1) n]
  have s: "seg (mem h) 0 [t] 0" using F by (simp add: forest_def)
  then have b: "mem h b = Some (Node (node_of 0 0 t))" "b < brk h" using heap_ok_0 [OF ok(1)] by (auto simp: t)
  then have b2: "mem h2 b = Some (Node (node_of 0 0 t))" using g(2) by simp
  note u = upd_node_mem [OF grow_ok [OF g(1)] b2, of f]
  let ?h = "h2\<lparr>mem := (mem h2)(b := Some (Node (f (node_of 0 0 t))))\<rparr>"
  have bt: "b \<in> set (foot [t])" by (simp add: t)
  have g2: "grow (set (foot [t])) ([brk h] @ []) h ?h"
    by (rule grow_trans [OF g(1) grow_upd(1) [OF grow_ok [OF g(1)] u(1), of "{b}"]]) (use bt in simp_all)
  have sg: "seg (mem ?h) 0 [?t] 0"
  proof -
    have nb: "b \<notin> set (sadr vs @ sadr nm @ foot ks)" using forest_ok [OF F] by (auto simp: t)
    have nf: "x \<in> set (foot [t]) \<Longrightarrow> x < brk h" for x
      using seg_live [OF s] heap_ok_0 [OF ok(1)] by fastforce
    have "\<forall>x\<in>set (sadr vs @ sadr nm @ foot ks). mem ?h x = mem h x"
      using nb nf g(2) by (fastforce simp: t)
    then have "str_in (mem ?h) vs" "str_in (mem ?h) nm" "seg (mem ?h) 0 ks 0"
      using s str_in_frame [of "mem h" vs] str_in_frame [of "mem h" nm] seg_frame [of "mem h" 0 ks 0] by (simp_all add: t)
    then show ?thesis using s b n(2) g(2) c f by (auto simp: t)
  qed
  have ms: "mset (foot [?t]) = mset (foot [t]) + mset [brk h]" using c by (auto simp: t)
  have "forest h0 ([?t] @ ts) ?h"
  proof (rule forest_step [OF _ _ ms])
    show "forest h0 ([t] @ ts) h" using F by simp
    show "grow (set (foot [t])) [brk h] h ?h" using g2 unfolding append_Nil2 .
    show "\<forall>u\<in>set [?t]. seg (mem ?h) 0 [u] 0" using sg by (simp only: list.set ball_simps)
  qed
  with n(1) u(1) show ?thesis unfolding cJSON_strdup_def append_Cons append_Nil by blast
qed

lemma forest_member:
  assumes F: "forest h0 (Own a ty vs vi vd nm ks # t # ts) h" and t: "t = Own b ty' vs' vi' vd' None ks'"
  shows "\<exists>h' s. cJSON_AddItemToObject a k b h = Some h'
    \<and> forest h0 (Own a ty vs vi vd nm (ks @ [Own b ty' vs' vi' vd' (Some (s, k)) ks']) # ts) h'"
proof -
  let ?A = "Own a ty vs vi vd nm ks"
  have F': "forest h0 (t # ?A # ts) h" by (rule forest_perm [OF F]) simp
  then have n: "ld b h = Some (node_of 0 0 t)" "b \<noteq> 0" by (auto simp: forest_def t ld_Node)
  from forest_strdup [OF F' t, of vs' "Some (brk h, k)" k "\<lambda>n. n\<lparr>j_string := brk h\<rparr>"] obtain h2 h3 where
    h: "cJSON_strdup k h = (brk h, h2)" "upd_node b (\<lambda>n. n\<lparr>j_string := brk h\<rparr>) h2 = Some h3"
      "forest h0 (Own b ty' vs' vi' vd' (Some (brk h, k)) ks' # ?A # ts) h3" by (auto simp: t)
  have "forest h0 (?A # Own b ty' vs' vi' vd' (Some (brk h, k)) ks' # ts) h3" by (rule forest_perm [OF h(3)]) simp
  from forest_add [OF this] h(1,2) n show ?thesis by (auto simp: cJSON_AddItemToObject_def t)
qed

lemma forest_string:
  assumes F: "forest h0 ts h"
  shows "\<exists>h' v. cJSON_CreateString s h = Some (brk h, h') \<and> brk h \<noteq> 0
    \<and> forest h0 (Own (brk h) cJSON_String (Some (v, s)) 0 (Fin False 0) None [] # ts) h'"
proof -
  let ?t = "Own (brk h) cJSON_String None 0 (Fin False 0) None []"
  have "\<not> is_ref cJSON_String" by (simp add: is_ref_def cJSON_String_def cJSON_IsReference_def)
  with forest_create [OF F, of "\<lambda>n. n\<lparr>j_type := cJSON_String\<rparr>" cJSON_String 0 "Fin False 0"] obtain h1 where
    c: "create (\<lambda>n. n\<lparr>j_type := cJSON_String\<rparr>) h = Some (brk h, h1)" "brk h \<noteq> 0" "forest h0 (?t # ts) h1"
    by (auto simp: zero_node_def)
  from forest_strdup [OF c(3) refl, of "Some (brk h1, s)" None s "\<lambda>n. n\<lparr>j_valuestring := brk h1\<rparr>"] obtain h2 h3 where
    "cJSON_strdup s h1 = (brk h1, h2)" "upd_node (brk h) (\<lambda>n. n\<lparr>j_valuestring := brk h1\<rparr>) h2 = Some h3"
    "forest h0 (Own (brk h) cJSON_String (Some (brk h1, s)) 0 (Fin False 0) None [] # ts) h3" by auto
  with c(1,2) show ?thesis
    by (auto simp: cJSON_CreateString_def create_def split: prod.splits if_splits)
      (auto simp: bind_eq_Some_conv)
qed

section \<open>The interface on the heap\<close>

lemma jmems_snoc: "jmems ms ts \<Longrightarrow> jname t = Some (a, k) \<Longrightarrow> jrep j t \<Longrightarrow> jmems (ms @ [(k, j)]) (ts @ [t])"
  by (induction ms arbitrary: ts) (auto split: list.splits)

lemma jreps_snoc: "jreps js ts \<Longrightarrow> jrep j t \<Longrightarrow> jreps (js @ [j]) (ts @ [t])"
  by (induction js arbitrary: ts) (auto split: list.splits)

lemma jrep_own: "jrep j t \<Longrightarrow> \<exists>a ty vs vi vd nm ks. t = Own a ty vs vi vd nm ks"
  by (cases t) auto

lemma jrep_name: "jrep j (Own a ty vs vi vd nm ks) = jrep j (Own a ty vs vi vd nm' ks)"
  by (cases j) simp_all

lemma heap_builds_ok: "heap_builds h0 ds h \<Longrightarrow> heap_ok h \<and> roomy h"
  using forest_ok by (auto simp: heap_builds_def)

lemma heap_builds_Nil: "heap_ok h \<Longrightarrow> roomy h \<Longrightarrow> heap_builds h [] h"
  by (simp add: heap_builds_def forest_def)

lemma heap_builds_Cons:
  "heap_builds h0 ((a, j) # ds) h \<longleftrightarrow>
     (\<exists>ty vs vi vd ks ts. jrep j (Own a ty vs vi vd None ks) \<and> list_all2 represents ds ts
       \<and> forest h0 (Own a ty vs vi vd None ks # ts) h)"
  (is "?L \<longleftrightarrow> ?R")
proof
  assume ?L
  then obtain t ts where t: "represents (a, j) t" "list_all2 represents ds ts" "forest h0 (t # ts) h"
    by (auto simp: heap_builds_def list_all2_Cons1)
  obtain ty vs vi vd ks where "t = Own a ty vs vi vd None ks"
    using jrep_own [of j t] t(1) by (auto simp: represents_def)
  moreover have "jrep j t" using t(1) by (simp add: represents_def)
  ultimately show ?R using t(2,3) by blast
next
  assume ?R
  then obtain ty vs vi vd ks ts where r: "jrep j (Own a ty vs vi vd None ks)" "list_all2 represents ds ts"
    "forest h0 (Own a ty vs vi vd None ks # ts) h" by blast
  then have "list_all2 represents ((a, j) # ds) (Own a ty vs vi vd None ks # ts)" by (simp add: represents_def)
  with r(3) show ?L unfolding heap_builds_def by blast
qed

lemma heap_buildsI:
  "forest h0 (Own a ty vs vi vd None ks # ts) h \<Longrightarrow> jrep j (Own a ty vs vi vd None ks) \<Longrightarrow> list_all2 represents ds ts
    \<Longrightarrow> heap_builds h0 ((a, j) # ds) h"
  unfolding heap_builds_Cons by blast

lemma heap_new:
  assumes B: "heap_builds h0 ds h" and f: "f zero_node = node_of 0 0 (Own (brk h) ty None vi vd None [])"
    and j: "jrep j (Own (brk h) ty None vi vd None [])" and ty: "\<not> is_ref ty"
  shows "succeeds (create f h) (\<lambda>(a, h'). a \<noteq> 0 \<and> heap_builds h0 ((a, j) # ds) h')"
proof -
  obtain ts where ts: "list_all2 represents ds ts" "forest h0 ts h" using B by (auto simp: heap_builds_def)
  from forest_create [of h0 ts h f ty vi vd, OF ts(2) f ty] ts(1) j show ?thesis
    by (auto simp: succeeds_def intro: heap_buildsI)
qed

lemma heap_new_obj: "heap_builds h0 ds h \<Longrightarrow> succeeds (cJSON_CreateObject h) (\<lambda>(a, h'). a \<noteq> 0 \<and> heap_builds h0 ((a, JObj []) # ds) h')"
  unfolding cJSON_CreateObject_def
  by (erule heap_new [where ty = cJSON_Object]) (simp_all add: zero_node_def is_ref_def cJSON_Object_def cJSON_IsReference_def)

lemma heap_new_arr: "heap_builds h0 ds h \<Longrightarrow> succeeds (cJSON_CreateArray h) (\<lambda>(a, h'). a \<noteq> 0 \<and> heap_builds h0 ((a, JArr []) # ds) h')"
  unfolding cJSON_CreateArray_def
  by (erule heap_new [where ty = cJSON_Array]) (simp_all add: zero_node_def is_ref_def cJSON_Array_def cJSON_IsReference_def)

lemma heap_new_false: "heap_builds h0 ds h \<Longrightarrow> succeeds (cJSON_CreateFalse h) (\<lambda>(a, h'). a \<noteq> 0 \<and> heap_builds h0 ((a, JFalse) # ds) h')"
  unfolding cJSON_CreateFalse_def
  by (erule heap_new [where ty = cJSON_False]) (simp_all add: zero_node_def is_ref_def cJSON_False_def cJSON_IsReference_def)

lemma CreateNumber_create:
  "to_int 32 num = Some i \<Longrightarrow> cJSON_CreateNumber num h
    = create (\<lambda>n. n\<lparr>j_type := cJSON_Number, j_valuedouble := num, j_valueint := i\<rparr>) h"
  by (simp add: cJSON_CreateNumber_def create_def split: prod.split)

lemma heap_new_num:
  "heap_builds h0 ds h \<Longrightarrow> to_int 32 num = Some i
    \<Longrightarrow> succeeds (cJSON_CreateNumber num h) (\<lambda>(a, h'). a \<noteq> 0 \<and> heap_builds h0 ((a, JNum i num) # ds) h')"
  unfolding CreateNumber_create
  by (erule heap_new [where ty = cJSON_Number]) (simp_all add: zero_node_def is_ref_def cJSON_Number_def cJSON_IsReference_def)

lemma heap_new_str:
  assumes "heap_builds h0 ds h"
  shows "succeeds (cJSON_CreateString s h) (\<lambda>(a, h'). a \<noteq> 0 \<and> heap_builds h0 ((a, JStr s) # ds) h')"
proof -
  obtain ts where ts: "list_all2 represents ds ts" "forest h0 ts h" using assms by (auto simp: heap_builds_def)
  from forest_string [OF ts(2), of s] ts(1) show ?thesis by (fastforce simp: succeeds_def intro: heap_buildsI)
qed

lemma heap_member:
  assumes "heap_builds h0 ((a, JObj ms) # (b, j) # ds) h"
  shows "succeeds (cJSON_AddItemToObject a k b h) (heap_builds h0 ((a, JObj (ms @ [(k, j)])) # ds))"
proof -
  from assms obtain ty vs vi vd ks us where a: "jrep (JObj ms) (Own a ty vs vi vd None ks)"
    "list_all2 represents ((b, j) # ds) us" "forest h0 (Own a ty vs vi vd None ks # us) h"
    unfolding heap_builds_Cons by blast
  then obtain t ts where t: "us = t # ts" "represents (b, j) t" "list_all2 represents ds ts"
    by (auto simp: list_all2_Cons1)
  from t(2) jrep_own [of j t] obtain ty' vs' vi' vd' ks' where u: "t = Own b ty' vs' vi' vd' None ks'"
    by (auto simp: represents_def)
  from forest_member [OF a(3) [unfolded t(1)] u, of k] obtain h' s where h': "cJSON_AddItemToObject a k b h = Some h'"
    "forest h0 (Own a ty vs vi vd None (ks @ [Own b ty' vs' vi' vd' (Some (s, k)) ks']) # ts) h'" by blast
  have "jrep (JObj (ms @ [(k, j)])) (Own a ty vs vi vd None (ks @ [Own b ty' vs' vi' vd' (Some (s, k)) ks']))"
    using a(1) t(2) jmems_snoc [of ms ks "Own b ty' vs' vi' vd' (Some (s, k)) ks'" s k j]
    by (simp add: u represents_def) (metis jrep_name)
  with h' t(3) show ?thesis by (auto simp: succeeds_def intro: heap_buildsI)
qed

lemma heap_elem:
  assumes "heap_builds h0 ((a, JArr js) # (b, j) # ds) h"
  shows "succeeds (cJSON_AddItemToArray a b h) (heap_builds h0 ((a, JArr (js @ [j])) # ds))"
proof -
  from assms obtain ty vs vi vd ks us where a: "jrep (JArr js) (Own a ty vs vi vd None ks)"
    "list_all2 represents ((b, j) # ds) us" "forest h0 (Own a ty vs vi vd None ks # us) h"
    unfolding heap_builds_Cons by blast
  then obtain t ts where t: "us = t # ts" "represents (b, j) t" "list_all2 represents ds ts"
    by (auto simp: list_all2_Cons1)
  from forest_add [OF a(3) [unfolded t(1)]] t(2) obtain h' where "cJSON_AddItemToArray a b h = Some h'"
    "forest h0 (Own a ty vs vi vd None (ks @ [t]) # ts) h'" by (auto simp: represents_def)
  with a(1) t(2,3) jreps_snoc [of js ks j t] show ?thesis by (auto simp: succeeds_def represents_def intro: heap_buildsI)
qed

lemma heap_perm:
  assumes "heap_builds h0 ds h" "mset ds = mset ds'"
  shows "heap_builds h0 ds' h"
proof -
  obtain ts where ts: "list_all2 represents ds ts" "forest h0 ts h" using assms(1) by (auto simp: heap_builds_def)
  from list_all2_reorder_left_invariance [OF ts(1) assms(2) [symmetric]] obtain us where
    "list_all2 represents ds' us" "mset us = mset ts" by blast
  with forest_perm [OF ts(2)] show ?thesis by (auto simp: heap_builds_def)
qed

interpretation cjson: json_builder heap_builds cJSON_CreateObject cJSON_CreateArray cJSON_AddStringToObject
  cJSON_AddItemToObject cJSON_AddItemToArray 0
proof
  fix h0 h :: heap and ds :: "(addr \<times> json) list" and a :: addr and ms :: "(string \<times> json) list" and k s :: string
  assume "heap_builds h0 ((a, JObj ms) # ds) h"
  from heap_new_str [OF this, of s] show "succeeds (cJSON_AddStringToObject a k s h)
      (heap_builds h0 ((a, JObj (ms @ [(k, JStr s)])) # ds))"
    unfolding cJSON_AddStringToObject_def succeeds_bind
    by (rule succeeds_mono) (auto intro!: heap_member elim: heap_perm)
qed (fact heap_new_obj heap_new_arr heap_member heap_elem heap_perm)+

text \<open>A finished document is printed and taken down again: the text is all that stays.\<close>

lemma heap_print_delete:
  assumes B: "heap_builds h0 [(a, j)] h" and j: "jnums j"
  shows "succeeds (cJSON_Print a h) (\<lambda>(r, h1). r \<noteq> 0 \<and> succeeds (cJSON_Delete a h1)
    (\<lambda>h2. heap_ok h2 \<and> roomy h2 \<and> mem h2 = (mem h0)(r \<mapsto> Buf (pj True 0 j)) \<and> mem h0 r = None))"
proof -
  from B obtain t where t: "represents (a, j) t" "forest h0 [t] h" by (auto simp: heap_builds_def list_all2_Cons1)
  then have h: "heap_ok h0" "heap_ok h" "roomy h" "seg (mem h) 0 [t] 0" "distinct (foot [t])" "grow {} (foot [t]) h0 h"
    using forest_ok [OF t(2)] by (auto simp: forest_def)
  have r: "jrep j t" "jaddr t = a" using t(1) by (simp_all add: represents_def)
  from printed [OF h(2,4,5) r(1) j, of True] obtain r h1 where
    r1: "print_value (brk h) True (jaddr t) 0 h = Some (r, h1)" "rendered h r h1 (pj True 0 j)" by blast
  then have nz: "r \<noteq> 0" and g: "grow {} [r] h h1" and m: "mem h1 r = Some (Buf (pj True 0 j))"
    using h(3) by (auto simp: rendered_def split: if_splits)
  have "seg (mem h1) 0 [t] 0" by (rule grow_seg [OF g h(4)]) (use h(2) in simp_all)
  from cJSON_Delete_seg [OF this h(5)] have d: "cJSON_Delete a h1 = Some (without (foot [t]) h1)" using r(2) by simp
  have rr: "brk h \<le> r" using grow_range [OF g, of r] by simp
  have fr: "brk h0 \<le> x \<and> x < brk h" if "x \<in> set (foot [t])" for x using grow_range [OF h(6) that] .
  have n0: "mem h0 x = None" if "brk h0 \<le> x" for x using h(1) that by (simp add: heap_ok_def)
  have "mem (without (foot [t]) h1) x = ((mem h0)(r \<mapsto> Buf (pj True 0 j))) x" for x
  proof (cases "x \<in> set (foot [t])")
    case True
    with fr [OF True] n0 rr show ?thesis by auto
  next
    case False
    with g h(6) m show ?thesis by (auto simp: grow_def simp del: foot.simps)
  qed
  then have mm: "mem (without (foot [t]) h1) = (mem h0)(r \<mapsto> Buf (pj True 0 j))" by blast
  have "heap_ok (without (foot [t]) h1)" using grow_ok [OF g] by (simp add: heap_ok_def)
  moreover have "roomy (without (foot [t]) h1)" using grow_room [OF g] h(3) by simp
  moreover have "brk h0 \<le> brk h" using h(6) by (simp add: grow_def)
  then have "mem h0 r = None" using n0 [of r] rr by simp
  ultimately show ?thesis using d mm nz r1(1) r(2) by (simp add: cJSON_Print_def)
qed

section \<open>Numbers and arrays of numbers\<close>

text \<open>The interface with numbers, booleans and arrays of integers, as the generator of the configuration uses it.\<close>

locale json_number_builder = json_builder builds new_obj new_arr add_str add_member add_elem null
  for builds :: "'s \<Rightarrow> ('a \<times> json) list \<Rightarrow> 's \<Rightarrow> bool"
    and new_obj new_arr :: "'s \<Rightarrow> ('a \<times> 's) option"
    and add_str :: "'a \<Rightarrow> string \<Rightarrow> string \<Rightarrow> 's \<Rightarrow> 's option"
    and add_member :: "'a \<Rightarrow> string \<Rightarrow> 'a \<Rightarrow> 's \<Rightarrow> 's option"
    and add_elem :: "'a \<Rightarrow> 'a \<Rightarrow> 's \<Rightarrow> 's option"
    and null :: 'a +
  fixes add_num :: "'a \<Rightarrow> string \<Rightarrow> fl \<Rightarrow> 's \<Rightarrow> 's option"
    and new_false :: "'s \<Rightarrow> ('a \<times> 's) option"
    and new_ints :: "int list \<Rightarrow> 's \<Rightarrow> ('a \<times> 's) option"
  assumes add_num: "builds h0 ((a, JObj ms) # ds) h \<Longrightarrow> to_int 32 num = Some i
      \<Longrightarrow> succeeds (add_num a k num h) (builds h0 ((a, JObj (ms @ [(k, JNum i num)])) # ds))"
    and new_false: "builds h0 ds h \<Longrightarrow> succeeds (new_false h) (\<lambda>(a, h'). a \<noteq> null \<and> builds h0 ((a, JFalse) # ds) h')"
    and new_ints: "builds h0 ds h \<Longrightarrow> list_all (\<lambda>i. - (2 ^ 31) \<le> i \<and> i < 2 ^ 31) xs
      \<Longrightarrow> succeeds (new_ints xs h) (\<lambda>(a, h'). a \<noteq> null \<and> builds h0 ((a, JArr (map (\<lambda>i. JNum i (int_fl i)) xs)) # ds) h')"
begin

lemma add_numI:
  "builds h0 ((a, JObj ms) # ds) h \<Longrightarrow> to_int 32 num = Some i
    \<Longrightarrow> (\<And>h'. builds h0 ((a, JObj (ms @ [(k, JNum i num)])) # ds) h' \<Longrightarrow> Q h') \<Longrightarrow> succeeds (add_num a k num h) Q"
  by (rule succeeds_mono [OF add_num]) auto

lemma new_falseI:
  "builds h0 ds h \<Longrightarrow> (\<And>a h'. a \<noteq> null \<Longrightarrow> builds h0 ((a, JFalse) # ds) h' \<Longrightarrow> Q (a, h')) \<Longrightarrow> succeeds (new_false h) Q"
  by (rule succeeds_mono [OF new_false]) auto

lemma new_intsI:
  "builds h0 ds h \<Longrightarrow> list_all (\<lambda>i. - (2 ^ 31) \<le> i \<and> i < 2 ^ 31) xs
    \<Longrightarrow> (\<And>a h'. a \<noteq> null \<Longrightarrow> builds h0 ((a, JArr (map (\<lambda>i. JNum i (int_fl i)) xs)) # ds) h' \<Longrightarrow> Q (a, h'))
    \<Longrightarrow> succeeds (new_ints xs h) Q"
  by (rule succeeds_mono [OF new_ints]) auto

end

lemma int_number: "- (2 ^ 31) \<le> i \<Longrightarrow> i < 2 ^ 31 \<Longrightarrow> of_int_fl binary64 i = int_fl i \<and> to_int 32 (int_fl i) = Some i"
  by (simp add: of_int_fl_exact to_int_int)

text \<open>Filling appends: the code keeps the last child at hand instead of looking for it.\<close>

lemma fill_step:
  assumes "holds h p q (Own a ty vs vi vd nm ks)" "n \<noteq> 0"
  shows "(if ks = [] then upd_node a (\<lambda>m. m\<lparr>j_child := n\<rparr>) h else suffix_object (jaddr (List.last ks)) n h) = cJSON_AddItemToArray a n h"
proof (cases "ks = []")
  case True
  with holds_own(1) [OF assms(1)] assms(2) show ?thesis by (simp add: cJSON_AddItemToArray_def)
next
  case False
  note o = holds_own [OF assms(1)]
  have "seg (mem h) 0 (butlast ks @ [List.last ks]) 0" using o(2) False by simp
  from last_item_ok [OF this] False have "last_item (first ks 0) h = Some (jaddr (List.last ks))" by simp
  moreover have "first ks 0 \<noteq> 0" using first_0_iff [OF o(2)] False by simp
  ultimately show ?thesis using o(1) assms(2) False by (simp add: cJSON_AddItemToArray_def)
qed

lemma forest_number:
  assumes "forest h0 ts h" "to_int 32 num = Some i"
  shows "\<exists>h'. cJSON_CreateNumber num h = Some (brk h, h') \<and> brk h \<noteq> 0
    \<and> forest h0 (Own (brk h) cJSON_Number None i num None [] # ts) h'"
  unfolding CreateNumber_create [OF assms(2)]
  by (rule forest_create [OF assms(1)]) (simp_all add: zero_node_def is_ref_def cJSON_Number_def cJSON_IsReference_def)

lemma forest_fill:
  assumes "forest h0 (Own a ty vs vi vd nm ks # ts) h" "list_all (\<lambda>i. - (2 ^ 31) \<le> i \<and> i < 2 ^ 31) xs"
    and "ks = [] \<or> p = jaddr (List.last ks)"
  shows "\<exists>h' us. fill_array (\<lambda>i. cJSON_CreateNumber (of_int_fl binary64 i)) a (ks = []) p xs h = Some h'
    \<and> forest h0 (Own a ty vs vi vd nm (ks @ us) # ts) h' \<and> jreps (map (\<lambda>i. JNum i (int_fl i)) xs) us"
  using assms
proof (induction xs arbitrary: ks p h)
  case Nil
  then show ?case by (intro exI [of _ h] exI [of _ "[]"]) simp
next
  case (Cons i xs)
  let ?A = "Own a ty vs vi vd nm ks"
  have i: "of_int_fl binary64 i = int_fl i" "to_int 32 (int_fl i) = Some i" using Cons.prems(2) int_number by simp_all
  from forest_number [OF Cons.prems(1) i(2)] obtain h1 where
    n: "cJSON_CreateNumber (int_fl i) h = Some (brk h, h1)" "brk h \<noteq> 0"
      "forest h0 (Own (brk h) cJSON_Number None i (int_fl i) None [] # ?A # ts) h1" by blast
  let ?n = "Own (brk h) cJSON_Number None i (int_fl i) None []"
  have F: "forest h0 (?A # ?n # ts) h1" by (rule forest_perm [OF n(3)]) simp
  from forest_add [OF F] obtain h2 where
    h2: "cJSON_AddItemToArray a (brk h) h1 = Some h2" "forest h0 (Own a ty vs vi vd nm (ks @ [?n]) # ts) h2" by auto
  have "seg (mem h1) 0 [?A] 0" using F by (simp add: forest_def)
  moreover have "distinct (foot [?A])" using forest_ok [OF F] foot_append [of "[?A]" "?n # ts"] by (simp del: foot.simps)
  ultimately have "holds h1 0 0 ?A" using forest_ok [OF F] unfolding holds_def by blast
  from fill_step [OF this n(2)] h2(1) Cons.prems(3) have
    st: "(if ks = [] then upd_node a (\<lambda>m. m\<lparr>j_child := brk h\<rparr>) h1 else suffix_object p (brk h) h1) = Some h2" by auto
  from Cons.IH [OF h2(2), of "brk h"] Cons.prems(2) obtain h' us where
    "fill_array (\<lambda>i. cJSON_CreateNumber (of_int_fl binary64 i)) a False (brk h) xs h2 = Some h'"
    "forest h0 (Own a ty vs vi vd nm ((ks @ [?n]) @ us) # ts) h'" "jreps (map (\<lambda>i. JNum i (int_fl i)) xs) us" by auto
  with n(1) st i show ?case by (intro exI [of _ h'] exI [of _ "?n # us"]) simp
qed

lemma heap_new_ints:
  assumes "heap_builds h0 ds h" "list_all (\<lambda>i. - (2 ^ 31) \<le> i \<and> i < 2 ^ 31) xs"
  shows "succeeds (cJSON_CreateIntArray xs h) (\<lambda>(a, h'). a \<noteq> 0 \<and> heap_builds h0 ((a, JArr (map (\<lambda>i. JNum i (int_fl i)) xs)) # ds) h')"
proof -
  obtain ts where ts: "list_all2 represents ds ts" "forest h0 ts h" using assms(1) by (auto simp: heap_builds_def)
  have "\<not> is_ref cJSON_Array" by (simp add: is_ref_def cJSON_Array_def cJSON_IsReference_def)
  with forest_create [OF ts(2), of "\<lambda>n. n\<lparr>j_type := cJSON_Array\<rparr>" cJSON_Array 0 "Fin False 0"] obtain h1 where
    a: "cJSON_CreateArray h = Some (brk h, h1)" "brk h \<noteq> 0" "forest h0 (Own (brk h) cJSON_Array None 0 (Fin False 0) None [] # ts) h1"
    by (auto simp: zero_node_def cJSON_CreateArray_def)
  from forest_fill [OF a(3) assms(2), of 0] obtain h' us where
    "fill_array (\<lambda>i. cJSON_CreateNumber (of_int_fl binary64 i)) (brk h) True 0 xs h1 = Some h'"
    "forest h0 (Own (brk h) cJSON_Array None 0 (Fin False 0) None us # ts) h'" "jreps (map (\<lambda>i. JNum i (int_fl i)) xs) us"
    by (simp only: append_Nil simp_thms) blast
  with a(1,2) ts(1) show ?thesis
    by (auto simp: cJSON_CreateIntArray_def create_filled_def intro: heap_buildsI)
qed

interpretation cjson_numbers: json_number_builder heap_builds cJSON_CreateObject cJSON_CreateArray cJSON_AddStringToObject
  cJSON_AddItemToObject cJSON_AddItemToArray 0 cJSON_AddNumberToObject cJSON_CreateFalse cJSON_CreateIntArray
proof
  fix h0 h :: heap and ds :: "(addr \<times> json) list" and a :: addr and ms :: "(string \<times> json) list" and k :: string and num :: fl and i :: int
  assume "heap_builds h0 ((a, JObj ms) # ds) h" "to_int 32 num = Some i"
  from heap_new_num [OF this] show "succeeds (cJSON_AddNumberToObject a k num h)
      (heap_builds h0 ((a, JObj (ms @ [(k, JNum i num)])) # ds))"
    unfolding cJSON_AddNumberToObject_def succeeds_bind
    by (rule succeeds_mono) (auto intro!: heap_member elim: heap_perm)
qed (fact heap_new_false heap_new_ints)+

end
