(* ===== verification/WsDataflow.thy ===== *)
theory WsDataflow
  imports CJSON_Build CJSON_Correct Hardware
begin

text \<open>
  The report of the terminal, \<open>dataflow/ws_dataflow.cpp\<close>: the parameters marked updated go into a JSON
  document, each is marked used, and the printed text is handed out.  The documents are built on
  the heap of the JSON library; the proofs use its interface \<open>json_builder\<close> only.
\<close>

section \<open>The code\<close>

definition WS_STRLEN_MAX :: nat where "WS_STRLEN_MAX = 256"

text \<open>\<open>_ws_format_hardware_param\<close>; \<open>kd\<close> is the kind of the global device \<open>hw\<close>.\<close>

definition ws_format_hardware_param ::
  "hw_dev_kind_e \<Rightarrow> addr \<Rightarrow> hw_cache_t option \<Rightarrow> heap \<Rightarrow> (bool \<times> heap) option" where
  "ws_format_hardware_param kd jp param h =
     (case param of None \<Rightarrow> Some (False, h)
      | Some p \<Rightarrow> if jp = 0 then Some (False, h) else do {
          k \<leftarrow> c_str (kks p);
          h \<leftarrow> cJSON_AddStringToObject jp ''kks'' k h;
          (n, ref) \<leftarrow> get_param_ref (Some WS_STRLEN_MAX) (Some p);
          h \<leftarrow> cJSON_AddStringToObject jp ''ref'' ref h;
          h \<leftarrow> cJSON_AddStringToObject jp ''vtype'' (get_hw_name_by_type (val_type p)) h;
          v \<leftarrow> get_val kd (Some p);
          (n, s) \<leftarrow> get_val_strUnit (Some 128) (Some p) v;
          h \<leftarrow> cJSON_AddStringToObject jp ''val'' s h;
          t \<leftarrow> c_str (param_time p);
          h \<leftarrow> cJSON_AddStringToObject jp ''t'' t h;
          Some (True, h)
        })"

text \<open>
  The loop over the cache.  The first component says whether it ran to its end: a null parameter and
  a failed allocation leave the function from inside the loop.
\<close>

fun format_params ::
  "hw_dev_kind_e \<Rightarrow> addr \<Rightarrow> nat \<Rightarrow> hw_cache_t option list \<Rightarrow> heap
     \<Rightarrow> (bool \<times> hw_cache_t option list \<times> heap) option" where
  "format_params kd array 0 ps h = Some (True, ps, h)"
| "format_params kd array (Suc n) [] h = None"
| "format_params kd array (Suc n) (p # ps) h =
     (case p of None \<Rightarrow> Some (False, p # ps, h)
      | Some pd \<Rightarrow>
          if status pd \<noteq> HW_DATA_UPTARE then do {
            (ok, ps', h) \<leftarrow> format_params kd array n ps h;
            Some (ok, p # ps', h)
          } else do {
            (jparam, h) \<leftarrow> cJSON_CreateObject h;
            (if jparam = 0 then Some (False, p # ps, h)
             else do {
               let pd' = snd (hw_used_cache pd);
               (r, h) \<leftarrow> ws_format_hardware_param kd jparam (Some pd') h;
               h \<leftarrow> cJSON_AddItemToArray array jparam h;
               (ok, ps', h) \<leftarrow> format_params kd array n ps h;
               Some (ok, Some pd' # ps', h)
             })
          })"

text \<open>
  The returned \<open>_Bool\<close> is true on every path, \<open>-1\<close> included; then the cache, \<open>*out\<close> where it was
  written, and the heap.
\<close>

definition ws_format_hardware_data ::
  "hw_dev_kind_e \<Rightarrow> hw_info_t \<Rightarrow> hw_cache_t option list option \<Rightarrow> nat \<Rightarrow> heap
     \<Rightarrow> (bool \<times> hw_cache_t option list option \<times> addr option \<times> heap) option" where
  "ws_format_hardware_data kd hwd pData number h = do {
     (json, h) \<leftarrow> cJSON_CreateObject h;
     (root, h) \<leftarrow> cJSON_CreateObject h;
     (array, h) \<leftarrow> cJSON_CreateArray h;
     (case pData of None \<Rightarrow> Some (True, None, None, h)
      | Some ps \<Rightarrow> do {
          s \<leftarrow> c_str (i_name hwd);
          h \<leftarrow> cJSON_AddStringToObject root ''name'' s h;
          s \<leftarrow> c_str (i_id hwd);
          h \<leftarrow> cJSON_AddStringToObject root ''id'' s h;
          s \<leftarrow> c_str (i_kind hwd);
          h \<leftarrow> cJSON_AddStringToObject root ''terminal'' s h;
          h \<leftarrow> cJSON_AddStringToObject root ''mtype'' ''MSGE'' h;
          s \<leftarrow> c_str (i_time hwd);
          h \<leftarrow> cJSON_AddStringToObject root ''t'' s h;
          (ok, ps, h) \<leftarrow> format_params kd array number ps h;
          (if \<not> ok then Some (True, Some ps, None, h)
           else do {
             h \<leftarrow> cJSON_AddItemToObject root ''params'' array h;
             h \<leftarrow> cJSON_AddItemToObject json ''json'' root h;
             (out, h) \<leftarrow> cJSON_Print json h;
             h \<leftarrow> cJSON_Delete json h;
             Some (True, Some ps, Some out, h)
           })
        })
   }"

section \<open>The document\<close>

text \<open>What a parameter and the report say.\<close>

definition value_of :: "hw_dev_kind_e \<Rightarrow> hw_cache_t \<Rightarrow> fl" where
  "value_of kd p = (if kd = HW_KIND_ASE \<or> kd = HW_KIND_PSE
     then data_AD_convert (val p) (of_int_fl binary32 (rangeI p ! 0)) (of_int_fl binary32 (rangeI p ! 1))
            (of_int_fl binary32 (rangeD p ! 0)) (of_int_fl binary32 (rangeD p ! 1))
     else val p)"

definition param_doc :: "hw_dev_kind_e \<Rightarrow> hw_cache_t \<Rightarrow> json" where
  "param_doc kd p = JObj [(''kks'', JStr (tk (kks p))), (''ref'', JStr (tk (p_ref p))),
     (''vtype'', JStr (get_hw_name_by_type (val_type p))),
     (''val'', JStr (fmt_f 1 (value_of kd p) @ ''-'' @ get_hw_unit_by_type (val_type p))),
     (''t'', JStr (tk (param_time p)))]"

definition updated :: "hw_cache_t \<Rightarrow> bool" where
  "updated p \<longleftrightarrow> status p = HW_DATA_UPTARE"

definition report_doc :: "hw_dev_kind_e \<Rightarrow> hw_info_t \<Rightarrow> hw_cache_t list \<Rightarrow> json" where
  "report_doc kd i cs = JObj [(''json'', JObj [(''name'', JStr (tk (i_name i))), (''id'', JStr (tk (i_id i))),
     (''terminal'', JStr (tk (i_kind i))), (''mtype'', JStr ''MSGE''), (''t'', JStr (tk (i_time i))),
     (''params'', JArr (map (param_doc kd) (filter updated cs)))])]"

definition mark_used :: "hw_cache_t \<Rightarrow> hw_cache_t" where
  "mark_used p = (if updated p then p\<lparr>status := HW_DATA_USED\<rparr> else p)"

text \<open>Texts that end inside their fields.\<close>

definition cache_texts :: "hw_cache_t \<Rightarrow> bool" where
  "cache_texts p \<longleftrightarrow> cache_wf p \<and> is_float (val p) \<and> NUL \<in> set (kks p) \<and> NUL \<in> set (p_ref p) \<and> NUL \<in> set (param_time p)"

definition info_texts :: "hw_info_t \<Rightarrow> bool" where
  "info_texts i \<longleftrightarrow> NUL \<in> set (i_name i) \<and> NUL \<in> set (i_id i) \<and> NUL \<in> set (i_kind i) \<and> NUL \<in> set (i_time i)"

lemma c_str_tk: "NUL \<in> set s \<Longrightarrow> c_str s = Some (tk s)"
  by (induction s) (auto simp: tk_def)

lemma length_tk_less: "NUL \<in> set s \<Longrightarrow> length (tk s) < length s"
  by (induction s) (auto simp: tk_def)

lemma is_float_fround: "0 \<le> q \<Longrightarrow> is_float (fround binary32 s q)"
  by (auto simp: is_float_def fround_def Let_def p2_def rne_nonneg not_le split: if_splits)

lemma is_float_of_val: "is_float (of_val binary32 z v)"
  using is_float_fround [of "\<bar>v\<bar>"] by (auto simp: of_val_def is_float_def)

lemma is_float_fadd: "is_float (fadd binary32 x y)"
  by (cases x; cases y) (auto simp: is_float_of_val, auto simp: is_float_def)

lemma is_float_value: "is_float (val p) \<Longrightarrow> is_float (value_of kd p)"
  by (simp add: value_of_def data_AD_convert_def Let_def is_float_fadd)

lemma unit_length: "length (get_hw_unit_by_type t) \<le> 16"
  by (cases t) (simp_all add: get_hw_unit_by_type_def hw_vtype_values_def vtype_def)

lemma get_val_value: "cache_wf p \<Longrightarrow> get_val kd (Some p) = Some (value_of kd p)"
  by (simp add: get_val_def value_of_def cache_wf_def)

lemma val_text:
  assumes "is_float v"
  shows "\<exists>n. get_val_strUnit (Some 128) (Some p) v = Some (n, fmt_f 1 v @ ''-'' @ get_hw_unit_by_type (val_type p))"
  using length_fmt_f_float [OF assms, of 1] unit_length [of "val_type p"]
  by (simp add: get_val_strUnit_def emit_str_def)

lemma ref_text:
  assumes "cache_wf p" "NUL \<in> set (p_ref p)"
  shows "\<exists>n. get_param_ref (Some WS_STRLEN_MAX) (Some p) = Some (n, tk (p_ref p))"
  using assms length_tk_less [OF assms(2)]
  by (simp add: get_param_ref_def c_str_tk emit_str_def WS_STRLEN_MAX_def cache_wf_def)

lemma param_runs:
  assumes "heap_builds h0 ((a, JObj []) # ds) h" "a \<noteq> 0" "cache_texts p"
  shows "succeeds (ws_format_hardware_param kd a (Some p) h) (\<lambda>(r, h'). heap_builds h0 ((a, param_doc kd p) # ds) h')"
proof -
  have w: "cache_wf p" and f: "is_float (value_of kd p)" and t: "NUL \<in> set (kks p)" "NUL \<in> set (p_ref p)" "NUL \<in> set (param_time p)"
    using assms(3) is_float_value [of p kd] by (simp_all add: cache_texts_def)
  obtain n1 n2 where v: "get_val_strUnit (Some 128) (Some p) (value_of kd p)
      = Some (n1, fmt_f 1 (value_of kd p) @ ''-'' @ get_hw_unit_by_type (val_type p))"
    "get_param_ref (Some WS_STRLEN_MAX) (Some p) = Some (n2, tk (p_ref p))"
    using val_text [OF f] ref_text [OF w t(2)] by blast
  show ?thesis using assms(2)
    by (simp add: ws_format_hardware_param_def c_str_tk t v get_val_value [OF w])
      (rule cjson.add_strI, rule assms(1), rule cjson.add_strI, assumption, rule cjson.add_strI, assumption,
        rule cjson.add_strI, assumption, rule cjson.add_strI, assumption, simp add: param_doc_def)
qed

lemma loop_runs:
  assumes "heap_builds h0 ((arr, JArr js) # ds) h" "list_all cache_texts cs"
  shows "succeeds (format_params kd arr (length cs) (map Some cs) h) (\<lambda>(ok, ps, h'). ok \<and> ps = map (Some \<circ> mark_used) cs
    \<and> heap_builds h0 ((arr, JArr (js @ map (param_doc kd) (filter updated cs))) # ds) h')"
  using assms
proof (induction cs arbitrary: js h)
  case (Cons p cs)
  then have c: "cache_texts p" "list_all cache_texts cs" by simp_all
  show ?case
  proof (cases "updated p")
    case False
    with Cons.IH [OF Cons.prems(1) c(2)] show ?thesis
      by (auto simp: updated_def mark_used_def elim!: succeeds_mono)
  next
    case True
    let ?p = "p\<lparr>status := HW_DATA_USED\<rparr>"
    have p: "cache_texts ?p" "param_doc kd ?p = param_doc kd p"
      using c(1) by (simp_all add: cache_texts_def cache_wf_def param_doc_def value_of_def)
    from True show ?thesis
      using Cons.prems(1)
      apply (simp add: updated_def hw_used_cache_def)
      apply (erule cjson.new_objI, simp add: Let_def hw_used_cache_def)
      apply (rule succeeds_mono, erule param_runs [OF _ _ p(1)], simp, clarsimp simp: p(2))
      apply (drule cjson.swap, erule cjson.add_elemI)
      apply (rule succeeds_mono, erule Cons.IH [OF _ c(2)])
      apply (auto simp: mark_used_def updated_def [abs_def])
      done
  qed
qed simp

lemma report_runs:
  assumes "heap_ok h" "roomy h" "info_texts i" "list_all cache_texts cs"
  shows "\<exists>r h'. ws_format_hardware_data kd i (Some (map Some cs)) (length cs) h
      = Some (True, Some (map (Some \<circ> mark_used) cs), Some r, h')
    \<and> r \<noteq> 0 \<and> mem h' = (mem h)(r \<mapsto> Buf (pj True 0 (report_doc kd i cs))) \<and> mem h r = None \<and> heap_ok h' \<and> roomy h'"
proof -
  let ?Q = "\<lambda>(b, ps, out, h'). b \<and> ps = Some (map (Some \<circ> mark_used) cs) \<and> (\<exists>r. out = Some r \<and> r \<noteq> 0
    \<and> mem h' = (mem h)(r \<mapsto> Buf (pj True 0 (report_doc kd i cs))) \<and> mem h r = None \<and> heap_ok h' \<and> roomy h')"
  let ?js = "map (param_doc kd) (filter updated cs)"
  note I = cjson.new_objI cjson.new_arrI
  have n: "jnums (report_doc kd i cs)"
  proof -
    have "jnumss (map (param_doc kd) ps)" for ps by (induction ps) (simp_all add: param_doc_def)
    then show ?thesis by (simp add: report_doc_def)
  qed
  have "succeeds (ws_format_hardware_data kd i (Some (map Some cs)) (length cs) h) ?Q"
    unfolding ws_format_hardware_data_def succeeds_bind using heap_builds_Nil [OF assms(1,2)]
    apply (elim cjson.new_objI, simp)
    apply (elim cjson.new_objI, simp)
    apply (elim cjson.new_arrI, simp add: c_str_tk assms(3) [unfolded info_texts_def])
    apply (drule cjson.swap, elim cjson.add_strI)
    apply (drule cjson.swap, rule succeeds_mono, erule loop_runs [OF _ assms(4)], clarsimp)
    apply (drule cjson.swap, erule cjson.add_memberI, drule cjson.swap, erule cjson.add_memberI)
    apply (rule succeeds_mono, erule heap_print_delete)
    using n apply (simp add: report_doc_def)
    apply (clarsimp, erule succeeds_mono, simp add: report_doc_def)
    done
  then show ?thesis by (auto simp: succeeds_def)
qed

text \<open>C26: The report (\<open>ws_format_hardware_data\<close>) on a heap with memory: it succeeds, marks exactly the
  updated parameters used, and leaves one new buffer behind, the printed document that lists the
  device and, in the order of the cache, the updated parameters with their name, reference, type,
  value with unit and time; everything else it allocated is given back.\<close>

theorem report_lists_updates:
  assumes "heap_ok h" "roomy h" "info_texts i" "list_all cache_texts cs"
  shows "\<exists>r h'. ws_format_hardware_data kd i (Some (map Some cs)) (length cs) h
      = Some (True, Some (map (Some \<circ> mark_used) cs), Some r, h')
    \<and> r \<noteq> 0 \<and> mem h' = (mem h)(r \<mapsto> Buf (pj True 0 (report_doc kd i cs))) \<and> mem h r = None \<and> heap_ok h' \<and> roomy h'"
  by (rule report_runs [OF assms])

lemma zero_cache_texts: "cache_texts (zero_cache\<lparr>gpio_io := 1, status := b\<rparr>)"
  by (simp add: cache_texts_def cache_wf_def zero_cache_def is_float_def)

lemma info0_texts: "info_texts info0"
  by (simp add: info_texts_def info0_def)

theorem report_lists_updates_witness:
  "\<exists>r h'. ws_format_hardware_data HW_KIND_CUR info0 (Some [Some (zero_cache\<lparr>gpio_io := 1, status := HW_DATA_UPTARE\<rparr>)]) 1 heap0
      = Some (True, Some [Some (zero_cache\<lparr>gpio_io := 1, status := HW_DATA_USED\<rparr>)], Some r, h') \<and> mem h' r \<noteq> None"
  using report_lists_updates [of heap0 info0 "[zero_cache\<lparr>gpio_io := 1, status := HW_DATA_UPTARE\<rparr>]" HW_KIND_CUR]
    info0_texts zero_cache_texts [of HW_DATA_UPTARE]
  by (auto simp: mark_used_def updated_def)

text \<open>A null parameter leaves the function early: it still answers true, hands out no text and keeps
  the three documents it had begun.\<close>

lemma report_null_leaks:
  assumes "heap_ok h" "roomy h" "info_texts i"
  shows "\<exists>ps h'. ws_format_hardware_data kd i (Some [None]) 1 h = Some (True, ps, None, h') \<and> mem h' \<noteq> mem h"
proof -
  let ?Q = "\<lambda>(b, ps, out, h'). b \<and> out = None \<and> (\<exists>a j ds. heap_builds h ((a, j) # ds) h')"
  have "succeeds (ws_format_hardware_data kd i (Some [None]) 1 h) ?Q"
    unfolding ws_format_hardware_data_def succeeds_bind using heap_builds_Nil [OF assms(1,2)]
    apply (elim cjson.new_objI, simp)
    apply (elim cjson.new_objI, simp)
    apply (elim cjson.new_arrI, simp add: c_str_tk assms(3) [unfolded info_texts_def])
    apply (drule cjson.swap, elim cjson.add_strI, auto)
    done
  then obtain ps h' a j ds where r: "ws_format_hardware_data kd i (Some [None]) 1 h = Some (True, ps, None, h')"
    "heap_builds h ((a, j) # ds) h'" by (auto simp: succeeds_def)
  then obtain ty vs vi vd ks ts where f: "forest h (Own a ty vs vi vd None ks # ts) h'"
    by (auto simp: heap_builds_Cons)
  then have "brk h \<le> a" "mem h' a \<noteq> None" by (auto simp: forest_def grow_def)
  with assms(1) have "mem h' a \<noteq> mem h a" by (simp add: heap_ok_def)
  with r(1) show ?thesis by metis
qed

end
