(* ===== verification/WsUplink.thy ===== *)
theory WsUplink
  imports WsDataflow SysUtil
begin

text \<open>
  The uplink of \<open>websocket/source/srv_websocket.cpp\<close>: the printed report is wrapped byte by byte into the
  frame of the host protocol, copied into the user buffer of the connection, and the library is asked
  for a writable callback.  The connection record is the one of \<open>websocket/include/ws_test_client.h\<close>.
  The proofs read the frame with the grammar and the parser of the JSON library.
\<close>

section \<open>The code\<close>

subsection \<open>The connection\<close>

definition LWS_PRE :: nat where "LWS_PRE = 16"  \<comment> \<open>of the library\<close>
definition WS_TX_MAX_LEN :: nat where "WS_TX_MAX_LEN = 100 * 1024"
definition WS_SUB_PROTOCOL_NUM :: nat where "WS_SUB_PROTOCOL_NUM = 3"

datatype demo_protocols = PROTOCOL_TEST_CALLBACK | PROTOCOL_LWS_MIRROR | DEMO_PROTOCOL_COUNT
datatype pthread_status = PTHREAD_FILISH | PTHREAD_RUN | PTHREAD_INIT
datatype user_cache_status = USER_NULL | USER_RX | USER_TX

text \<open>
  Pointers to library objects are numbers, null is \<open>None\<close>; so are the user buffers.  A thread handle is
  one more than the number of the thread, 0 is the handle of a record that was only zero initialised.
  The mutex is the bit of being held.
\<close>

record ws_sub_protocol_t =
  conn_info :: "nat option"
  wsi_multi :: "nat option"
  rl_multi :: "32 word"
  prot_name :: "string option"
  p_user :: "nat option"
  user_len :: nat
  pthread_spam :: nat
  lock_ring :: bool
  ring :: "nat option"
  counter :: int
  pthread_state :: pthread_status
  established :: bool
  user_state :: user_cache_status

text \<open>The fields of the library's connect information that the client sets.\<close>

record lws_client_connect_info =
  ci_context :: "nat option"
  ci_address :: string
  ci_port :: nat
  ci_ssl_connection :: int
  ci_path :: string
  ci_host :: string
  ci_origin :: string
  ci_protocol :: "string option"
  ci_pwsi :: "nat option"
  ci_userdata :: "nat option"

text \<open>Where a business thread stands in its loop.\<close>

datatype thread_pc = Created | Top | Logged | Cleared | Flow | Test | Exited | Joined

text \<open>
  The client: the records, the buffers that were allocated for them, the connect informations, the
  business threads (the record each works for and where it stands), and the calls made so far:
  connects, requests for a writable callback, releases of the flow control and messages written,
  all made to the library, and messages logged by the threads.
\<close>

record ws_client =
  ws_prot :: "ws_sub_protocol_t list"
  bufs :: "string list"
  infos :: "lws_client_connect_info list"
  threads :: "(nat \<times> thread_pc) list"
  connects :: "lws_client_connect_info list"
  writable :: "nat list"
  flow :: "nat list"
  sent :: "string list"
  received :: "(nat \<times> string) list"

definition get_buf :: "ws_client \<Rightarrow> nat option \<Rightarrow> string option" where
  "get_buf c a = do { i \<leftarrow> a; nth_opt (bufs c) i }"

definition put_buf :: "ws_client \<Rightarrow> nat option \<Rightarrow> string \<Rightarrow> ws_client option" where
  "put_buf c a s = do { i \<leftarrow> a; bs \<leftarrow> upd_opt (bufs c) i s; Some (c\<lparr>bufs := bs\<rparr>) }"

subsection \<open>The frame\<close>

definition CMD_MES_PARAM :: int where "CMD_MES_PARAM = 65537"
definition CMD_MES_EVENT :: int where "CMD_MES_EVENT = 65538"

text \<open>\<open>%d\<close> of a \<open>char\<close>: it is signed on the x86 build and unsigned on the ARM target.\<close>

definition char_value :: "bool \<Rightarrow> char \<Rightarrow> int" where
  "char_value sc c = (if sc then schar c else int (code c))"

fun emit_bytes :: "bool \<Rightarrow> string \<Rightarrow> writer \<Rightarrow> writer option" where
  "emit_bytes sc [] w = Some w"
| "emit_bytes sc (c # s) w = do { w \<leftarrow> emit_str (dec_int (char_value sc c) @ '','') w; emit_bytes sc s w }"

definition frame_head :: "int \<Rightarrow> string" where
  "frame_head cmd_merge = ''{'' @ [QUOTE] @ ''cmdCode'' @ [QUOTE] @ '':'' @ dec_int 1 @ '','' @ [QUOTE] @ ''cmdMerge''
     @ [QUOTE] @ '':'' @ dec_int cmd_merge @ '','' @ [QUOTE] @ ''data'' @ [QUOTE] @ '':[''"

text \<open>The closing brackets are written over the last character.\<close>

definition ws_format_uplink_data ::
  "bool \<Rightarrow> nat option \<Rightarrow> string option \<Rightarrow> int \<Rightarrow> (int \<times> string) option" where
  "ws_format_uplink_data sc buf jdata cmd_merge =
     (case (buf, jdata) of
        (Some cap, Some s) \<Rightarrow> do {
          w \<leftarrow> emit_str (frame_head cmd_merge) (cap, []);
          w \<leftarrow> emit_bytes sc s w;
          w \<leftarrow> emit_str '']}'' (fst w, butlast (snd w));
          Some (0, snd w)
        }
      | _ \<Rightarrow> Some (- 1, []))"

subsection \<open>Packing and sending\<close>

definition lws_callback_on_writable :: "nat \<Rightarrow> ws_client \<Rightarrow> ws_client" where
  "lws_callback_on_writable wsi c = c\<lparr>writable := writable c @ [wsi]\<rparr>"

text \<open>
  \<open>ws_data_pack_and_send\<close> to record \<open>n\<close> (\<open>None\<close> for the null pointer), with the returned int, the
  cache, the heap and the client.
\<close>

type_synonym uplink = "int \<times> hw_cache_t option list option \<times> heap \<times> ws_client"

definition ws_data_pack_and_send ::
  "bool \<Rightarrow> hw_dev_kind_e \<Rightarrow> hw_info_t \<Rightarrow> hw_cache_t option list option \<Rightarrow> nat \<Rightarrow> nat option
     \<Rightarrow> heap \<Rightarrow> ws_client \<Rightarrow> uplink option" where
  "ws_data_pack_and_send sc kd hwd pData number wsd h c =
     (case wsd of None \<Rightarrow> Some (- 1, pData, h, c)
      | Some n \<Rightarrow> do {
          vhd \<leftarrow> nth_opt (ws_prot c) n;
          (if p_user vhd = None then Some (- 1, pData, h, c)
           else do {
             (b, ps, str, h) \<leftarrow> ws_format_hardware_data kd hwd pData number h;
             str \<leftarrow> str;
             s \<leftarrow> ld_str str h;
             (rc, dbuf) \<leftarrow> ws_format_uplink_data sc (Some (1024 * 100)) (Some s) CMD_MES_PARAM;
             u \<leftarrow> get_buf c (p_user vhd);
             u \<leftarrow> splice_opt u 0 (dbuf @ [NUL]);
             c \<leftarrow> put_buf c (p_user vhd) u;
             let c = (case wsi_multi vhd of None \<Rightarrow> c | Some w \<Rightarrow> lws_callback_on_writable w c);
             h \<leftarrow> c_free str h;
             Some (0, ps, h, c)
           })
        })"

text \<open>\<open>ws_param_monitor\<close> and \<open>ws_heartbeat\<close>: pushes the report when something was updated.\<close>

definition ws_param_monitor :: "bool \<Rightarrow> hardware \<Rightarrow> heap \<Rightarrow> ws_client \<Rightarrow> (hardware \<times> heap \<times> ws_client) option" where
  "ws_param_monitor sc hw h c = do {
     s \<leftarrow> hw_look_cache_status (Some (map Some (pCache hw))) (nChNum hw);
     (if s = 0 then do {
        (rc, ps, h, c) \<leftarrow> ws_data_pack_and_send sc (kind (hwInfo hw)) (hwInfo hw) (Some (map Some (pCache hw)))
                           (nChNum hw) (Some 0) h c;
        ps \<leftarrow> ps;
        Some (hw\<lparr>pCache := map the ps\<rparr>, h, c)
      } else Some (hw, h, c))
   }"

definition ws_heartbeat :: "bool \<Rightarrow> hardware \<Rightarrow> heap \<Rightarrow> ws_client \<Rightarrow> (hardware \<times> heap \<times> ws_client) option" where
  "ws_heartbeat sc hw h c = ws_param_monitor sc hw h c"

section \<open>The frame\<close>

text \<open>The frame is the unformatted rendering of this document.\<close>

definition frame_doc :: "bool \<Rightarrow> int \<Rightarrow> string \<Rightarrow> json" where
  "frame_doc sc m s = JObj [(''cmdCode'', JNum 1 (int_fl 1)), (''cmdMerge'', JNum m (int_fl m)),
     (''data'', JArr (map (\<lambda>c. JNum (char_value sc c) (int_fl (char_value sc c))) s))]"

text \<open>How the host takes the bytes out of a frame.\<close>

fun frame_bytes :: "json \<Rightarrow> string option" where
  "frame_bytes (JObj [a, b, (k, JArr js)]) =
     Some (map (\<lambda>j. case j of JNum i d \<Rightarrow> char_of_schar i | _ \<Rightarrow> NUL) js)"
| "frame_bytes _ = None"

lemma char_value_bounds: "- 128 \<le> char_value sc c" "char_value sc c < 256"
  using schar_bounds [of c] code_less [of c] by (auto simp: char_value_def)

lemma char_of_value [simp]: "char_of_schar (char_value sc c) = c"
proof (cases sc)
  case False
  then show ?thesis using code_less [of c] by (simp add: char_value_def char_of_schar_def nat_mod_distrib)
qed (simp add: char_value_def)

lemma frame_bytes_doc: "frame_bytes (frame_doc sc m s) = Some s"
  by (simp add: frame_doc_def comp_def)

lemma char_value_int: "INT_MIN \<le> char_value sc c" "char_value sc c \<le> INT_MAX"
  using char_value_bounds [of sc c] by (simp_all add: INT_MIN_def INT_MAX_def)

lemma frame_jok:
  assumes "INT_MIN \<le> m" "m \<le> INT_MAX"
  shows "jok (frame_doc sc m s)"
proof -
  have "joks (map (\<lambda>c. JNum (char_value sc c) (int_fl (char_value sc c))) s)" for s
    using char_value_int [of sc] by (induction s) simp_all
  moreover have "INT_MIN \<le> 1" "1 \<le> INT_MAX" by (simp_all add: INT_MIN_def INT_MAX_def)
  ultimately show ?thesis using assms by (simp add: frame_doc_def)
qed

lemma dec_int_short:
  assumes "- 128 \<le> i" "i < 256"
  shows "length (dec_int i) \<le> 4"
proof -
  have "length (dec (nat (- i))) \<le> 3" "length (dec (nat i)) \<le> 3"
    using assms by (auto intro!: dec_length_le)
  then show ?thesis by (auto simp: dec_int_def)
qed

lemma emit_bytes_text:
  "length out + 5 * length s < cap \<Longrightarrow>
     emit_bytes sc s (cap, out) = Some (cap, out @ concat (map (\<lambda>c. dec_int (char_value sc c) @ '','') s))"
proof (induction s arbitrary: out)
  case (Cons c s)
  have "length (dec_int (char_value sc c)) \<le> 4" by (rule dec_int_short) (rule char_value_bounds)+
  with Cons.prems have "emit_str (dec_int (char_value sc c) @ '','') (cap, out) = Some (cap, out @ dec_int (char_value sc c) @ '','')"
    "length (out @ dec_int (char_value sc c) @ '','') + 5 * length s < cap" by (simp_all add: emit_str_def)
  with Cons.IH show ?case by simp
qed simp

lemma number_text_byte: "snd (number_text (char_value sc c) (int_fl (char_value sc c))) = dec_int (char_value sc c)"
  by (simp add: number_text_int [OF char_value_int])

lemma pjs_bytes:
  "s \<noteq> [] \<Longrightarrow> pjs False d (map (\<lambda>c. JNum (char_value sc c) (int_fl (char_value sc c))) s)
    = butlast (concat (map (\<lambda>c. dec_int (char_value sc c) @ '','') s))"
proof (induction s)
  case (Cons c s)
  show ?case
  proof (cases s)
    case Nil
    with number_text_byte show ?thesis by (simp add: butlast_append)
  next
    case (Cons c' s')
    then have "concat (map (\<lambda>c. dec_int (char_value sc c) @ '','') s) \<noteq> []" by simp
    with Cons.IH number_text_byte Cons show ?thesis by (simp add: butlast_append)
  qed
qed simp

lemma length_dec_m: "INT_MIN \<le> m \<Longrightarrow> m \<le> INT_MAX \<Longrightarrow> length (dec_int m) \<le> 11"
proof -
  assume m: "INT_MIN \<le> m" "m \<le> INT_MAX"
  then have "length (dec (nat (- m))) \<le> 10" "length (dec (nat m)) \<le> 10"
    by (auto simp: INT_MIN_def INT_MAX_def intro!: dec_length_le)
  then show ?thesis by (auto simp: dec_int_def)
qed

lemma frame_text:
  assumes "s \<noteq> []" "INT_MIN \<le> m" "m \<le> INT_MAX"
  shows "pj False 0 (frame_doc sc m s)
    = butlast (frame_head m @ concat (map (\<lambda>c. dec_int (char_value sc c) @ '','') s)) @ '']}''"
proof -
  have ne: "concat (map (\<lambda>c. dec_int (char_value sc c) @ '','') s) \<noteq> []" using assms(1) by (cases s) simp_all
  have q: "quoted ''cmdCode'' = QUOTE # ''cmdCode'' @ [QUOTE]" "quoted ''cmdMerge'' = QUOTE # ''cmdMerge'' @ [QUOTE]"
    "quoted ''data'' = QUOTE # ''data'' @ [QUOTE]" by code_simp+
  have o: "INT_MIN \<le> 1" "1 \<le> INT_MAX" by (simp_all add: INT_MIN_def INT_MAX_def)
  show ?thesis
    using ne pjs_bytes [OF assms(1)]
    by (simp add: frame_doc_def member_text_def q number_text_int [OF o] number_text_int [OF assms(2,3)] frame_head_def butlast_append)
qed

lemma uplink_text:
  assumes "s \<noteq> []" "INT_MIN \<le> m" "m \<le> INT_MAX" "5 * length s + 60 \<le> cap"
  shows "ws_format_uplink_data sc (Some cap) (Some s) m = Some (0, pj False 0 (frame_doc sc m s))"
    "length (pj False 0 (frame_doc sc m s)) < cap"
proof -
  let ?b = "concat (map (\<lambda>c. dec_int (char_value sc c) @ '','') s)"
  have h: "length (frame_head m) \<le> 44" using length_dec_m [OF assms(2,3)] by (simp add: frame_head_def dec_int_def dec.simps)
  with assms(4) have e: "emit_str (frame_head m) (cap, []) = Some (cap, frame_head m)" by (simp add: emit_str_def)
  have b: "emit_bytes sc s (cap, frame_head m) = Some (cap, frame_head m @ ?b)"
    by (rule emit_bytes_text) (use h assms(4) in simp)
  have "length ?b \<le> 5 * length s"
  proof (induction s)
    case (Cons c s)
    moreover have "length (dec_int (char_value sc c)) \<le> 4" by (rule dec_int_short) (rule char_value_bounds)+
    ultimately show ?case by simp
  qed simp
  with h assms(4) have l: "length (butlast (frame_head m @ ?b)) + 2 < cap" by simp
  then show "ws_format_uplink_data sc (Some cap) (Some s) m = Some (0, pj False 0 (frame_doc sc m s))"
    by (simp add: ws_format_uplink_data_def e b emit_str_def frame_text [OF assms(1-3)])
  show "length (pj False 0 (frame_doc sc m s)) < cap" using l by (simp add: frame_text [OF assms(1-3)])
qed

text \<open>An empty text is not wrapped: the bracket of the empty array is overwritten.\<close>

lemma uplink_empty: "ws_format_uplink_data sc (Some 100) (Some []) 1
    = Some (0, ''{'' @ [QUOTE] @ ''cmdCode'' @ [QUOTE] @ '':1,'' @ [QUOTE] @ ''cmdMerge'' @ [QUOTE] @ '':1,'' @ [QUOTE] @ ''data'' @ [QUOTE] @ '':]}'')"
  by code_simp



text \<open>The frame is a C string.\<close>

lemma frame_no_NUL:
  assumes "s \<noteq> []" "INT_MIN \<le> m" "m \<le> INT_MAX"
  shows "NUL \<notin> set (pj False 0 (frame_doc sc m s))"
  using dec_int_no_NUL unfolding frame_text [OF assms]
  by (auto simp: frame_head_def dest!: in_set_butlastD split: if_splits)

text \<open>A connection whose buffer is allocated.\<close>

definition ready :: "ws_client \<Rightarrow> nat \<Rightarrow> nat \<Rightarrow> bool" where
  "ready c b w \<longleftrightarrow> (\<exists>vhd rest. ws_prot c = vhd # rest \<and> p_user vhd = Some b \<and> wsi_multi vhd = Some w)
     \<and> b < length (bufs c) \<and> length (bufs c ! b) = LWS_PRE + WS_TX_MAX_LEN"

lemma pack_and_send_ok:
  assumes "list_all cache_texts cs" "info_texts i" "heap_ok h" "roomy h" "ready c b w"
    and "5 * length (pj True 0 (report_doc kd i cs)) + 60 \<le> 1024 * 100"
  shows "\<exists>h' c'. ws_data_pack_and_send sc kd i (Some (map Some cs)) (length cs) (Some 0) h c
      = Some (0, Some (map (Some \<circ> mark_used) cs), h', c')
    \<and> mem h' = mem h \<and> heap_ok h' \<and> roomy h' \<and> writable c' = writable c @ [w] \<and> ws_prot c' = ws_prot c
    \<and> get_buf c' (Some b) \<bind> c_str = Some (pj False 0 (frame_doc sc CMD_MES_PARAM (pj True 0 (report_doc kd i cs))))"
proof -
  let ?s = "pj True 0 (report_doc kd i cs)"
  let ?f = "pj False 0 (frame_doc sc CMD_MES_PARAM ?s)"
  have m: "INT_MIN \<le> CMD_MES_PARAM" "CMD_MES_PARAM \<le> INT_MAX" by (simp_all add: CMD_MES_PARAM_def INT_MIN_def INT_MAX_def)
  have ne: "?s \<noteq> []" by (simp add: report_doc_def)
  note f = uplink_text [OF ne m assms(6), of sc] and z = frame_no_NUL [OF ne m, of sc]
  from report_runs [OF assms(3,4,2,1), of kd] obtain r h1 where
    r: "ws_format_hardware_data kd i (Some (map Some cs)) (length cs) h = Some (True, Some (map (Some \<circ> mark_used) cs), Some r, h1)"
      "r \<noteq> 0" "mem h1 = (mem h)(r \<mapsto> Buf ?s)" "mem h r = None" "heap_ok h1" "roomy h1" by blast
  from assms(5) obtain vhd rest where v: "ws_prot c = vhd # rest" "p_user vhd = Some b" "wsi_multi vhd = Some w"
    "b < length (bufs c)" "length (bufs c ! b) = LWS_PRE + WS_TX_MAX_LEN" by (auto simp: ready_def)
  have fit: "length ?f < LWS_PRE + WS_TX_MAX_LEN" using f(2) by (simp add: LWS_PRE_def WS_TX_MAX_LEN_def)
  then have u: "splice_opt (bufs c ! b) 0 (?f @ [NUL]) = Some (?f @ NUL # drop (Suc (length ?f)) (bufs c ! b))"
    using v(5) by (simp add: splice_opt_def)
  let ?h = "h1\<lparr>mem := (mem h1)(r := None)\<rparr>"
  have fr: "c_free r h1 = Some ?h" by (rule c_free_live) (use r in simp_all)
  have "mem ?h = mem h" using r(3,4) by auto
  moreover have "heap_ok ?h" "roomy ?h" using r(5,6) by (auto simp: heap_ok_def)
  ultimately show ?thesis
    using r(1,3) v f(1) u fr c_str_append [OF z]
    by (simp add: ws_data_pack_and_send_def get_buf_def put_buf_def ld_str_def lws_callback_on_writable_def)
qed

lemma look_updated: "hw_look_cache_status (Some (map Some cs)) (length cs) = Some (if \<exists>p\<in>set cs. updated p then 0 else 1)"
  using look_loop_spec [of cs] by (simp add: hw_look_cache_status_def updated_def)

lemma heartbeat_reports_updates_raw:
  assumes "hw_wf hw" "list_all cache_texts (pCache hw)" "info_texts (hwInfo hw)" "heap_ok h" "roomy h" "ready c b w"
    and "5 * length (pj True 0 (report_doc (kind (hwInfo hw)) (hwInfo hw) (pCache hw))) + 60 \<le> 1024 * 100"
  shows "if \<exists>p\<in>set (pCache hw). updated p
    then \<exists>h' c' f. ws_heartbeat sc hw h c = Some (hw\<lparr>pCache := map mark_used (pCache hw)\<rparr>, h', c')
      \<and> mem h' = mem h \<and> writable c' = writable c @ [w] \<and> get_buf c' (Some b) \<bind> c_str = Some (pj False 0 f)
      \<and> frame_bytes f = Some (pj True 0 (report_doc (kind (hwInfo hw)) (hwInfo hw) (pCache hw)))
      \<and> hw_look_cache_status (Some (map Some (map mark_used (pCache hw)))) (nChNum hw) = Some 1
    else ws_heartbeat sc hw h c = Some (hw, h, c)"
proof -
  let ?cs = "pCache hw"
  have n: "nChNum hw = length ?cs" using assms(1) by (simp add: hw_wf_def)
  have "\<not> (\<exists>p\<in>set (map mark_used ?cs). updated p)" by (auto simp: mark_used_def updated_def)
  then have used: "hw_look_cache_status (Some (map Some (map mark_used ?cs))) (nChNum hw) = Some 1"
    using look_updated [of "map mark_used ?cs"] n by (simp del: map_map)
  show ?thesis
  proof (cases "\<exists>p\<in>set ?cs. updated p")
    case True
    from pack_and_send_ok [OF assms(2-6) assms(7)] obtain h' c' where
      "ws_data_pack_and_send sc (kind (hwInfo hw)) (hwInfo hw) (Some (map Some ?cs)) (length ?cs) (Some 0) h c
        = Some (0, Some (map (Some \<circ> mark_used) ?cs), h', c')" "mem h' = mem h" "writable c' = writable c @ [w]"
      "get_buf c' (Some b) \<bind> c_str = Some (pj False 0 (frame_doc sc CMD_MES_PARAM (pj True 0 (report_doc (kind (hwInfo hw)) (hwInfo hw) ?cs))))"
      by blast
    with True used frame_bytes_doc look_updated [of ?cs] show ?thesis
      by (simp add: ws_heartbeat_def ws_param_monitor_def n comp_def) blast
  next
    case False
    with look_updated [of ?cs] show ?thesis by (simp add: ws_heartbeat_def ws_param_monitor_def n)
  qed
qed

text \<open>C28: The heartbeat of the uplink reports every update once: if some parameter is marked updated, the
  user buffer then holds a frame whose bytes are the printed report of exactly the updated
  parameters, the library is asked to write it, the parameters are marked used so that nothing is
  pending any more, and the heap is as before; if none is marked nothing happens at all.\<close>

theorem heartbeat_reports_updates:
  assumes "hw_wf hw" "list_all cache_texts (pCache hw)" "info_texts (hwInfo hw)" "heap_ok h" "roomy h" "ready c b w"
    and "5 * length (pj True 0 (report_doc (kind (hwInfo hw)) (hwInfo hw) (pCache hw))) + 60 \<le> 1024 * 100"
  shows "if \<exists>p\<in>set (pCache hw). updated p
    then \<exists>h' c' f. ws_heartbeat sc hw h c = Some (hw\<lparr>pCache := map mark_used (pCache hw)\<rparr>, h', c')
      \<and> mem h' = mem h \<and> writable c' = writable c @ [w] \<and> get_buf c' (Some b) \<bind> c_str = Some (pj False 0 f)
      \<and> frame_bytes f = Some (pj True 0 (report_doc (kind (hwInfo hw)) (hwInfo hw) (pCache hw)))
      \<and> hw_look_cache_status (Some (map Some (map mark_used (pCache hw)))) (nChNum hw) = Some 1
    else ws_heartbeat sc hw h c = Some (hw, h, c)"
  by (rule heartbeat_reports_updates_raw [OF assms])

text \<open>One connected record with its buffer.\<close>

definition conn0 :: ws_sub_protocol_t where
  "conn0 = \<lparr>conn_info = Some 0, wsi_multi = Some 7, rl_multi = 0, prot_name = Some ''test_callback'', p_user = Some 0,
     user_len = 0, pthread_spam = 1, lock_ring = False, ring = None, counter = 0, pthread_state = PTHREAD_RUN, established = True, user_state = USER_NULL\<rparr>"

definition client0 :: ws_client where
  "client0 = \<lparr>ws_prot = [conn0, conn0, conn0], bufs = [replicate (LWS_PRE + WS_TX_MAX_LEN) NUL],
     infos = [], threads = [(0, Top)], connects = [], writable = [], flow = [], sent = [], received = []\<rparr>"

lemma client0_ready: "ready client0 0 7"
  by (simp add: ready_def client0_def conn0_def)

text \<open>A parameter that was just mounted and whose first reading is not a number.\<close>

definition cache1 :: hw_cache_t where "cache1 = zero_cache\<lparr>gpio_io := 1, val := NaN\<rparr>"

lemma cache1_sel: "kks cache1 = replicate 64 NUL" "p_ref cache1 = replicate 128 NUL" "param_time cache1 = replicate 64 NUL"
  "val_type cache1 = HW_TYPE_CUR" "val cache1 = NaN" "status cache1 = HW_DATA_UPTARE"
  by (simp_all add: cache1_def zero_cache_def)

lemma cache1_ok: "cache_texts cache1" "updated cache1"
  by (simp_all add: cache_texts_def cache1_sel is_float_def updated_def) (simp add: cache1_def cache_wf_def zero_cache_def)

lemma cache1_report: "report_doc HW_KIND_CUR info0 [cache1] = JObj [(''json'', JObj [(''name'', JStr []), (''id'', JStr []),
  (''terminal'', JStr ''CUR''), (''mtype'', JStr ''MSGE''), (''t'', JStr []), (''params'', JArr [JObj [(''kks'', JStr []),
  (''ref'', JStr []), (''vtype'', JStr [CHR 0xE7, CHR 0x94, CHR 0xB5, CHR 0xE6, CHR 0xB5, CHR 0x81]),
  (''val'', JStr ''nan-A''), (''t'', JStr [])]])])]"
proof -
  have d: "get_hw_name_by_type HW_TYPE_CUR = [CHR 0xE7, CHR 0x94, CHR 0xB5, CHR 0xE6, CHR 0xB5, CHR 0x81]"
    "get_hw_unit_by_type HW_TYPE_CUR = ''A''"
    by (simp_all add: get_hw_name_by_type_def get_hw_unit_by_type_def hw_vtype_values_def vtype_def)
  have i: "tk (i_kind info0) = ''CUR''" by (simp add: info0_def tk_def)
  have "param_doc HW_KIND_CUR cache1 = JObj [(''kks'', JStr []), (''ref'', JStr []),
      (''vtype'', JStr [CHR 0xE7, CHR 0x94, CHR 0xB5, CHR 0xE6, CHR 0xB5, CHR 0x81]), (''val'', JStr ''nan-A''), (''t'', JStr [])]"
    unfolding param_doc_def value_of_def cache1_sel d by (simp add: tk_def)
  then show ?thesis unfolding report_doc_def i using cache1_ok(2) by (simp add: info0_def tk_def)
qed

lemma cache1_report_short: "length (pj True 0 (report_doc HW_KIND_CUR info0 [cache1])) \<le> 1000"
  unfolding cache1_report by code_simp

theorem heartbeat_reports_updates_witness:
  "\<exists>h' c' f. ws_heartbeat True (hw0\<lparr>pCache := [cache1]\<rparr>) heap0 client0
      = Some (hw0\<lparr>pCache := [mark_used cache1]\<rparr>, h', c')
    \<and> mem h' = mem heap0 \<and> writable c' = [7] \<and> get_buf c' (Some 0) \<bind> c_str = Some (pj False 0 f)"
proof -
  let ?hw = "hw0\<lparr>pCache := [cache1]\<rparr>"
  have wf: "hw_wf ?hw" using sample0(1) cache1_ok(1) by (simp add: hw_wf_def hw0_def cache_texts_def)
  have len: "5 * length (pj True 0 (report_doc (kind (hwInfo ?hw)) (hwInfo ?hw) (pCache ?hw))) + 60 \<le> 1024 * 100"
  proof -
    have "kind info0 = HW_KIND_CUR" by (simp add: info0_def)
    with cache1_report_short show ?thesis by (simp add: hw0_def del: pj.simps)
  qed
  from heartbeat_reports_updates [OF wf _ _ heap0_ok heap0_room client0_ready len, of True] cache1_ok info0_texts show ?thesis
    by (auto simp: hw0_def client0_def)
qed

end
