(* ===== verification/WsClient.thy ===== *)
theory WsClient
  imports WsUplink
begin

text \<open>
  The websocket client, \<open>websocket/source/ws_test_client.c\<close>, \<open>ws_test_rtx.c\<close> and
  \<open>usr_main/source/srv_channel_init.cpp\<close>: the protocol callbacks, the registration of the protocol, the
  business thread, and the service loop.  Three threads share the connection record without much
  locking: the service thread that runs the callbacks, the business thread of the record, and the main
  thread with its heartbeat.  Their interleavings are the steps of an inductive relation.  Log output is
  left out except for the message the business thread reports and the lines of the two stub callbacks.
\<close>

section \<open>The code\<close>

subsection \<open>The library and the threads\<close>

text \<open>The reasons for which the library calls back; the ones no callback looks at are one constructor.\<close>

datatype lws_callback_reasons =
    LWS_CALLBACK_PROTOCOL_INIT
  | LWS_CALLBACK_FILTER_PROTOCOL_CONNECTION
  | LWS_CALLBACK_CLIENT_ESTABLISHED
  | LWS_CALLBACK_CLIENT_RECEIVE
  | LWS_CALLBACK_CLIENT_WRITEABLE
  | LWS_CALLBACK_CLIENT_CONNECTION_ERROR
  | LWS_CALLBACK_CLIENT_CLOSED
  | LWS_CALLBACK_CLOSED
  | LWS_CALLBACK_OTHER

definition put_prot :: "ws_client \<Rightarrow> nat \<Rightarrow> ws_sub_protocol_t \<Rightarrow> ws_client option" where
  "put_prot c n vhd = map_option (\<lambda>ps. c\<lparr>ws_prot := ps\<rparr>) (upd_opt (ws_prot c) n vhd)"

text \<open>
  The connect call stores the new connection early where \<open>pwsi\<close> points to; which connection that is, or
  none, is the library's answer.
\<close>

definition lws_client_connect_via_info :: "nat option \<Rightarrow> lws_client_connect_info \<Rightarrow> ws_client \<Rightarrow> ws_client option" where
  "lws_client_connect_via_info wsi i c =
     (let c = c\<lparr>connects := connects c @ [i]\<rparr>
      in case ci_pwsi i of None \<Rightarrow> Some c
         | Some n \<Rightarrow> do { vhd \<leftarrow> nth_opt (ws_prot c) n; put_prot c n (vhd\<lparr>wsi_multi := wsi\<rparr>) })"

text \<open>\<open>pthread_mutex_lock\<close> by a thread that holds the lock already never returns.\<close>

definition mutex_lock :: "ws_sub_protocol_t \<Rightarrow> ws_sub_protocol_t option" where
  "mutex_lock vhd = (if lock_ring vhd then None else Some (vhd\<lparr>lock_ring := True\<rparr>))"

definition mutex_unlock :: "ws_sub_protocol_t \<Rightarrow> ws_sub_protocol_t" where
  "mutex_unlock vhd = vhd\<lparr>lock_ring := False\<rparr>"

text \<open>A join is possible once on a handle that a create gave out.\<close>

definition joinable :: "ws_client \<Rightarrow> nat \<Rightarrow> nat option" where
  "joinable c tid = (case tid of 0 \<Rightarrow> None
     | Suc t \<Rightarrow> do { th \<leftarrow> nth_opt (threads c) t; (if snd th = Joined then None else Some t) })"

subsection \<open>Sending\<close>

text \<open>
  \<open>_ws_send_msg\<close>: the message is copied behind the reserve of a zeroed array on the stack, logged as
  a string and handed to the library, whose answer is \<open>rlen\<close>.
\<close>

definition ws_send_msg :: "string option \<Rightarrow> nat \<Rightarrow> int \<Rightarrow> ws_client \<Rightarrow> (int \<times> ws_client) option" where
  "ws_send_msg msg n rlen c =
     (case msg of None \<Rightarrow> Some (- 1, c)
      | Some m \<Rightarrow> do {
          guard (n \<le> length m);
          sbuf \<leftarrow> splice_opt (replicate (LWS_PRE + WS_TX_MAX_LEN) NUL) LWS_PRE (take n m);
          logged \<leftarrow> c_str (drop LWS_PRE sbuf);
          Some (rlen, c\<lparr>sent := sent c @ [take n m]\<rparr>)
        })"

text \<open>The own copy of \<open>ratelimit_connects\<close> in this file.\<close>

definition ws_ratelimit_connects :: "64 word \<Rightarrow> 32 word \<Rightarrow> 32 word \<Rightarrow> int \<times> 32 word" where
  "ws_ratelimit_connects tv_sec lst secs =
     (if tv_sec - (ucast lst :: 64 word) < (ucast secs :: 64 word) then (0, lst) else (1, ucast tv_sec))"

subsection \<open>The callbacks\<close>

text \<open>A callback returns, or waits for a thread to end and then returns 0.\<close>

datatype callback_end = Returned int | Joining nat

text \<open>
  \<open>protocol_test_callback\<close> with the user buffer, the received bytes and the answer of the library to
  the write.  The number of bytes written is compared to the length as an unsigned 64 bit number.
\<close>

definition protocol_test_callback ::
  "lws_callback_reasons \<Rightarrow> nat option \<Rightarrow> string \<Rightarrow> int \<Rightarrow> ws_client \<Rightarrow> (callback_end \<times> ws_client) option" where
  "protocol_test_callback reason user inp rlen c = do {
     vhd \<leftarrow> nth_opt (ws_prot c) 0;
     (case reason of
        LWS_CALLBACK_PROTOCOL_INIT \<Rightarrow> do {
          c \<leftarrow> put_prot c 0 (vhd\<lparr>pthread_state := PTHREAD_INIT\<rparr>);
          Some (Returned 0, c) }
      | LWS_CALLBACK_FILTER_PROTOCOL_CONNECTION \<Rightarrow> Some (Returned 0, c)
      | LWS_CALLBACK_CLIENT_ESTABLISHED \<Rightarrow> do {
          c \<leftarrow> put_prot c 0 (vhd\<lparr>established := True\<rparr>);
          Some (Returned 0, c) }
      | LWS_CALLBACK_CLIENT_RECEIVE \<Rightarrow> do {
          vhd \<leftarrow> mutex_lock vhd;
          b \<leftarrow> get_buf c (p_user vhd);
          b \<leftarrow> splice_opt b 0 (replicate WS_TX_MAX_LEN NUL);
          c \<leftarrow> put_buf c (p_user vhd) b;
          b \<leftarrow> get_buf c user;
          b \<leftarrow> splice_opt b 0 inp;
          c \<leftarrow> put_buf c user b;
          c \<leftarrow> put_prot c 0 (mutex_unlock (vhd\<lparr>user_len := length inp, user_state := USER_RX\<rparr>));
          Some (Returned 0, c) }
      | LWS_CALLBACK_CLIENT_WRITEABLE \<Rightarrow> do {
          vhd \<leftarrow> mutex_lock vhd;
          b \<leftarrow> get_buf c user;
          s \<leftarrow> c_str b;
          (rtn, c) \<leftarrow> ws_send_msg (Some b) (length s) rlen c;
          c \<leftarrow> put_prot c 0 (mutex_unlock vhd);
          Some (Returned (if nat (rtn mod 2 ^ 64) < length s then - 1 else 0), c) }
      | LWS_CALLBACK_CLOSED \<Rightarrow> Some (Returned 0, c)
      | LWS_CALLBACK_OTHER \<Rightarrow> Some (Returned 0, c)
      | _ \<Rightarrow> do {
          c \<leftarrow> put_prot c 0 (vhd\<lparr>wsi_multi := None, established := False, pthread_state := PTHREAD_FILISH\<rparr>);
          t \<leftarrow> joinable c (pthread_spam vhd);
          Some (Joining t, c) })
   }"

definition connection_lost :: string where
  "connection_lost = ''2   '' @ [CHR 0xE8, CHR 0xBF, CHR 0x9E, CHR 0xE6, CHR 0x8E, CHR 0xA5, CHR 0xE5, CHR 0xA4, CHR 0xB1, CHR 0xE8, CHR 0xB4, CHR 0xA5,
     CHR 0xE6, CHR 0x88, CHR 0x96, CHR 0xE8, CHR 0x80, CHR 0x85, CHR 0xE4, CHR 0xB8, CHR 0xAD, CHR 0xE6, CHR 0x96, CHR 0xAD] @ ''   ''"

text \<open>The two stub callbacks only log; the result is the returned int and the lines.\<close>

definition callback2 :: "lws_callback_reasons \<Rightarrow> string \<Rightarrow> int \<times> string list" where
  "callback2 reason inp =
     (case reason of
        LWS_CALLBACK_CLIENT_ESTABLISHED \<Rightarrow> (0, [''Connected to server ok! ''])
      | LWS_CALLBACK_CLIENT_RECEIVE \<Rightarrow> (0, [''Rx: '' @ inp @ '' ''])
      | LWS_CALLBACK_CLOSED \<Rightarrow> (0, [connection_lost])
      | LWS_CALLBACK_CLIENT_CONNECTION_ERROR \<Rightarrow> (0, [connection_lost])
      | _ \<Rightarrow> (0, []))"

definition srv_callback :: "lws_callback_reasons \<Rightarrow> string \<Rightarrow> int \<times> string list" where
  "srv_callback reason inp =
     (case reason of
        LWS_CALLBACK_CLIENT_ESTABLISHED \<Rightarrow> (0, [''Connected to server ok! ''])
      | LWS_CALLBACK_CLIENT_RECEIVE \<Rightarrow> (0, [''Rx: '' @ inp @ '' ''])
      | _ \<Rightarrow> (0, []))"

text \<open>The table of protocols.  \<open>sizeof (struct session_data)\<close> is 4 + 16 + 10 * 1024 + 4.\<close>

datatype callback_name = Protocol_test_callback | Callback2 | Srv_callback

record lws_protocols =
  pr_name :: string
  pr_callback :: callback_name
  pr_per_session_data_size :: nat
  pr_rx_buffer_size :: nat

definition MAX_PAYLOAD_SIZE :: nat where "MAX_PAYLOAD_SIZE = 10 * 1024"

definition protocols :: "lws_protocols list" where
  "protocols =
     [\<lparr>pr_name = ''test_callback'', pr_callback = Protocol_test_callback,
       pr_per_session_data_size = 4 + (LWS_PRE + MAX_PAYLOAD_SIZE) + 4, pr_rx_buffer_size = 4096\<rparr>,
      \<lparr>pr_name = ''lws-mirror-protocol'', pr_callback = Callback2, pr_per_session_data_size = 128, pr_rx_buffer_size = 0\<rparr>,
      \<lparr>pr_name = ''lws-test-raw-client'', pr_callback = Srv_callback, pr_per_session_data_size = 0, pr_rx_buffer_size = 0\<rparr>]"

subsection \<open>Registration and threads\<close>

text \<open>
  \<open>ws_prot_regist\<close>: \<open>junk\<close> is the memory \<open>malloc\<close> gives for the user buffer, \<open>conn\<close> the connection the
  library opens; \<open>p_wsi\<close> says that the pointer to the records is not null.
\<close>

definition new_user :: "string option \<Rightarrow> ws_client \<Rightarrow> nat option \<times> ws_client" where
  "new_user junk c = (case junk of None \<Rightarrow> (None, c) | Some u \<Rightarrow> (Some (length (bufs c)), c\<lparr>bufs := bufs c @ [u]\<rparr>))"

definition regist_slot :: "string option \<Rightarrow> nat option \<Rightarrow> nat option \<Rightarrow> nat \<Rightarrow> ws_client \<Rightarrow> ws_client option" where
  "regist_slot junk conn i n c = do {
     vhd \<leftarrow> nth_opt (ws_prot c) n;
     (if wsi_multi vhd \<noteq> None then Some c
      else do {
        row \<leftarrow> nth_opt protocols n;
        let (user, c) = new_user junk c;
        k \<leftarrow> i;
        info \<leftarrow> nth_opt (infos c) k;
        let info = info\<lparr>ci_protocol := Some (pr_name row), ci_pwsi := Some n, ci_userdata := user\<rparr>;
        c \<leftarrow> put_prot (c\<lparr>infos := (infos c)[k := info]\<rparr>) n
               (vhd\<lparr>prot_name := Some (pr_name row), p_user := user, conn_info := i\<rparr>);
        lws_client_connect_via_info conn info c
      })
   }"

definition ws_prot_regist :: "string option \<Rightarrow> nat option \<Rightarrow> bool \<Rightarrow> nat option \<Rightarrow> ws_client \<Rightarrow> (int \<times> ws_client) option" where
  "ws_prot_regist junk conn p_wsi i c =
     (if i = None \<and> \<not> p_wsi then Some (- 1, c)
      else do {
        guard p_wsi;
        c \<leftarrow> for_up (min WS_SUB_PROTOCOL_NUM 1) 0 (regist_slot junk conn i) c;
        Some (0, c)
      })"

text \<open>
  \<open>ws_prot_pthread_create\<close>: \<open>ok n\<close> says whether the system can create the thread of record \<open>n\<close>.  After
  a failure the handle is indeterminate, and the join on it undefined.
\<close>

definition create_slot :: "(nat \<Rightarrow> bool) \<Rightarrow> nat \<Rightarrow> ws_client \<Rightarrow> ws_client option" where
  "create_slot ok n c = do {
     vhd \<leftarrow> nth_opt (ws_prot c) n;
     (if wsi_multi vhd = None then Some c
      else if ok n
      then put_prot (c\<lparr>threads := threads c @ [(n, Created)]\<rparr>) n
             (vhd\<lparr>lock_ring := False, pthread_spam := Suc (length (threads c))\<rparr>)
      else None)
   }"

definition ws_prot_pthread_create :: "(nat \<Rightarrow> bool) \<Rightarrow> bool \<Rightarrow> ws_client \<Rightarrow> (int \<times> ws_client) option" where
  "ws_prot_pthread_create ok p_wsi c =
     (if \<not> p_wsi then Some (- 1, c)
      else do { c \<leftarrow> for_up WS_SUB_PROTOCOL_NUM 0 (create_slot ok) c; Some (0, c) })"

definition monitor_slot ::
  "64 word \<Rightarrow> string option \<Rightarrow> nat option \<Rightarrow> (nat \<Rightarrow> bool) \<Rightarrow> nat \<Rightarrow> ws_client \<Rightarrow> ws_client option" where
  "monitor_slot now junk conn ok n c = do {
     vhd \<leftarrow> nth_opt (ws_prot c) n;
     (if wsi_multi vhd \<noteq> None then Some c
      else do {
        let (admit, rl) = ws_ratelimit_connects now (rl_multi vhd) 5;
        c \<leftarrow> put_prot c n (vhd\<lparr>rl_multi := rl\<rparr>);
        (if admit = 0 then Some c
         else do {
           (r, c) \<leftarrow> ws_prot_regist junk conn True (conn_info vhd) c;
           (r, c) \<leftarrow> ws_prot_pthread_create ok True c;
           Some c
         })
      })
   }"

definition ws_client_monitor ::
  "64 word \<Rightarrow> string option \<Rightarrow> nat option \<Rightarrow> (nat \<Rightarrow> bool) \<Rightarrow> bool \<Rightarrow> ws_client \<Rightarrow> (int \<times> ws_client) option" where
  "ws_client_monitor now junk conn ok p_wsi c =
     (if \<not> p_wsi then Some (- 1, c)
      else do { c \<leftarrow> for_up (min WS_SUB_PROTOCOL_NUM 1) 0 (monitor_slot now junk conn ok) c; Some (0, c) })"

subsection \<open>The business threads\<close>

definition set_pc :: "nat \<Rightarrow> thread_pc \<Rightarrow> ws_client \<Rightarrow> ws_client" where
  "set_pc t pc c = c\<lparr>threads := (threads c)[t := (fst (threads c ! t), pc)]\<rparr>"

text \<open>
  \<open>test_callbake_msgHandle\<close> from one access to the shared record to the next: the start, the test of
  the connection and the report of a message, clearing the buffer, the state, releasing the flow
  control (on a connection that is not null), and the test of the loop.  The branch for sending is
  switched off in the source by \<open>&& 0\<close>.
\<close>

definition test_callbake_msgHandle :: "nat \<Rightarrow> ws_client \<Rightarrow> ws_client option" where
  "test_callbake_msgHandle t c = do {
     (n, pc) \<leftarrow> nth_opt (threads c) t;
     vhd \<leftarrow> nth_opt (ws_prot c) n;
     (case pc of
        Created \<Rightarrow> map_option (set_pc t Top) (put_prot c n (vhd\<lparr>pthread_state := PTHREAD_RUN\<rparr>))
      | Top \<Rightarrow>
          if \<not> established vhd \<or> wsi_multi vhd = None \<or> user_state vhd \<noteq> USER_RX then Some (set_pc t Test c)
          else do {
            b \<leftarrow> get_buf c (p_user vhd);
            s \<leftarrow> c_str b;
            Some (set_pc t Logged (c\<lparr>received := received c @ [(user_len vhd, s)]\<rparr>))
          }
      | Logged \<Rightarrow> do {
          b \<leftarrow> get_buf c (p_user vhd);
          b \<leftarrow> splice_opt b 0 (replicate WS_TX_MAX_LEN NUL);
          map_option (set_pc t Cleared) (put_buf c (p_user vhd) b)
        }
      | Cleared \<Rightarrow> map_option (set_pc t Flow) (put_prot c n (vhd\<lparr>user_state := USER_NULL\<rparr>))
      | Flow \<Rightarrow> do { w \<leftarrow> wsi_multi vhd; Some (set_pc t Test (c\<lparr>flow := flow c @ [w]\<rparr>)) }
      | Test \<Rightarrow> Some (set_pc t (if pthread_state vhd \<noteq> PTHREAD_FILISH then Top else Exited) c)
      | _ \<Rightarrow> None)
   }"

text \<open>One round of \<open>test_thread\<close>, whose creation is commented out in the source.\<close>

definition test_thread :: "nat \<Rightarrow> ws_client \<Rightarrow> (bool \<times> ws_client) option" where
  "test_thread n c = do {
     vhd \<leftarrow> nth_opt (ws_prot c) n;
     nm \<leftarrow> prot_name vhd;
     b \<leftarrow> get_buf c (p_user vhd);
     b \<leftarrow> splice_opt b 0 (''Test rubbish data from '' @ nm @ [NUL]);
     c \<leftarrow> put_buf c (p_user vhd) b;
     w \<leftarrow> wsi_multi vhd;
     let c = lws_callback_on_writable w (lws_callback_on_writable w c);
     Some (pthread_state vhd \<noteq> PTHREAD_FILISH, c)
   }"

subsection \<open>The service thread\<close>

text \<open>\<open>run_ws_client\<close> up to its loop: the library's context is the first argument.\<close>

definition client_setup :: "nat option \<Rightarrow> string option \<Rightarrow> nat option \<Rightarrow> (nat \<Rightarrow> bool) \<Rightarrow> ws_client \<Rightarrow> ws_client option" where
  "client_setup ctx junk conn ok c = do {
     let address = ''172.17.68.125'';
     let port = 10100;
     w \<leftarrow> emit_str (address @ '':'' @ dec (port mod 65536)) (256, []);
     let info = \<lparr>ci_context = ctx, ci_address = address, ci_port = port, ci_ssl_connection = 0, ci_path = ''websocket'',
       ci_host = snd w, ci_origin = snd w, ci_protocol = None, ci_pwsi = None, ci_userdata = None\<rparr>;
     (r, c) \<leftarrow> ws_prot_regist junk conn True (Some (length (infos c))) (c\<lparr>infos := infos c @ [info]\<rparr>);
     (r, c) \<leftarrow> ws_prot_pthread_create ok True c;
     Some c
   }"

text \<open>
  The running client: the shared state, where the service thread stands (at the test of its loop, in
  the library, waiting in a join, gone), and the signal flag.
\<close>

datatype service_pc = Polling | Serving | Waiting nat | Destroyed

record system =
  cl :: ws_client
  svc :: service_pc
  exit_sig :: bool

definition sighdl :: "system \<Rightarrow> system" where
  "sighdl s = s\<lparr>exit_sig := True\<rparr>"

text \<open>The static records are zero; \<open>start_channel_services\<close> starts the service thread and returns 0.\<close>

definition ws_zero :: ws_client where
  "ws_zero = \<lparr>ws_prot = replicate 3 \<lparr>conn_info = None, wsi_multi = None, rl_multi = 0, prot_name = None, p_user = None,
       user_len = 0, pthread_spam = 0, lock_ring = False, ring = None, counter = 0,
       pthread_state = PTHREAD_FILISH, established = False, user_state = USER_NULL\<rparr>,
     bufs = [], infos = [], threads = [], connects = [], writable = [], flow = [], sent = [], received = []\<rparr>"

definition start_channel_services :: "nat option \<Rightarrow> string option \<Rightarrow> nat option \<Rightarrow> (nat \<Rightarrow> bool) \<Rightarrow> (int \<times> system) option" where
  "start_channel_services ctx junk conn ok = do {
     c \<leftarrow> client_setup ctx junk conn ok ws_zero;
     Some (0, \<lparr>cl = c, svc = Polling, exit_sig = False\<rparr>)
   }"

text \<open>
  When the library may call back: what its documentation says.  Data arrive on an established
  connection in pieces of at most the size of the receive buffer of the protocol, a writable
  callback answers a request, and the error or the close of a connection comes once.
\<close>

definition lws_may_call :: "lws_callback_reasons \<Rightarrow> string \<Rightarrow> ws_client \<Rightarrow> bool" where
  "lws_may_call reason inp c =
     (let vhd = ws_prot c ! 0 in
      case reason of
        LWS_CALLBACK_CLIENT_ESTABLISHED \<Rightarrow> wsi_multi vhd \<noteq> None
      | LWS_CALLBACK_CLIENT_RECEIVE \<Rightarrow> wsi_multi vhd \<noteq> None \<and> established vhd \<and> length inp \<le> pr_rx_buffer_size (protocols ! 0)
      | LWS_CALLBACK_CLIENT_WRITEABLE \<Rightarrow> wsi_multi vhd \<in> Some ` set (writable c)
      | LWS_CALLBACK_CLIENT_CONNECTION_ERROR \<Rightarrow> wsi_multi vhd \<noteq> None
      | LWS_CALLBACK_CLIENT_CLOSED \<Rightarrow> wsi_multi vhd \<noteq> None
      | _ \<Rightarrow> True)"

text \<open>A writable callback answers the requests made before it.\<close>

definition answered :: "lws_callback_reasons \<Rightarrow> ws_client \<Rightarrow> ws_client" where
  "answered reason c = (if reason = LWS_CALLBACK_CLIENT_WRITEABLE then c\<lparr>writable := []\<rparr> else c)"

definition after_callback :: "callback_end \<Rightarrow> service_pc" where
  "after_callback e = (case e of Returned i \<Rightarrow> Serving | Joining t \<Rightarrow> Waiting t)"

text \<open>
  The steps: of the service thread (its loop, the callbacks, the end of a join), of a business thread,
  of the main thread with a heartbeat on any device, and the signal.
\<close>

datatype actor = Service | Thread nat | Main | Signal

inductive step :: "actor \<Rightarrow> system \<Rightarrow> system \<Rightarrow> bool" where
  serve: "svc s = Polling \<Longrightarrow> \<not> exit_sig s \<Longrightarrow> step Service s (s\<lparr>svc := Serving\<rparr>)"
| destroy: "svc s = Polling \<Longrightarrow> exit_sig s \<Longrightarrow> step Service s (s\<lparr>svc := Destroyed\<rparr>)"
| served: "svc s = Serving \<Longrightarrow> step Service s (s\<lparr>svc := Polling\<rparr>)"
| callback: "svc s = Serving \<Longrightarrow> lws_may_call reason inp (cl s) \<Longrightarrow>
    protocol_test_callback reason (p_user (ws_prot (cl s) ! 0)) inp rlen (answered reason (cl s)) = Some (e, c) \<Longrightarrow>
    step Service s (s\<lparr>cl := c, svc := after_callback e\<rparr>)"
| joined: "svc s = Waiting t \<Longrightarrow> t < length (threads (cl s)) \<Longrightarrow> snd (threads (cl s) ! t) = Exited \<Longrightarrow>
    step Service s (s\<lparr>cl := set_pc t Joined (cl s), svc := Serving\<rparr>)"
| business: "test_callbake_msgHandle t (cl s) = Some c \<Longrightarrow> step (Thread t) s (s\<lparr>cl := c\<rparr>)"
| heartbeat: "ws_heartbeat sc hw h (cl s) = Some (hw', h', c) \<Longrightarrow> step Main s (s\<lparr>cl := c\<rparr>)"
| signal: "step Signal s (sighdl s)"

inductive execution :: "system \<Rightarrow> actor list \<Rightarrow> system \<Rightarrow> bool" where
  exec_Nil: "execution s [] s"
| exec_Cons: "step a s s' \<Longrightarrow> execution s' as s'' \<Longrightarrow> execution s (a # as) s''"

inductive_cases step_ServiceE: "step Service s s'"
inductive_cases step_ThreadE: "step (Thread t) s s'"
inductive_cases step_MainE: "step Main s s'"
inductive_cases step_SignalE: "step Signal s s'"
inductive_simps execution_Nil [simp]: "execution s [] s'"
inductive_simps execution_Cons: "execution s (a # as) s'"

section \<open>Safety\<close>

text \<open>The user buffer holds a text that ends inside the part the client uses.\<close>

definition has_text :: "string \<Rightarrow> bool" where
  "has_text u \<longleftrightarrow> NUL \<in> set (take WS_TX_MAX_LEN u)"

lemma has_text_str:
  assumes "has_text u"
  shows "c_str u = Some (tk u)" "length (tk u) < WS_TX_MAX_LEN"
proof -
  from assms have n: "NUL \<in> set (take WS_TX_MAX_LEN u)" by (simp add: has_text_def)
  then have "NUL \<in> set u" by (rule in_set_takeD)
  then show "c_str u = Some (tk u)" by (rule c_str_tk)
  have "tk u = tk (take WS_TX_MAX_LEN u @ drop WS_TX_MAX_LEN u)" by simp
  also have "\<dots> = tk (take WS_TX_MAX_LEN u)" unfolding tk_def using n by (subst takeWhile_append1) auto
  finally show "length (tk u) < WS_TX_MAX_LEN" using length_tk_less [OF n] by simp
qed

lemma has_text_cleared: "0 < WS_TX_MAX_LEN \<Longrightarrow> has_text (replicate WS_TX_MAX_LEN NUL @ r)"
  by (simp add: has_text_def)

lemma has_text_received:
  assumes "length inp < WS_TX_MAX_LEN"
  shows "has_text (inp @ drop (length inp) (replicate WS_TX_MAX_LEN NUL @ r))"
proof -
  have "take WS_TX_MAX_LEN (inp @ drop (length inp) (replicate WS_TX_MAX_LEN NUL @ r))
      = inp @ replicate (WS_TX_MAX_LEN - length inp) NUL" using assms by simp
  with assms show ?thesis unfolding has_text_def by simp
qed

text \<open>
  The state of the client between steps: the records, the lock free, the user buffer of its full size
  and holding a text whenever someone is going to read it, the thread of the connection not joined.
\<close>

definition buf_ok :: "ws_client \<Rightarrow> nat \<Rightarrow> bool" where
  "buf_ok c b \<longleftrightarrow> b < length (bufs c) \<and> length (bufs c ! b) = LWS_PRE + WS_TX_MAX_LEN"

definition client_ok :: "ws_client \<Rightarrow> bool" where
  "client_ok c \<longleftrightarrow> (\<exists>vhd r1 r2 b. ws_prot c = [vhd, r1, r2] \<and> \<not> lock_ring vhd \<and> p_user vhd = Some b \<and> buf_ok c b
     \<and> (writable c \<noteq> [] \<or> user_state vhd = USER_RX \<longrightarrow> has_text (bufs c ! b))
     \<and> (wsi_multi vhd \<noteq> None \<longrightarrow> (\<exists>t. pthread_spam vhd = Suc t \<and> t < length (threads c) \<and> snd (threads c ! t) \<noteq> Joined)))
   \<and> (\<forall>th\<in>set (threads c). fst th = 0)"

definition sound :: "system \<Rightarrow> bool" where
  "sound s \<longleftrightarrow> client_ok (cl s) \<and> (\<forall>t. svc s = Waiting t \<longrightarrow>
     wsi_multi (ws_prot (cl s) ! 0) = None \<and> t < length (threads (cl s)) \<and> snd (threads (cl s) ! t) \<noteq> Joined)"

lemma client_okE:
  assumes "client_ok c"
  obtains vhd r1 r2 b where "ws_prot c = [vhd, r1, r2]" "\<not> lock_ring vhd" "p_user vhd = Some b"
    "b < length (bufs c)" "length (bufs c ! b) = LWS_PRE + WS_TX_MAX_LEN"
    "writable c \<noteq> [] \<or> user_state vhd = USER_RX \<longrightarrow> has_text (bufs c ! b)"
    "wsi_multi vhd \<noteq> None \<longrightarrow> (\<exists>t. pthread_spam vhd = Suc t \<and> t < length (threads c) \<and> snd (threads c ! t) \<noteq> Joined)"
    "\<forall>th\<in>set (threads c). fst th = 0"
  using assms unfolding client_ok_def buf_ok_def by blast

lemmas slot_simps = put_prot_def get_buf_def put_buf_def mutex_lock_def mutex_unlock_def

text \<open>One write of the text in the user buffer.\<close>

lemma send_text:
  assumes "has_text u" "length u = LWS_PRE + WS_TX_MAX_LEN"
  shows "ws_send_msg (Some u) (length (tk u)) rlen c = Some (rlen, c\<lparr>sent := sent c @ [tk u]\<rparr>)"
proof -
  let ?n = "length (tk u)"
  note t = has_text_str [OF assms(1)]
  have p: "take ?n u = tk u" unfolding tk_def by (rule takeWhile_eq_take [symmetric])
  have "splice_opt (replicate (LWS_PRE + WS_TX_MAX_LEN) NUL) LWS_PRE (take ?n u)
      = Some (replicate LWS_PRE NUL @ tk u @ replicate (WS_TX_MAX_LEN - ?n) NUL)"
    using t(2) p by (simp add: splice_opt_def)
  moreover obtain k where k: "WS_TX_MAX_LEN - ?n = Suc k" using t(2) by (metis Suc_diff_Suc)
  moreover have "NUL \<notin> set (tk u)" unfolding tk_def by (auto dest: set_takeWhileD)
  ultimately show ?thesis using t(2) assms(2) p by (simp add: ws_send_msg_def c_str_append)
qed

text \<open>What the two callbacks that use the buffer do.\<close>

lemma receive_runs:
  assumes "ws_prot c = vhd # r" "\<not> lock_ring vhd" "p_user vhd = Some b" "buf_ok c b" "length inp \<le> WS_TX_MAX_LEN"
  shows "protocol_test_callback LWS_CALLBACK_CLIENT_RECEIVE (Some b) inp rlen c = Some (Returned 0,
     c\<lparr>bufs := (bufs c)[b := inp @ drop (length inp) (replicate WS_TX_MAX_LEN NUL @ drop WS_TX_MAX_LEN (bufs c ! b))],
       ws_prot := vhd\<lparr>lock_ring := False, user_len := length inp, user_state := USER_RX\<rparr> # r\<rparr>)"
  using assms by (simp add: protocol_test_callback_def slot_simps splice_opt_def buf_ok_def)

lemma writeable_runs:
  assumes "ws_prot c = vhd # r" "\<not> lock_ring vhd" "buf_ok c b" "has_text (bufs c ! b)"
  shows "protocol_test_callback LWS_CALLBACK_CLIENT_WRITEABLE (Some b) inp rlen c
    = Some (Returned (if nat (rlen mod 2 ^ 64) < length (tk (bufs c ! b)) then - 1 else 0),
        c\<lparr>ws_prot := vhd\<lparr>lock_ring := False\<rparr> # r, sent := sent c @ [tk (bufs c ! b)]\<rparr>)"
  using assms has_text_str(1) [OF assms(4)] send_text [of "bufs c ! b" rlen c]
  by (simp add: protocol_test_callback_def slot_simps buf_ok_def)

lemma closed_runs:
  assumes "ws_prot c = vhd # r" "pthread_spam vhd = Suc t" "t < length (threads c)" "snd (threads c ! t) \<noteq> Joined"
    "reason = LWS_CALLBACK_CLIENT_CLOSED \<or> reason = LWS_CALLBACK_CLIENT_CONNECTION_ERROR"
  shows "protocol_test_callback reason user inp rlen c = Some (Joining t,
     c\<lparr>ws_prot := vhd\<lparr>wsi_multi := None, established := False, pthread_state := PTHREAD_FILISH\<rparr> # r\<rparr>)"
  using assms by (auto simp: protocol_test_callback_def slot_simps joinable_def)

lemma callback_preserves:
  assumes ok: "client_ok c" and may: "lws_may_call reason inp c"
  shows "\<exists>e c'. protocol_test_callback reason (p_user (ws_prot c ! 0)) inp rlen (answered reason c) = Some (e, c')
    \<and> client_ok c' \<and> (\<forall>t. e = Joining t \<longrightarrow> wsi_multi (ws_prot c' ! 0) = None \<and> pthread_state (ws_prot c' ! 0) = PTHREAD_FILISH
        \<and> threads c' = threads c \<and> t < length (threads c) \<and> snd (threads c ! t) \<noteq> Joined)"
proof -
  from ok obtain vhd r1 r2 b where c: "ws_prot c = [vhd, r1, r2]" "\<not> lock_ring vhd" "p_user vhd = Some b"
    "b < length (bufs c)" "length (bufs c ! b) = LWS_PRE + WS_TX_MAX_LEN"
    "writable c \<noteq> [] \<or> user_state vhd = USER_RX \<longrightarrow> has_text (bufs c ! b)"
    "wsi_multi vhd \<noteq> None \<longrightarrow> (\<exists>t. pthread_spam vhd = Suc t \<and> t < length (threads c) \<and> snd (threads c ! t) \<noteq> Joined)"
    "\<forall>th\<in>set (threads c). fst th = 0" by (rule client_okE)
  have b: "buf_ok c b" using c(4,5) by (simp add: buf_ok_def)
  show ?thesis
  proof (cases reason)
    case LWS_CALLBACK_CLIENT_RECEIVE
    have l: "length inp < WS_TX_MAX_LEN"
      using may by (simp add: LWS_CALLBACK_CLIENT_RECEIVE lws_may_call_def protocols_def WS_TX_MAX_LEN_def Let_def)
    with receive_runs [OF c(1-3) b, of inp rlen] c has_text_received [OF l] show ?thesis
      by (auto simp: LWS_CALLBACK_CLIENT_RECEIVE answered_def client_ok_def buf_ok_def)
  next
    case LWS_CALLBACK_CLIENT_WRITEABLE
    from may have "writable c \<noteq> []" by (auto simp: LWS_CALLBACK_CLIENT_WRITEABLE lws_may_call_def)
    with c(6) have "has_text (bufs c ! b)" by simp
    with writeable_runs [of "answered reason c" vhd "[r1, r2]" b inp rlen] c b show ?thesis
      by (auto simp: LWS_CALLBACK_CLIENT_WRITEABLE answered_def client_ok_def buf_ok_def)
  next
    case LWS_CALLBACK_CLIENT_CONNECTION_ERROR
    with may c(1,7) obtain t where t: "pthread_spam vhd = Suc t" "t < length (threads c)" "snd (threads c ! t) \<noteq> Joined"
      by (auto simp: lws_may_call_def)
    with closed_runs [OF c(1) t, of reason "p_user vhd" inp rlen] c b show ?thesis
      by (auto simp: LWS_CALLBACK_CLIENT_CONNECTION_ERROR answered_def client_ok_def buf_ok_def)
  next
    case LWS_CALLBACK_CLIENT_CLOSED
    with may c(1,7) obtain t where t: "pthread_spam vhd = Suc t" "t < length (threads c)" "snd (threads c ! t) \<noteq> Joined"
      by (auto simp: lws_may_call_def)
    with closed_runs [OF c(1) t, of reason "p_user vhd" inp rlen] c b show ?thesis
      by (auto simp: LWS_CALLBACK_CLIENT_CLOSED answered_def client_ok_def buf_ok_def)
  qed (use ok c in \<open>auto simp: protocol_test_callback_def slot_simps answered_def client_ok_def buf_ok_def\<close>)
qed

text \<open>The business thread.\<close>

lemma thread_preserves:
  assumes "client_ok c" "test_callbake_msgHandle t c = Some c'"
  shows "client_ok c'" "t < length (threads c)" "snd (threads c ! t) \<noteq> Exited" "snd (threads c ! t) \<noteq> Joined"
    "\<exists>pc. pc \<noteq> Joined \<and> threads c' = (threads c)[t := (0, pc)]"
    "wsi_multi (ws_prot c' ! 0) = wsi_multi (ws_prot c ! 0)"
proof -
  from assms(1) obtain vhd r1 r2 b where c: "ws_prot c = [vhd, r1, r2]" "\<not> lock_ring vhd" "p_user vhd = Some b"
    "b < length (bufs c)" "length (bufs c ! b) = LWS_PRE + WS_TX_MAX_LEN"
    "writable c \<noteq> [] \<or> user_state vhd = USER_RX \<longrightarrow> has_text (bufs c ! b)"
    "wsi_multi vhd \<noteq> None \<longrightarrow> (\<exists>t. pthread_spam vhd = Suc t \<and> t < length (threads c) \<and> snd (threads c ! t) \<noteq> Joined)"
    "\<forall>th\<in>set (threads c). fst th = 0" by (rule client_okE)
  from assms(2) show t: "t < length (threads c)"
    by (cases "t < length (threads c)") (simp_all add: test_callbake_msgHandle_def)
  obtain pc where th: "threads c ! t = (0, pc)" using bspec [OF c(8) nth_mem [OF t]] by (cases "threads c ! t") simp
  have run: "test_callbake_msgHandle t c = Some c'" by (rule assms(2))
  from run th t c(1) show "snd (threads c ! t) \<noteq> Exited" "snd (threads c ! t) \<noteq> Joined"
    by (auto simp: test_callbake_msgHandle_def)
  have keep: "client_ok c' \<and> (\<exists>pc. pc \<noteq> Joined \<and> threads c' = (threads c)[t := (0, pc)])
    \<and> wsi_multi (ws_prot c' ! 0) = wsi_multi (ws_prot c ! 0)"
  proof -
    have joined: "pthread_spam v = Suc u \<Longrightarrow> u < length (threads c) \<Longrightarrow> snd (threads c ! u) \<noteq> Joined \<Longrightarrow> pc' \<noteq> Joined
      \<Longrightarrow> \<exists>u. pthread_spam v = Suc u \<and> u < length (threads c) \<and> snd ((threads c)[t := (0, pc')] ! u) \<noteq> Joined" for v :: ws_sub_protocol_t and u pc'
      by (rule exI [of _ u]) (cases "u = t"; simp)
    have args: "th \<in> set ((threads c)[t := (0, pc')]) \<Longrightarrow> fst th = 0" for th pc'
      using c(8) set_update_subset_insert [of "threads c" t "(0, pc')"] by fastforce
    have "0 < WS_TX_MAX_LEN" by (simp add: WS_TX_MAX_LEN_def)
    note facts = run th t c(1-5) c(6,7) this
    show ?thesis
    proof (cases pc)
      case Created
      with facts show ?thesis using joined args
        by (auto simp: test_callbake_msgHandle_def slot_simps set_pc_def client_ok_def buf_ok_def)
    next
      case Top
      with facts show ?thesis using joined args
        by (auto simp: test_callbake_msgHandle_def slot_simps set_pc_def client_ok_def buf_ok_def bind_Some_iff split: if_splits)
    next
      case Logged
      with facts show ?thesis using joined args has_text_cleared
        by (auto simp: test_callbake_msgHandle_def slot_simps set_pc_def client_ok_def buf_ok_def splice_opt_def bind_Some_iff split: if_splits)
    next
      case Cleared
      with facts show ?thesis using joined args
        by (auto simp: test_callbake_msgHandle_def slot_simps set_pc_def client_ok_def buf_ok_def)
    next
      case Flow
      with facts show ?thesis using joined args
        by (auto simp: test_callbake_msgHandle_def slot_simps set_pc_def client_ok_def buf_ok_def bind_Some_iff)
    next
      case Test
      with facts show ?thesis using joined args
        by (auto simp: test_callbake_msgHandle_def slot_simps set_pc_def client_ok_def buf_ok_def)
    qed (use facts in \<open>auto simp: test_callbake_msgHandle_def\<close>)
  qed
  then show "client_ok c'" "\<exists>pc. pc \<noteq> Joined \<and> threads c' = (threads c)[t := (0, pc)]"
    "wsi_multi (ws_prot c' ! 0) = wsi_multi (ws_prot c ! 0)" by blast+
qed

text \<open>The heartbeat of the main thread.\<close>

lemma uplink_fits:
  assumes "ws_format_uplink_data sc (Some cap) (Some s) m = Some (r, f)"
  shows "length f < cap"
proof -
  from assms obtain w1 w2 where
    w: "emit_str (frame_head m) (cap, []) = Some w1" "emit_bytes sc s w1 = Some w2"
    "emit_str '']}'' (fst w2, butlast (snd w2)) = Some (fst w2, f)"
    by (auto simp: ws_format_uplink_data_def bind_Some_iff emit_str_def split: if_splits)
  have "emit_bytes sc s w = Some w' \<Longrightarrow> fst w' = fst w" for s w w'
    by (induction s arbitrary: w) (auto simp: emit_str_def bind_Some_iff split: if_splits)
  with w(1,2) have "fst w2 = cap" by (auto simp: emit_str_def split: if_splits)
  with w(3) show ?thesis by (auto simp: emit_str_def split: if_splits)
qed

lemma pack_preserves:
  assumes "ws_data_pack_and_send sc kd i pd n (Some 0) h c = Some (r, pd', h', c')" "client_ok c"
  shows "client_ok c' \<and> threads c' = threads c \<and> ws_prot c' = ws_prot c"
proof -
  from assms(2) obtain vhd r1 r2 b where c: "ws_prot c = [vhd, r1, r2]" "\<not> lock_ring vhd" "p_user vhd = Some b"
    "b < length (bufs c)" "length (bufs c ! b) = LWS_PRE + WS_TX_MAX_LEN"
    "writable c \<noteq> [] \<or> user_state vhd = USER_RX \<longrightarrow> has_text (bufs c ! b)"
    "wsi_multi vhd \<noteq> None \<longrightarrow> (\<exists>t. pthread_spam vhd = Suc t \<and> t < length (threads c) \<and> snd (threads c ! t) \<noteq> Joined)"
    "\<forall>th\<in>set (threads c). fst th = 0" by (rule client_okE)
  from assms(1) c(1,3,4) obtain s rc f u where
    f: "ws_format_uplink_data sc (Some (1024 * 100)) (Some s) CMD_MES_PARAM = Some (rc, f)"
    and u: "splice_opt (bufs c ! b) 0 (f @ [NUL]) = Some u"
    and c': "c' = (case wsi_multi vhd of None \<Rightarrow> c\<lparr>bufs := (bufs c)[b := u]\<rparr>
       | Some w \<Rightarrow> lws_callback_on_writable w (c\<lparr>bufs := (bufs c)[b := u]\<rparr>))"
    by (auto simp: ws_data_pack_and_send_def slot_simps bind_Some_iff Let_def)
  have "length f < WS_TX_MAX_LEN" using uplink_fits [OF f] by (simp add: WS_TX_MAX_LEN_def)
  then obtain k where "WS_TX_MAX_LEN - length f = Suc k" by (metis Suc_diff_Suc)
  then have "has_text u" using u by (auto simp: splice_opt_def has_text_def split: if_splits)
  moreover have "length u = LWS_PRE + WS_TX_MAX_LEN" using splice_opt_length [OF u] c(5) by simp
  ultimately show ?thesis using c unfolding c'
    by (auto simp: client_ok_def buf_ok_def lws_callback_on_writable_def split: option.split)
qed

lemma heartbeat_preserves:
  assumes "ws_heartbeat sc hw h c = Some (hw', h', c')" "client_ok c"
  shows "client_ok c' \<and> threads c' = threads c \<and> ws_prot c' = ws_prot c"
  using assms pack_preserves
  by (auto simp: ws_heartbeat_def ws_param_monitor_def bind_Some_iff split: if_splits)

text \<open>The start.\<close>

definition info1 :: "nat option \<Rightarrow> lws_client_connect_info" where
  "info1 ctx = \<lparr>ci_context = ctx, ci_address = ''172.17.68.125'', ci_port = 10100, ci_ssl_connection = 0, ci_path = ''websocket'',
     ci_host = ''172.17.68.125:10100'', ci_origin = ''172.17.68.125:10100'', ci_protocol = Some ''test_callback'',
     ci_pwsi = Some 0, ci_userdata = Some 0\<rparr>"

lemma host_text: "emit_str (''172.17.68.125'' @ '':'' @ dec (10100 mod 65536)) (256, []) = Some (256, ''172.17.68.125:10100'')"
  by (simp add: emit_str_def dec.simps)

lemma protocols_0: "protocols ! 0 = \<lparr>pr_name = ''test_callback'', pr_callback = Protocol_test_callback,
    pr_per_session_data_size = 10264, pr_rx_buffer_size = 4096\<rparr>" "length protocols = 3"
  by (simp_all add: protocols_def LWS_PRE_def MAX_PAYLOAD_SIZE_def)

definition ws_null :: ws_sub_protocol_t where "ws_null = ws_prot ws_zero ! 1"

lemma zero_sel: "ws_prot ws_zero = [ws_null, ws_null, ws_null]" "bufs ws_zero = []" "infos ws_zero = []"
  "threads ws_zero = []" "connects ws_zero = []" "writable ws_zero = []" "wsi_multi ws_null = None" "pthread_spam ws_null = 0"
  "lock_ring ws_null = False" "user_state ws_null = USER_NULL" "pthread_state ws_null = PTHREAD_FILISH"
  by (simp_all add: ws_null_def ws_zero_def numeral_3_eq_3)

definition slot1 :: "nat option \<Rightarrow> ws_sub_protocol_t" where
  "slot1 conn = ws_null\<lparr>conn_info := Some 0, wsi_multi := conn, prot_name := Some ''test_callback'', p_user := Some 0\<rparr>"

lemma regist_runs:
  assumes "ws_prot c = [ws_null, ws_null, ws_null]" "bufs c = []" "infos c = [info1 ctx\<lparr>ci_protocol := None, ci_pwsi := None, ci_userdata := None\<rparr>]"
  shows "ws_prot_regist (Some junk) conn True (Some 0) c = Some (0, c\<lparr>ws_prot := [slot1 conn, ws_null, ws_null], bufs := [junk],
     infos := [info1 ctx], connects := connects c @ [info1 ctx]\<rparr>)"
proof -
  have "min WS_SUB_PROTOCOL_NUM 1 = Suc 0" by (simp add: WS_SUB_PROTOCOL_NUM_def)
  with assms show ?thesis
    by (simp add: ws_prot_regist_def regist_slot_def new_user_def slot_simps lws_client_connect_via_info_def protocols_0
      zero_sel slot1_def Let_def) (simp add: info1_def)
qed

lemma create_runs:
  assumes "ws_prot c = [vhd, ws_null, ws_null]" "wsi_multi vhd \<noteq> None \<longrightarrow> ok 0"
  shows "ws_prot_pthread_create ok True c = Some (0, if wsi_multi vhd = None then c
    else c\<lparr>ws_prot := [vhd\<lparr>lock_ring := False, pthread_spam := Suc (length (threads c))\<rparr>, ws_null, ws_null],
        threads := threads c @ [(0, Created)]\<rparr>)"
proof -
  have n: "WS_SUB_PROTOCOL_NUM = Suc (Suc (Suc 0))" by (simp add: WS_SUB_PROTOCOL_NUM_def)
  from assms show ?thesis unfolding n
    by (simp add: ws_prot_pthread_create_def n create_slot_def slot_simps zero_sel)
qed

definition client1 :: "nat option \<Rightarrow> string \<Rightarrow> nat option \<Rightarrow> ws_client" where
  "client1 ctx junk conn = ws_zero\<lparr>ws_prot := [slot1 conn\<lparr>pthread_spam := (if conn = None then 0 else 1)\<rparr>, ws_null, ws_null],
     bufs := [junk], infos := [info1 ctx], connects := [info1 ctx], threads := (if conn = None then [] else [(0, Created)])\<rparr>"

lemma setup_runs:
  assumes "conn \<noteq> None \<longrightarrow> ok 0"
  shows "client_setup ctx (Some junk) conn ok ws_zero = Some (client1 ctx junk conn)"
proof -
  let ?i = "info1 ctx\<lparr>ci_protocol := None, ci_pwsi := None, ci_userdata := None\<rparr>"
  let ?c = "ws_zero\<lparr>infos := [?i]\<rparr>"
  let ?c' = "?c\<lparr>ws_prot := [slot1 conn, ws_null, ws_null], bufs := [junk], infos := [info1 ctx], connects := [info1 ctx]\<rparr>"
  have w: "wsi_multi (slot1 conn) = conn" "lock_ring (slot1 conn) = False" "pthread_spam (slot1 conn) = 0"
    by (simp_all add: slot1_def zero_sel)
  have "ws_prot_regist (Some junk) conn True (Some 0) ?c = Some (0, ?c')"
    using regist_runs [of ?c ctx junk conn] by (simp add: zero_sel)
  moreover have "ws_prot_pthread_create ok True ?c' = Some (0, client1 ctx junk conn)"
  proof -
    have "slot1 conn\<lparr>pthread_spam := 0\<rparr> = slot1 conn" "slot1 conn\<lparr>lock_ring := False, pthread_spam := Suc 0\<rparr> = slot1 conn\<lparr>pthread_spam := 1\<rparr>"
      by (simp_all add: slot1_def ws_null_def ws_zero_def)
    moreover have "ws_zero\<lparr>ws_prot := ps, bufs := bs, infos := xs, connects := ks, threads := []\<rparr>
      = ws_zero\<lparr>ws_prot := ps, bufs := bs, infos := xs, connects := ks\<rparr>" for ps bs xs ks by (simp add: ws_zero_def)
    ultimately show ?thesis
      using create_runs [of ?c' "slot1 conn" ok] assms w by (auto simp: zero_sel client1_def)
  qed
  moreover have "?i = \<lparr>ci_context = ctx, ci_address = ''172.17.68.125'', ci_port = 10100, ci_ssl_connection = 0,
      ci_path = ''websocket'', ci_host = ''172.17.68.125:10100'', ci_origin = ''172.17.68.125:10100'', ci_protocol = None,
      ci_pwsi = None, ci_userdata = None\<rparr>" by (simp add: info1_def)
  ultimately show ?thesis using host_text by (simp add: client_setup_def zero_sel Let_def)
qed

lemma client1_ok: "length junk = LWS_PRE + WS_TX_MAX_LEN \<Longrightarrow> client_ok (client1 ctx junk conn)"
  by (auto simp: client_ok_def buf_ok_def client1_def slot1_def zero_sel)

lemma start_sound:
  assumes "start_channel_services ctx (Some junk) conn ok = Some (r, s)" "conn \<noteq> None \<longrightarrow> ok 0"
    and "length junk = LWS_PRE + WS_TX_MAX_LEN"
  shows "sound s" "s = \<lparr>cl = client1 ctx junk conn, svc = Polling, exit_sig = False\<rparr>" "r = 0"
  using assms(1) setup_runs [of conn ok ctx junk, OF assms(2)] client1_ok [OF assms(3)]
  by (auto simp: start_channel_services_def sound_def)

text \<open>Every step keeps the state sound, and only the step of a join takes a thread to its last state.\<close>

lemma step_sound:
  assumes "step a s s'" "sound s"
  shows "sound s'"
  using assms
proof (induction rule: step.induct)
  case (callback s reason inp rlen e c)
  then have ok: "client_ok (cl s)" by (simp add: sound_def)
  from callback_preserves [OF ok callback.hyps(2), of rlen] callback.hyps(3) show ?case
    by (auto simp: sound_def after_callback_def split: callback_end.split)
next
  case (joined s t)
  then have ok: "client_ok (cl s)" and w: "wsi_multi (ws_prot (cl s) ! 0) = None" by (auto simp: sound_def)
  from ok obtain vhd r1 r2 b where c: "ws_prot (cl s) = [vhd, r1, r2]" "\<not> lock_ring vhd" "p_user vhd = Some b"
    "b < length (bufs (cl s))" "length (bufs (cl s) ! b) = LWS_PRE + WS_TX_MAX_LEN"
    "writable (cl s) \<noteq> [] \<or> user_state vhd = USER_RX \<longrightarrow> has_text (bufs (cl s) ! b)"
    "wsi_multi vhd \<noteq> None \<longrightarrow> (\<exists>t. pthread_spam vhd = Suc t \<and> t < length (threads (cl s)) \<and> snd (threads (cl s) ! t) \<noteq> Joined)"
    "\<forall>th\<in>set (threads (cl s)). fst th = 0" by (rule client_okE)
  have "fst (threads (cl s) ! t) = 0" using c(8) joined.hyps(2) by simp
  then have "\<forall>th\<in>set (threads (set_pc t Joined (cl s))). fst th = 0"
    using c(8) set_update_subset_insert [of "threads (cl s)" t "(0, Joined)"] by (fastforce simp: set_pc_def)
  with c w show ?case by (auto simp: sound_def client_ok_def buf_ok_def set_pc_def)
next
  case (business t s c)
  then have ok: "client_ok (cl s)" by (simp add: sound_def)
  note p = thread_preserves [OF ok business.hyps]
  from p(5) obtain pc where pc: "pc \<noteq> Joined" "threads c = (threads (cl s))[t := (0, pc)]" by blast
  have "snd (threads c ! u) \<noteq> Joined" if "u < length (threads (cl s))" "snd (threads (cl s) ! u) \<noteq> Joined" for u
    using that pc by (cases "u = t") simp_all
  with business.prems p(1,6) pc show ?case by (auto simp: sound_def)
next
  case (heartbeat sc hw h s hw' h' c)
  then have "client_ok (cl s)" by (simp add: sound_def)
  with heartbeat_preserves [OF heartbeat.hyps] heartbeat.prems show ?case by (auto simp: sound_def)
qed (auto simp: sound_def sighdl_def)

lemma execution_sound: "execution s as s' \<Longrightarrow> sound s \<Longrightarrow> sound s'"
  by (induction rule: execution.induct) (auto intro: step_sound)

lemma thread_defined:
  assumes "client_ok c" "t < length (threads c)"
  shows "test_callbake_msgHandle t c = None
    \<longleftrightarrow> snd (threads c ! t) \<in> {Exited, Joined} \<or> snd (threads c ! t) = Flow \<and> wsi_multi (ws_prot c ! 0) = None"
proof -
  from assms(1) obtain vhd r1 r2 b where c: "ws_prot c = [vhd, r1, r2]" "\<not> lock_ring vhd" "p_user vhd = Some b"
    "b < length (bufs c)" "length (bufs c ! b) = LWS_PRE + WS_TX_MAX_LEN"
    "writable c \<noteq> [] \<or> user_state vhd = USER_RX \<longrightarrow> has_text (bufs c ! b)"
    "wsi_multi vhd \<noteq> None \<longrightarrow> (\<exists>t. pthread_spam vhd = Suc t \<and> t < length (threads c) \<and> snd (threads c ! t) \<noteq> Joined)"
    "\<forall>th\<in>set (threads c). fst th = 0" by (rule client_okE)
  obtain pc where th: "threads c ! t = (0, pc)" using bspec [OF c(8) nth_mem [OF assms(2)]] by (cases "threads c ! t") simp
  from c(1-6) th assms(2) show ?thesis
    by (cases pc; cases "wsi_multi vhd") (auto simp: test_callbake_msgHandle_def slot_simps splice_opt_def has_text_str(1))
qed


text \<open>A start with a connection, and its first step into the library.\<close>

definition junk0 :: string where "junk0 = replicate (LWS_PRE + WS_TX_MAX_LEN) (CHR ''?'')"

definition system1 :: system where
  "system1 = \<lparr>cl = client1 None junk0 (Some 7), svc = Polling, exit_sig = False\<rparr>"

lemma junk0_length: "length junk0 = LWS_PRE + WS_TX_MAX_LEN"
  by (simp add: junk0_def)

lemma started: "start_channel_services None (Some junk0) (Some 7) (\<lambda>n. True) = Some (0, system1)"
  using setup_runs [of "Some 7" "\<lambda>n. True" None junk0] by (simp add: start_channel_services_def system1_def)

lemma served1: "execution system1 [Service] (system1\<lparr>svc := Serving\<rparr>)"
  by (rule exec_Cons [OF step.serve exec_Nil]) (simp_all add: system1_def)


section \<open>Writing\<close>

lemma write_runs:
  assumes "ws_prot c = vhd # r" "\<not> lock_ring vhd" "buf_ok c b" "c_str (bufs c ! b) = Some s" "length s < WS_TX_MAX_LEN"
    and "INT_MIN \<le> rlen" "rlen \<le> INT_MAX"
  shows "\<exists>c'. protocol_test_callback LWS_CALLBACK_CLIENT_WRITEABLE (Some b) inp rlen c
      = Some (Returned (if 0 \<le> rlen \<and> rlen < int (length s) then - 1 else 0), c')
    \<and> sent c' = sent c @ [s] \<and> ws_prot c' = ws_prot c"
proof -
  have u: "bufs c ! b = s @ NUL # drop (Suc (length s)) (bufs c ! b)" "NUL \<notin> set s"
    using assms(4) by (auto simp: c_str_Some_iff)
  have "NUL \<in> set (bufs c ! b)" by (subst u(1)) simp
  then have t: "tk (bufs c ! b) = s" using c_str_tk [of "bufs c ! b"] assms(4) by simp
  obtain k where k: "WS_TX_MAX_LEN - length s = Suc k" using assms(5) by (metis Suc_diff_Suc)
  have h: "has_text (bufs c ! b)" unfolding has_text_def by (subst u(1)) (simp add: k)
  have n: "nat (rlen mod 2 ^ 64) < length s \<longleftrightarrow> 0 \<le> rlen \<and> rlen < int (length s)"
  proof (cases "0 \<le> rlen")
    case True
    with assms(7) have "rlen mod 2 ^ 64 = rlen" by (simp add: INT_MAX_def)
    with True show ?thesis by (simp add: nat_less_iff)
  next
    case False
    have "(rlen + 2 ^ 64) mod 2 ^ 64 = rlen + 2 ^ 64"
      by (rule mod_pos_pos_trivial) (use False assms(6) in \<open>simp_all add: INT_MIN_def\<close>)
    then have "rlen mod 2 ^ 64 = rlen + 2 ^ 64" by simp
    moreover have "int (length s) < 2 ^ 63" using assms(5) by (simp add: WS_TX_MAX_LEN_def)
    ultimately show ?thesis using False assms(6) by (simp add: INT_MIN_def nat_less_iff)
  qed
  have same: "vhd\<lparr>lock_ring := False\<rparr> = vhd" using assms(2) by (cases vhd) simp
  show ?thesis using writeable_runs [OF assms(1-3) h, of inp rlen] assms(1) unfolding t n same by simp
qed

text \<open>C34: The result of a writable callback: the text of the user buffer is handed to the library exactly,
  the lock is released on every path, and the callback returns -1, which makes the library close the
  connection, when fewer bytes than the text were taken.  A failed write, for which the library
  answers a negative number, is not noticed: compared as unsigned it is larger than every length.\<close>

theorem write_result:
  assumes "ws_prot c = vhd # r" "\<not> lock_ring vhd" "buf_ok c b" "c_str (bufs c ! b) = Some s" "length s < WS_TX_MAX_LEN"
    and "INT_MIN \<le> rlen" "rlen \<le> INT_MAX"
  shows "\<exists>c'. protocol_test_callback LWS_CALLBACK_CLIENT_WRITEABLE (Some b) inp rlen c
      = Some (Returned (if 0 \<le> rlen \<and> rlen < int (length s) then - 1 else 0), c')
    \<and> sent c' = sent c @ [s] \<and> ws_prot c' = ws_prot c"
  by (rule write_runs [OF assms])

text \<open>The library refuses the write: the callback reports success.\<close>

theorem write_result_witness:
  "\<exists>c'. protocol_test_callback LWS_CALLBACK_CLIENT_WRITEABLE (Some 0) [] (- 1) client0 = Some (Returned 0, c') \<and> sent c' = [[]]"
proof -
  have "c_str (bufs client0 ! 0) = Some []" by (simp add: client0_def LWS_PRE_def numeral_eq_Suc)
  moreover have "buf_ok client0 0" by (simp add: buf_ok_def client0_def)
  moreover have "ws_prot client0 = [conn0, conn0, conn0]" "sent client0 = []" "\<not> lock_ring conn0"
    by (simp_all add: client0_def conn0_def)
  ultimately show ?thesis
    using write_result [of client0 conn0 "[conn0, conn0]" 0 "[]" "- 1" "[]"]
    by (simp add: WS_TX_MAX_LEN_def INT_MIN_def INT_MAX_def) blast
qed

section \<open>Messages of the host\<close>

lemma set_pc_sel [simp]: "ws_prot (set_pc t pc c) = ws_prot c" "bufs (set_pc t pc c) = bufs c" "received (set_pc t pc c) = received c"
  "flow (set_pc t pc c) = flow c" "threads (set_pc t pc c) = (threads c)[t := (fst (threads c ! t), pc)]"
  by (simp_all add: set_pc_def)

fun thread_rounds :: "nat \<Rightarrow> nat \<Rightarrow> ws_client \<Rightarrow> ws_client option" where
  "thread_rounds 0 t c = Some c"
| "thread_rounds (Suc n) t c = test_callbake_msgHandle t c \<bind> thread_rounds n t"

text \<open>C33: A message of the host reaches the business thread: received while the thread waits for one, its
  bytes and its length are reported once, the user buffer is cleared, the state goes back to idle
  and the flow control of the connection is released.\<close>

theorem message_reported:
  assumes "client_ok c" "lws_may_call LWS_CALLBACK_CLIENT_RECEIVE inp c" "NUL \<notin> set inp"
    and "t < length (threads c)" "snd (threads c ! t) = Top"
  shows "\<exists>c1 c2. protocol_test_callback LWS_CALLBACK_CLIENT_RECEIVE (p_user (ws_prot c ! 0)) inp rlen c = Some (Returned 0, c1)
    \<and> thread_rounds 4 t c1 = Some c2 \<and> received c2 = received c @ [(length inp, inp)]
    \<and> user_state (ws_prot c2 ! 0) = USER_NULL \<and> get_buf c2 (p_user (ws_prot c2 ! 0)) \<bind> c_str = Some []
    \<and> Some (flow c2) = map_option (\<lambda>w. flow c @ [w]) (wsi_multi (ws_prot c ! 0))"
proof -
  from assms(1) obtain vhd r1 r2 b where c: "ws_prot c = [vhd, r1, r2]" "\<not> lock_ring vhd" "p_user vhd = Some b"
    "b < length (bufs c)" "length (bufs c ! b) = LWS_PRE + WS_TX_MAX_LEN"
    "writable c \<noteq> [] \<or> user_state vhd = USER_RX \<longrightarrow> has_text (bufs c ! b)"
    "wsi_multi vhd \<noteq> None \<longrightarrow> (\<exists>t. pthread_spam vhd = Suc t \<and> t < length (threads c) \<and> snd (threads c ! t) \<noteq> Joined)"
    "\<forall>th\<in>set (threads c). fst th = 0" by (rule client_okE)
  from assms(2) c(1) obtain w where w: "wsi_multi vhd = Some w" "established vhd" "length inp < WS_TX_MAX_LEN"
    by (auto simp: lws_may_call_def protocols_0 WS_TX_MAX_LEN_def)
  have th: "threads c ! t = (0, Top)" using bspec [OF c(8) nth_mem [OF assms(4)]] assms(5) by (cases "threads c ! t") simp
  let ?u = "inp @ drop (length inp) (replicate WS_TX_MAX_LEN NUL @ drop WS_TX_MAX_LEN (bufs c ! b))"
  obtain k where k: "WS_TX_MAX_LEN - length inp = Suc k" using w(3) by (metis Suc_diff_Suc)
  have u: "c_str ?u = Some inp" using assms(3) w(3) by (simp add: k c_str_append)
  obtain k' where k': "WS_TX_MAX_LEN = Suc k'" using w(3) by (cases WS_TX_MAX_LEN) auto
  have z: "c_str (replicate WS_TX_MAX_LEN NUL @ v) = Some []" for v by (simp add: k')
  have n: "4 = Suc (Suc (Suc (Suc 0)))" by simp
  have run: "protocol_test_callback LWS_CALLBACK_CLIENT_RECEIVE (p_user (ws_prot c ! 0)) inp rlen c = Some (Returned 0,
     c\<lparr>bufs := (bufs c)[b := ?u], ws_prot := vhd\<lparr>lock_ring := False, user_len := length inp, user_state := USER_RX\<rparr> # [r1, r2]\<rparr>)"
    using receive_runs [OF c(1-3), of inp rlen] c(1,3,4,5) w(3) by (simp add: buf_ok_def)
  let ?c1 = "c\<lparr>bufs := (bufs c)[b := ?u], ws_prot := vhd\<lparr>lock_ring := False, user_len := length inp, user_state := USER_RX\<rparr> # [r1, r2]\<rparr>"
  let ?v = "replicate WS_TX_MAX_LEN NUL @ drop WS_TX_MAX_LEN ?u"
  have "length ?u = LWS_PRE + WS_TX_MAX_LEN" using w(3) c(5) by simp
  then have sp: "splice_opt ?u 0 (replicate WS_TX_MAX_LEN NUL) = Some ?v" by (simp add: splice_opt_def)
  have "\<exists>c2. thread_rounds 4 t ?c1 = Some c2 \<and> received c2 = received c @ [(length inp, inp)]
    \<and> user_state (ws_prot c2 ! 0) = USER_NULL \<and> get_buf c2 (p_user (ws_prot c2 ! 0)) \<bind> c_str = Some [] \<and> flow c2 = flow c @ [w]"
    unfolding n using c(1-5) w th assms(4) u z sp
    by (simp add: test_callbake_msgHandle_def slot_simps)
  with run w(1) c(1) show ?thesis by simp
qed

lemma client0_sel: "ws_prot client0 = [conn0, conn0, conn0]" "threads client0 = [(0, Top)]" "received client0 = []"
  "flow client0 = []" "wsi_multi conn0 = Some 7" "p_user conn0 = Some 0" "established conn0"
  by (simp_all add: client0_def conn0_def)

lemma client0_ok: "client_ok client0"
  by (auto simp: client_ok_def buf_ok_def client0_def conn0_def)

theorem message_reported_witness:
  "\<exists>c1 c2. protocol_test_callback LWS_CALLBACK_CLIENT_RECEIVE (Some 0) ''on'' 0 client0 = Some (Returned 0, c1)
    \<and> thread_rounds 4 0 c1 = Some c2 \<and> received c2 = [(2, ''on'')] \<and> flow c2 = [7]"
  using message_reported [OF client0_ok, of "''on''" 0 0]
  by (auto simp: client0_sel lws_may_call_def protocols_0 simp del: thread_rounds.simps)

text \<open>
  A message that arrives while the thread is between clearing the buffer and resetting the state is
  lost: the thread does not take the lock, and resets the state the callback has just set.
\<close>

lemma message_lost:
  assumes "ws_prot c = vhd # r" "\<not> lock_ring vhd" "p_user vhd = Some b" "buf_ok c b" "length inp \<le> WS_TX_MAX_LEN"
    and "t < length (threads c)" "threads c ! t = (0, Cleared)"
  shows "\<exists>c1 c2. protocol_test_callback LWS_CALLBACK_CLIENT_RECEIVE (Some b) inp rlen c = Some (Returned 0, c1)
    \<and> test_callbake_msgHandle t c1 = Some c2 \<and> received c2 = received c \<and> user_state (ws_prot c2 ! 0) = USER_NULL"
  using receive_runs [OF assms(1-5), of rlen] assms(6,7) by (simp add: test_callbake_msgHandle_def slot_simps)

text \<open>
  The user buffer serves both directions: a message received between a heartbeat and the writable
  callback it asked for overwrites the frame, and is sent back to the host.
\<close>

lemma message_echoed:
  assumes "ws_prot c = vhd # r" "\<not> lock_ring vhd" "p_user vhd = Some b" "buf_ok c b" "length inp < WS_TX_MAX_LEN" "NUL \<notin> set inp"
  shows "\<exists>c1 e c2. protocol_test_callback LWS_CALLBACK_CLIENT_RECEIVE (Some b) inp r1 c = Some (Returned 0, c1)
    \<and> protocol_test_callback LWS_CALLBACK_CLIENT_WRITEABLE (Some b) [] r2 c1 = Some (e, c2) \<and> sent c2 = sent c @ [inp]"
proof -
  let ?u = "inp @ drop (length inp) (replicate WS_TX_MAX_LEN NUL @ drop WS_TX_MAX_LEN (bufs c ! b))"
  obtain k where k: "WS_TX_MAX_LEN - length inp = Suc k" using assms(5) by (metis Suc_diff_Suc)
  have h: "has_text ?u" by (rule has_text_received [OF assms(5)])
  have "c_str ?u = Some inp" using assms(5,6) by (simp add: k c_str_append)
  with has_text_str(1) [OF h] have t: "tk ?u = inp" by simp
  let ?v = "vhd\<lparr>lock_ring := False, user_len := length inp, user_state := USER_RX\<rparr>"
  let ?c1 = "c\<lparr>bufs := (bufs c)[b := ?u], ws_prot := ?v # r\<rparr>"
  have "protocol_test_callback LWS_CALLBACK_CLIENT_RECEIVE (Some b) inp r1 c = Some (Returned 0, ?c1)"
    by (rule receive_runs) (use assms in simp_all)
  moreover have "bufs ?c1 ! b = ?u" "buf_ok ?c1 b" using assms(4,5) by (simp_all add: buf_ok_def)
  moreover from this h have "\<exists>e c2. protocol_test_callback LWS_CALLBACK_CLIENT_WRITEABLE (Some b) [] r2 ?c1 = Some (e, c2) \<and> sent c2 = sent c @ [inp]"
    using writeable_runs [of ?c1 ?v r b "[]" r2] t by simp
  ultimately show ?thesis by blast
qed

text \<open>
  The heartbeat prints the frame into the user buffer without the lock the callback takes.  A writable callback
  that was asked for by the frame before and comes when the first \<open>k\<close> characters of the next one are
  written sends a mixture of both to the host.
\<close>

lemma frame_torn:
  assumes "ws_prot c = vhd # r" "\<not> lock_ring vhd" "buf_ok c b" "c_str (bufs c ! b) = Some old" "length old < WS_TX_MAX_LEN"
    and "k \<le> length old" "k \<le> length new" "NUL \<notin> set new"
  shows "\<exists>e c'. protocol_test_callback LWS_CALLBACK_CLIENT_WRITEABLE (Some b) inp 0 (c\<lparr>bufs := (bufs c)[b := take k new @ drop k (bufs c ! b)]\<rparr>)
      = Some (e, c') \<and> sent c' = sent c @ [take k new @ drop k old]"
proof -
  let ?u = "take k new @ drop k (bufs c ! b)"
  have u: "bufs c ! b = old @ NUL # drop (Suc (length old)) (bufs c ! b)" "NUL \<notin> set old"
    using assms(4) by (auto simp: c_str_Some_iff)
  have "drop k (bufs c ! b) = drop k old @ NUL # drop (Suc (length old)) (bufs c ! b)"
    using assms(6) by (subst u(1)) simp
  moreover have l: "length old < length (bufs c ! b)" by (subst u(1)) simp
  moreover have "NUL \<notin> set (take k new @ drop k old)" using assms(8) u(2) by (auto dest: in_set_takeD in_set_dropD)
  ultimately have t: "c_str ?u = Some (take k new @ drop k old)" using c_str_append [of "take k new @ drop k old"] by simp
  have b: "buf_ok (c\<lparr>bufs := (bufs c)[b := ?u]\<rparr>) b" "b < length (bufs c)"
    using assms(3,6,7) l by (auto simp: buf_ok_def)
  have "length (take k new @ drop k old) < WS_TX_MAX_LEN" using assms(5-7) by simp
  with write_runs [of "c\<lparr>bufs := (bufs c)[b := ?u]\<rparr>" vhd r b "take k new @ drop k old" 0 inp] assms(1,2) b t
  show ?thesis by (auto simp: INT_MIN_def INT_MAX_def)
qed

text \<open>An error of the connection before its thread was created joins a thread that does not exist.\<close>

lemma connection_error_without_thread:
  "protocol_test_callback LWS_CALLBACK_CLIENT_CONNECTION_ERROR user inp rlen (client1 ctx junk None) = None"
  by (simp add: protocol_test_callback_def slot_simps client1_def slot1_def zero_sel joinable_def)

text \<open>A null connect information is dereferenced, since the guard asks for both pointers to be null.\<close>

lemma regist_null_info: "ws_prot_regist junk conn True None ws_zero = None"
  by (cases junk) (simp_all add: ws_prot_regist_def regist_slot_def WS_SUB_PROTOCOL_NUM_def zero_sel new_user_def protocols_0)

section \<open>From the device to the host\<close>

text \<open>C32: The report reaches the host: after a heartbeat of a device with updated parameters the writable
  callback hands the library exactly one message, a JSON frame whose bytes are the printed report of
  the updated parameters, and reports success when the library takes it.\<close>

theorem report_reaches_host:
  assumes "hw_wf hw" "list_all cache_texts (pCache hw)" "info_texts (hwInfo hw)" "heap_ok h" "roomy h" "ready c b w" "client_ok c"
    and "5 * length (pj True 0 (report_doc (kind (hwInfo hw)) (hwInfo hw) (pCache hw))) + 60 \<le> 1024 * 100"
    and "\<exists>p\<in>set (pCache hw). updated p"
  shows "\<exists>hw' h' c1 c2 f. ws_heartbeat sc hw h c = Some (hw', h', c1) \<and> lws_may_call LWS_CALLBACK_CLIENT_WRITEABLE [] c1
    \<and> protocol_test_callback LWS_CALLBACK_CLIENT_WRITEABLE (Some b) [] (int (length (pj False 0 f))) (answered LWS_CALLBACK_CLIENT_WRITEABLE c1)
        = Some (Returned 0, c2)
    \<and> sent c2 = sent c1 @ [pj False 0 f]
    \<and> frame_bytes f = Some (pj True 0 (report_doc (kind (hwInfo hw)) (hwInfo hw) (pCache hw)))"
proof -
  from heartbeat_reports_updates_raw [OF assms(1-6) assms(8), of sc] assms(9) obtain hw' h' c1 f where
    hb: "ws_heartbeat sc hw h c = Some (hw', h', c1)" "writable c1 = writable c @ [w]"
    "get_buf c1 (Some b) \<bind> c_str = Some (pj False 0 f)"
    "frame_bytes f = Some (pj True 0 (report_doc (kind (hwInfo hw)) (hwInfo hw) (pCache hw)))" by auto
  have p: "client_ok c1" "ws_prot c1 = ws_prot c" using heartbeat_preserves [OF hb(1) assms(7)] by simp_all
  from assms(6) obtain vhd r where v: "ws_prot c = vhd # r" "p_user vhd = Some b" "wsi_multi vhd = Some w" by (auto simp: ready_def)
  from p v have b: "\<not> lock_ring vhd" "buf_ok c1 b" "has_text (bufs c1 ! b)" using hb(2)
    by (auto elim!: client_okE simp: buf_ok_def)
  have t: "tk (bufs c1 ! b) = pj False 0 f"
    using has_text_str(1) [OF b(3)] hb(3) b(2) by (simp add: get_buf_def buf_ok_def)
  have l: "length (pj False 0 f) < WS_TX_MAX_LEN" using has_text_str(2) [OF b(3)] t by simp
  then have m: "int (length (pj False 0 f)) mod 2 ^ 64 = int (length (pj False 0 f))" by (simp add: WS_TX_MAX_LEN_def)
  let ?c = "answered LWS_CALLBACK_CLIENT_WRITEABLE c1"
  have a: "ws_prot ?c = vhd # r" "buf_ok ?c b" "bufs ?c = bufs c1" "sent ?c = sent c1"
    using p v b by (simp_all add: answered_def buf_ok_def)
  have "lws_may_call LWS_CALLBACK_CLIENT_WRITEABLE [] c1" using p v hb(2) by (auto simp: lws_may_call_def)
  moreover have "\<exists>c2. protocol_test_callback LWS_CALLBACK_CLIENT_WRITEABLE (Some b) [] (int (length (pj False 0 f))) ?c
      = Some (Returned 0, c2) \<and> sent c2 = sent c1 @ [pj False 0 f]"
    using writeable_runs [OF a(1) b(1) a(2), of "[]" "int (length (pj False 0 f))"] b(3) a t m by simp
  ultimately show ?thesis using hb(1,4) by blast
qed

theorem report_reaches_host_witness:
  "\<exists>hw' h' c1 c2 f. ws_heartbeat True (hw0\<lparr>pCache := [cache1]\<rparr>) heap0 client0 = Some (hw', h', c1)
    \<and> protocol_test_callback LWS_CALLBACK_CLIENT_WRITEABLE (Some 0) [] (int (length (pj False 0 f))) (answered LWS_CALLBACK_CLIENT_WRITEABLE c1)
        = Some (Returned 0, c2)
    \<and> sent c2 = sent c1 @ [pj False 0 f] \<and> frame_bytes f = Some (pj True 0 (report_doc HW_KIND_CUR info0 [cache1]))"
proof -
  let ?hw = "hw0\<lparr>pCache := [cache1]\<rparr>"
  have k: "hwInfo ?hw = info0" "pCache ?hw = [cache1]" "kind info0 = HW_KIND_CUR" by (simp_all add: hw0_def) (simp add: info0_def)
  have wf: "hw_wf ?hw" using sample0(1) cache1_ok(1) by (simp add: hw_wf_def hw0_def cache_texts_def)
  have len: "5 * length (pj True 0 (report_doc (kind (hwInfo ?hw)) (hwInfo ?hw) (pCache ?hw))) + 60 \<le> 1024 * 100"
    using cache1_report_short by (simp add: k del: pj.simps)
  from report_reaches_host [OF wf _ _ heap0_ok heap0_room client0_ready client0_ok len, of True] cache1_ok info0_texts
  show ?thesis unfolding k by (simp add: k del: pj.simps) blast
qed

section \<open>Closing\<close>

text \<open>No step starts or forgets a thread.\<close>

lemma effects_threads:
  "put_prot c n v = Some c' \<Longrightarrow> threads c' = threads c" "put_buf c a u = Some c' \<Longrightarrow> threads c' = threads c"
  "ws_send_msg m k rlen c = Some (i, c') \<Longrightarrow> threads c' = threads c"
  by (auto simp: put_prot_def put_buf_def ws_send_msg_def bind_Some_iff split: option.splits)

lemma callback_threads:
  assumes "protocol_test_callback reason user inp rlen c = Some (e, c')"
  shows "threads c' = threads c"
proof -
  from assms obtain vhd where "nth_opt (ws_prot c) 0 = Some vhd" by (auto simp: protocol_test_callback_def bind_Some_iff)
  with assms show ?thesis
    by (cases reason) (auto simp: protocol_test_callback_def bind_Some_iff dest!: effects_threads)
qed

lemma step_threads: "step a s s' \<Longrightarrow> sound s \<Longrightarrow> length (threads (cl s')) = length (threads (cl s))"
proof (induction rule: step.induct)
  case (callback s reason inp rlen e c)
  then show ?case using callback_threads [OF callback.hyps(3)] by (simp add: answered_def)
next
  case (business t s c)
  then show ?case using thread_preserves(5) [OF _ business.hyps] by (auto simp: sound_def)
next
  case (heartbeat sc hw h s hw' h' c)
  then show ?case using heartbeat_preserves [OF heartbeat.hyps] by (simp add: sound_def)
qed (simp_all add: sighdl_def)

lemma execution_threads: "execution s as s' \<Longrightarrow> sound s \<Longrightarrow> length (threads (cl s')) = length (threads (cl s))"
  by (induction rule: execution.induct) (auto simp: step_threads step_sound)

text \<open>The state of the one thread while the service thread waits for it.\<close>

definition pc_of :: "system \<Rightarrow> thread_pc" where
  "pc_of s = snd (threads (cl s) ! 0)"

definition run_flag :: "system \<Rightarrow> pthread_status" where
  "run_flag s = pthread_state (ws_prot (cl s) ! 0)"

lemma waiting_steps:
  assumes "step a s s'" "sound s" "svc s = Waiting 0" "length (threads (cl s)) = 1"
  shows "(a = Service \<and> pc_of s = Exited \<and> pc_of s' = Joined \<and> svc s' = Serving)
    \<or> (a = Thread 0 \<and> test_callbake_msgHandle 0 (cl s) = Some (cl s') \<and> svc s' = Waiting 0)
    \<or> (a \<noteq> Thread 0 \<and> svc s' = Waiting 0 \<and> pc_of s' = pc_of s \<and> run_flag s' = run_flag s)"
  using assms
proof (cases rule: step.cases)
  case (business t c)
  with assms have "t = 0" using thread_preserves(2) [of "cl s" t c] by (auto simp: sound_def)
  with business assms show ?thesis by simp
next
  case (heartbeat sc hw h hw' h' c)
  then show ?thesis using heartbeat_preserves [OF heartbeat(3)] assms by (auto simp: sound_def pc_of_def run_flag_def)
qed (use assms in \<open>auto simp: pc_of_def run_flag_def sighdl_def\<close>)

lemma thread_while_waiting:
  assumes "sound s" "svc s = Waiting 0" "test_callbake_msgHandle 0 (cl s) = Some c" "length (threads (cl s)) = 1"
  shows "case pc_of s of
      Created \<Rightarrow> snd (threads c ! 0) = Top \<and> pthread_state (ws_prot c ! 0) = PTHREAD_RUN
    | Top \<Rightarrow> snd (threads c ! 0) = Test \<and> pthread_state (ws_prot c ! 0) = run_flag s
    | Test \<Rightarrow> snd (threads c ! 0) = (if run_flag s = PTHREAD_FILISH then Exited else Top) \<and> pthread_state (ws_prot c ! 0) = run_flag s
    | _ \<Rightarrow> True"
proof -
  from assms(1,2) have w: "wsi_multi (ws_prot (cl s) ! 0) = None" and ok: "client_ok (cl s)" by (simp_all add: sound_def)
  from ok obtain vhd r where v: "ws_prot (cl s) = vhd # r" "\<forall>th\<in>set (threads (cl s)). fst th = 0" by (auto elim: client_okE)
  have "threads (cl s) ! 0 \<in> set (threads (cl s))" using assms(4) by (intro nth_mem) simp
  with v(2) have th: "threads (cl s) ! 0 = (0, pc_of s)" by (metis pc_of_def prod.collapse)
  have w: "wsi_multi vhd = None" and f: "run_flag s = pthread_state vhd" using w v(1) by (simp_all add: run_flag_def)
  have l: "0 < length (threads (cl s))" using assms(4) by simp
  show ?thesis
  proof (cases "pc_of s")
    case Created
    with th v(1) l assms(3) show ?thesis by (auto simp: test_callbake_msgHandle_def put_prot_def)
  next
    case Top
    with th v(1) w f l assms(3) show ?thesis by (auto simp: test_callbake_msgHandle_def)
  next
    case Test
    with th v(1) w f l assms(3) show ?thesis by (auto simp: test_callbake_msgHandle_def)
  qed simp_all
qed

lemma ended_stays:
  assumes "step a s s'" "sound s" "length (threads (cl s)) = 1" "pc_of s \<in> {Exited, Joined}"
  shows "pc_of s' \<in> {Exited, Joined}"
  using assms
proof (cases rule: step.cases)
  case (callback reason inp rlen e c)
  then show ?thesis using callback_threads [OF callback(5)] assms(4) by (simp add: pc_of_def answered_def)
next
  case (joined t)
  with assms(3,4) show ?thesis by (simp add: pc_of_def)
next
  case (business t c)
  with assms have "t = 0" using thread_preserves(2) [of "cl s" t c] by (auto simp: sound_def)
  with business assms show ?thesis using thread_preserves(3,4) [of "cl s" t c] by (auto simp: sound_def pc_of_def)
next
  case (heartbeat sc hw h hw' h' c)
  then show ?thesis using heartbeat_preserves [OF heartbeat(3)] assms by (auto simp: sound_def pc_of_def)
qed (use assms in \<open>auto simp: pc_of_def sighdl_def\<close>)

text \<open>At most \<open>k\<close> more steps of the thread until it ends.\<close>

definition closing :: "nat \<Rightarrow> system \<Rightarrow> bool" where
  "closing k s \<longleftrightarrow> pc_of s \<in> {Exited, Joined} \<or> svc s = Waiting 0 \<and> run_flag s = PTHREAD_FILISH
     \<and> (pc_of s = Top \<and> 2 \<le> k \<or> pc_of s = Test \<and> 1 \<le> k)"

lemma closing_step:
  assumes "step a s s'" "sound s" "length (threads (cl s)) = 1" "closing k s"
  shows "closing (if a = Thread 0 then k - 1 else k) s'"
proof (cases "pc_of s \<in> {Exited, Joined}")
  case True
  then show ?thesis using ended_stays [OF assms(1-3)] by (simp add: closing_def)
next
  case False
  with assms(4) have c: "svc s = Waiting 0" "run_flag s = PTHREAD_FILISH" "pc_of s = Top \<and> 2 \<le> k \<or> pc_of s = Test \<and> 1 \<le> k"
    by (auto simp: closing_def)
  from waiting_steps [OF assms(1,2) c(1) assms(3)] consider
    "a = Service" "pc_of s = Exited" | "a = Thread 0" "test_callbake_msgHandle 0 (cl s) = Some (cl s')" "svc s' = Waiting 0"
    | "a \<noteq> Thread 0" "svc s' = Waiting 0" "pc_of s' = pc_of s" "run_flag s' = run_flag s" by blast
  then show ?thesis
  proof cases
    case 2
    from thread_while_waiting [OF assms(2) c(1) 2(2) assms(3)] c 2 show ?thesis
      by (auto simp: closing_def pc_of_def run_flag_def)
  qed (use False c in \<open>auto simp: closing_def\<close>)
qed

lemma closing_execution:
  "execution s as s' \<Longrightarrow> sound s \<Longrightarrow> length (threads (cl s)) = 1 \<Longrightarrow> closing k s
    \<Longrightarrow> closing (k - count_list as (Thread 0)) s'"
proof (induction arbitrary: k rule: execution.induct)
  case (exec_Cons a s s' as s'')
  from closing_step [OF exec_Cons.hyps(1) exec_Cons.prems]
  have c: "closing (if a = Thread 0 then k - 1 else k) s'" .
  have "sound s'" "length (threads (cl s')) = 1"
    using step_sound [OF exec_Cons.hyps(1)] step_threads [OF exec_Cons.hyps(1)] exec_Cons.prems by simp_all
  from exec_Cons.IH [OF this c] show ?case by (cases "a = Thread 0") simp_all
qed simp

lemma reached:
  assumes "start_channel_services ctx (Some junk) (Some w) ok = Some (r, s0)" "ok 0"
    and "length junk = LWS_PRE + WS_TX_MAX_LEN" "execution s0 as s"
  shows "sound s" "length (threads (cl s)) = 1"
proof -
  have "Some w \<noteq> None \<longrightarrow> ok 0" using assms(2) by simp
  note st = start_sound [OF assms(1) this assms(3)]
  from execution_sound [OF assms(4) st(1)] show "sound s" .
  from execution_threads [OF assms(4) st(1)] show "length (threads (cl s)) = 1" by (simp add: st(2) client1_def)
qed

text \<open>C35: Closing a connection whose thread runs its loop comes to an end: when the service thread waits
  for the business thread, the run flag is reset and the thread stands before the test of the
  connection or of the loop, then in every continuation the thread has ended once it took two
  steps, until then it can take a step, and when it has ended the service thread can go on.\<close>

theorem close_ends:
  assumes "start_channel_services ctx (Some junk) (Some w) ok = Some (r, s0)" "ok 0"
    and "length junk = LWS_PRE + WS_TX_MAX_LEN" "execution s0 as s"
    and "svc s = Waiting 0" "run_flag s = PTHREAD_FILISH" "pc_of s = Top \<or> pc_of s = Test" "execution s bs s'"
  shows "(2 \<le> count_list bs (Thread 0) \<longrightarrow> pc_of s' \<in> {Exited, Joined})
    \<and> (pc_of s' \<notin> {Exited, Joined} \<longrightarrow> (\<exists>s''. step (Thread 0) s' s''))
    \<and> (svc s' = Waiting 0 \<and> pc_of s' = Exited \<longrightarrow> (\<exists>s''. step Service s' s'' \<and> svc s'' = Serving))"
proof -
  note r = reached [OF assms(1-4)]
  have "closing 2 s" using assms(5-7) by (auto simp: closing_def)
  from closing_execution [OF assms(8) r this] have c: "closing (2 - count_list bs (Thread 0)) s'" .
  have r': "sound s'" "length (threads (cl s')) = 1"
    using execution_sound [OF assms(8) r(1)] execution_threads [OF assms(8) r(1)] r(2) by simp_all
  show ?thesis
  proof (intro conjI impI)
    assume "2 \<le> count_list bs (Thread 0)"
    with c show "pc_of s' \<in> {Exited, Joined}" by (auto simp: closing_def)
  next
    assume "pc_of s' \<notin> {Exited, Joined}"
    with c have "pc_of s' = Top \<or> pc_of s' = Test" by (auto simp: closing_def)
    then have "test_callbake_msgHandle 0 (cl s') \<noteq> None"
      using thread_defined [of "cl s'" 0] r' by (auto simp: sound_def pc_of_def)
    then show "\<exists>s''. step (Thread 0) s' s''" using step.business [of 0 s'] by blast
  next
    assume "svc s' = Waiting 0 \<and> pc_of s' = Exited"
    with r'(2) step.joined [of s' 0] show "\<exists>s''. step Service s' s'' \<and> svc s'' = Serving" by (fastforce simp: pc_of_def)
  qed
qed

text \<open>C36: Closing a connection before its thread has run never comes to an end: when the library reports
  the close (or the failed handshake) before the new thread executed its first assignment, the thread
  sets the run flag that the callback has reset, and the service thread waits for ever, whatever the
  other threads do.\<close>

theorem close_before_start_hangs:
  assumes "start_channel_services ctx (Some junk) (Some w) ok = Some (r, s0)" "ok 0"
    and "length junk = LWS_PRE + WS_TX_MAX_LEN"
  shows "\<exists>s. execution s0 [Service, Service, Thread 0] s \<and> svc s = Waiting 0 \<and> (\<forall>as s'. execution s as s' \<longrightarrow> svc s' = Waiting 0)"
proof -
  have "Some w \<noteq> None \<longrightarrow> ok 0" using assms(2) by simp
  note st = start_sound [OF assms(1) this assms(3)]
  let ?c = "client1 ctx junk (Some w)"
  let ?v = "slot1 (Some w)\<lparr>pthread_spam := 1, wsi_multi := None, established := False, pthread_state := PTHREAD_FILISH\<rparr>"
  let ?c2 = "?c\<lparr>ws_prot := ?v # [ws_null, ws_null]\<rparr>"
  let ?c3 = "set_pc 0 Top (?c2\<lparr>ws_prot := ?v\<lparr>pthread_state := PTHREAD_RUN\<rparr> # [ws_null, ws_null]\<rparr>)"
  have cl: "protocol_test_callback LWS_CALLBACK_CLIENT_CLOSED user [] 0 ?c = Some (Joining 0, ?c2)" for user
    by (rule closed_runs) (simp_all add: client1_def)
  have th: "test_callbake_msgHandle 0 ?c2 = Some ?c3"
    by (simp add: test_callbake_msgHandle_def client1_def put_prot_def)
  let ?s1 = "s0\<lparr>svc := Serving\<rparr>" let ?s2 = "?s1\<lparr>cl := ?c2, svc := Waiting 0\<rparr>" let ?s = "?s2\<lparr>cl := ?c3\<rparr>"
  have "step Service s0 ?s1" by (rule step.serve) (simp_all add: st(2))
  moreover have "step Service ?s1 ?s2"
    using step.callback [of ?s1 LWS_CALLBACK_CLIENT_CLOSED "[]" 0 "Joining 0" ?c2] cl
    by (simp add: st(2) lws_may_call_def answered_def after_callback_def client1_def slot1_def)
  moreover have "step (Thread 0) ?s2 ?s" using step.business [of 0 ?s2 ?c3] th by simp
  ultimately have run: "execution s0 [Service, Service, Thread 0] ?s" by (meson exec_Nil exec_Cons)
  note r = reached [OF assms run]
  have stuck: "svc s' = Waiting 0 \<and> run_flag s' = PTHREAD_RUN \<and> (pc_of s' = Top \<or> pc_of s' = Test)"
    if "execution s as s'" "sound s" "length (threads (cl s)) = 1" "svc s = Waiting 0 \<and> run_flag s = PTHREAD_RUN \<and> (pc_of s = Top \<or> pc_of s = Test)"
    for s as s'
    using that
  proof (induction rule: execution.induct)
    case (exec_Cons a s s' as s'')
    have "svc s' = Waiting 0 \<and> run_flag s' = PTHREAD_RUN \<and> (pc_of s' = Top \<or> pc_of s' = Test)"
      using waiting_steps [OF exec_Cons.hyps(1)] thread_while_waiting [of s "cl s'"] exec_Cons.prems
      by (auto simp: pc_of_def run_flag_def)
    with exec_Cons step_sound [OF exec_Cons.hyps(1)] step_threads [OF exec_Cons.hyps(1)] show ?case by simp
  qed simp
  have "run_flag ?s = PTHREAD_RUN" "pc_of ?s = Top" by (simp_all add: run_flag_def pc_of_def client1_def)
  with run stuck [OF _ r] show ?thesis by (intro exI [of _ ?s]) auto
qed

theorem close_before_start_hangs_witness:
  "\<exists>s. execution system1 [Service, Service, Thread 0] s \<and> svc s = Waiting 0"
  using close_before_start_hangs [OF started _ junk0_length] by auto

text \<open>The same start with the thread running first.\<close>

lemma closed_running:
  "\<exists>s. execution system1 [Service, Thread 0, Service] s \<and> svc s = Waiting 0 \<and> run_flag s = PTHREAD_FILISH \<and> pc_of s = Top"
proof -
  let ?c = "client1 None junk0 (Some 7)"
  let ?v = "slot1 (Some 7)\<lparr>pthread_spam := 1\<rparr>"
  let ?c1 = "set_pc 0 Top (?c\<lparr>ws_prot := ?v\<lparr>pthread_state := PTHREAD_RUN\<rparr> # [ws_null, ws_null]\<rparr>)"
  let ?c2 = "?c1\<lparr>ws_prot := ?v\<lparr>pthread_state := PTHREAD_RUN, wsi_multi := None, established := False, pthread_state := PTHREAD_FILISH\<rparr>
    # [ws_null, ws_null]\<rparr>"
  have th: "test_callbake_msgHandle 0 ?c = Some ?c1"
    by (simp add: test_callbake_msgHandle_def client1_def put_prot_def)
  have cl: "protocol_test_callback LWS_CALLBACK_CLIENT_CLOSED user [] 0 ?c1 = Some (Joining 0, ?c2)" for user
    by (rule closed_runs) (simp_all add: client1_def)
  let ?s1 = "system1\<lparr>svc := Serving\<rparr>" let ?s2 = "?s1\<lparr>cl := ?c1\<rparr>" let ?s = "?s2\<lparr>cl := ?c2, svc := Waiting 0\<rparr>"
  have "step Service system1 ?s1" by (rule step.serve) (simp_all add: system1_def)
  moreover have "step (Thread 0) ?s1 ?s2" using step.business [of 0 ?s1 ?c1] th by (simp add: system1_def)
  moreover have "step Service ?s2 ?s"
    using step.callback [of ?s2 LWS_CALLBACK_CLIENT_CLOSED "[]" 0 "Joining 0" ?c2] cl
    by (simp add: system1_def lws_may_call_def answered_def after_callback_def client1_def slot1_def)
  ultimately have "execution system1 [Service, Thread 0, Service] ?s" by (meson exec_Nil exec_Cons)
  then show ?thesis by (intro exI [of _ ?s]) (simp add: run_flag_def pc_of_def client1_def)
qed

theorem close_ends_witness:
  "\<exists>s s''. execution system1 [Service, Thread 0, Service] s \<and> svc s = Waiting 0 \<and> step (Thread 0) s s''"
proof -
  obtain s where s: "execution system1 [Service, Thread 0, Service] s" "svc s = Waiting 0" "run_flag s = PTHREAD_FILISH" "pc_of s = Top"
    using closed_running by blast
  from close_ends [OF started _ junk0_length s(1-3) _ exec_Nil] s show ?thesis by auto
qed

text \<open>
  After the connection was closed while the thread was about to release its flow control, the thread
  hands a null connection to the library.
\<close>

lemma flow_after_close:
  assumes "ws_prot c = vhd # r" "wsi_multi vhd = None" "t < length (threads c)" "threads c ! t = (0, Flow)"
  shows "test_callbake_msgHandle t c = None"
  using assms by (simp add: test_callbake_msgHandle_def)

end
