(* ===== verification/ConfMain.thy ===== *)
theory ConfMain
  imports WsDataflow
begin

text \<open>
  The configuration, \<open>config/conf_main.cpp\<close>: reading the file into a buffer, parsing it, and taking the
  fields of the device and of its parameters out of the tree.  The second half shows that the
  walk over the linked tree is the walk over the JSON value the tree represents.
\<close>

section \<open>The code\<close>

subsection \<open>Reading the file\<close>

definition FILE_BUF_SIZE :: nat where "FILE_BUF_SIZE = 1024 * 1024 * 20"

text \<open>
  An open stream: what is left to read, and whether reads fail (as on a directory, which \<open>fopen\<close>
  opens for reading).  A failing read delivers nothing and does not set the end of file.
\<close>

record stream =
  rest :: string
  failing :: bool

definition fread :: "nat \<Rightarrow> stream \<Rightarrow> string \<times> bool \<times> stream" where
  "fread n f = (if failing f then ([], False, f)
     else (take n (rest f), length (rest f) < n, f\<lparr>rest := drop n (rest f)\<rparr>))"

text \<open>
  The loop reads pieces of at most 4096 bytes until the end of file or of the buffer; a loop that does
  not end has no result.  The result is the buffer and whether the end was seen.
\<close>

partial_function (option) read_loop :: "nat \<Rightarrow> string \<Rightarrow> nat \<Rightarrow> bool \<Rightarrow> stream \<Rightarrow> (string \<times> bool) option" where
  "read_loop pe buf ps eof f =
     (if \<not> eof \<and> ps < pe then do {
        let r = min (1024 * 4) (pe - ps);
        let (bytes, eof', f') = fread r f;
        buf' \<leftarrow> splice_opt buf ps bytes;
        read_loop pe buf' (ps + length bytes) eof' f'
      } else Some (buf, eof))"

text \<open>
  \<open>load_json_file\<close>: the buffer \<open>junk\<close> is what \<open>malloc\<close> handed out; nothing terminates the text in
  it.  A parse error is logged with the buffer as a string.
\<close>

definition load_json_file :: "string option \<Rightarrow> stream option \<Rightarrow> heap \<Rightarrow> (addr \<times> heap) option" where
  "load_json_file buf file h =
     (case buf of None \<Rightarrow> Some (0, h)
      | Some junk \<Rightarrow> (case file of None \<Rightarrow> Some (0, h)
          | Some f \<Rightarrow> do {
              (text, eof) \<leftarrow> read_loop (length junk) junk 0 False f;
              (if \<not> eof then Some (0, h)
               else do {
                 (json, h) \<leftarrow> cJSON_Parse (Ptr text) h;
                 (if json = 0 then do { logged \<leftarrow> c_str text; Some (0, h) } else Some (json, h))
               })
            }))"

subsection \<open>Taking the fields\<close>

definition copy_string :: "nat \<Rightarrow> cJSON \<Rightarrow> heap \<Rightarrow> string option" where  \<comment> \<open>\<open>strncpy\<close> of the value string\<close>
  "copy_string n item h = map_option (strncpy_field n) (ld_str (j_valuestring item) h)"

definition name_is :: "string \<Rightarrow> string option \<Rightarrow> bool" where
  "name_is s nm \<longleftrightarrow> cJSON_strcasecmp (Some s) nm = 0"

definition info_field :: "string option \<Rightarrow> cJSON \<Rightarrow> heap \<Rightarrow> hw_info_t \<Rightarrow> hw_info_t option" where
  "info_field nm n h i =
     (if name_is ''id'' nm then map_option (\<lambda>s. i\<lparr>i_id := s\<rparr>) (copy_string 64 n h)
      else if name_is ''name'' nm then map_option (\<lambda>s. i\<lparr>i_name := s\<rparr>) (copy_string 64 n h)
      else if name_is ''disable'' nm then Some (i\<lparr>disable := (j_type n = cJSON_True)\<rparr>)
      else if name_is ''time'' nm then map_option (\<lambda>s. i\<lparr>i_time := s\<rparr>) (copy_string 64 n h)
      else Some i)"

text \<open>\<open>for (next = json->child; next; next = next->next)\<close> with a body that updates a state.\<close>

partial_function (option) each_child ::
  "(string option \<Rightarrow> cJSON \<Rightarrow> heap \<Rightarrow> 's \<Rightarrow> 's option) \<Rightarrow> addr \<Rightarrow> heap \<Rightarrow> 's \<Rightarrow> 's option" where
  "each_child f c h s =
     (if c = 0 then Some s
      else do {
        n \<leftarrow> ld c h;
        nm \<leftarrow> ld_nstr (j_string n) h;
        s' \<leftarrow> f nm n h s;
        each_child f (j_next n) h s'
      })"

declare each_child.simps [code]

definition cJSON_ParseObjectInfo :: "addr \<Rightarrow> heap \<Rightarrow> hw_info_t option \<Rightarrow> hw_info_t option option" where
  "cJSON_ParseObjectInfo json h pinfo =
     (case pinfo of None \<Rightarrow> Some None
      | Some i \<Rightarrow> if json = 0 then Some (Some i)
          else do { n \<leftarrow> ld json h; map_option Some (each_child info_field (j_child n) h i) })"

text \<open>At most two numbers of a range.\<close>

fun range_loop :: "nat \<Rightarrow> nat \<Rightarrow> addr \<Rightarrow> heap \<Rightarrow> int list \<Rightarrow> int list option" where
  "range_loop 0 i c h xs = Some xs"
| "range_loop (Suc k) i c h xs =
     (if c = 0 then Some xs
      else do { n \<leftarrow> ld c h; xs' \<leftarrow> upd_opt xs i (j_valueint n); range_loop k (Suc i) (j_next n) h xs' })"

definition param_field :: "string option \<Rightarrow> cJSON \<Rightarrow> heap \<Rightarrow> hw_cache_t \<Rightarrow> hw_cache_t option" where
  "param_field nm n h p =
     (if name_is ''kks'' nm then map_option (\<lambda>s. p\<lparr>kks := s\<rparr>) (copy_string 64 n h)
      else if name_is ''vtype'' nm then do {
        v \<leftarrow> ld_nstr (j_valuestring n) h; t \<leftarrow> get_hw_type_by_name v; Some (p\<lparr>val_type := t\<rparr>) }
      else if name_is ''zone'' nm then map_option (\<lambda>s. p\<lparr>zone := s\<rparr>) (copy_string 64 n h)
      else if name_is ''ref'' nm then map_option (\<lambda>s. p\<lparr>p_ref := s\<rparr>) (copy_string 128 n h)
      else if name_is ''port'' nm then Some (p\<lparr>gpio_io := nat (j_valueint n mod 65536)\<rparr>)
      else if name_is ''rangeI'' nm then map_option (\<lambda>r. p\<lparr>rangeI := r\<rparr>) (range_loop 2 0 (j_child n) h (rangeI p))
      else if name_is ''rangeD'' nm then map_option (\<lambda>r. p\<lparr>rangeD := r\<rparr>) (range_loop 2 0 (j_child n) h (rangeD p))
      else Some p)"

definition cJSON_ParseParamInfo :: "addr \<Rightarrow> heap \<Rightarrow> hw_cache_t option \<Rightarrow> hw_cache_t option option" where
  "cJSON_ParseParamInfo json h pval =
     (case pval of None \<Rightarrow> Some None
      | Some p \<Rightarrow> if json = 0 then Some (Some p)
          else do { n \<leftarrow> ld json h; map_option Some (each_child param_field (j_child n) h p) })"

text \<open>The parameters in the order of the file, as many as there are channels.\<close>

fun params_loop :: "addr \<Rightarrow> heap \<Rightarrow> hw_cache_t list \<Rightarrow> hw_cache_t list option" where
  "params_loop c h [] = Some []"
| "params_loop c h (p # ps) =
     (if c = 0 then Some (p # ps)
      else do {
        p' \<leftarrow> cJSON_ParseParamInfo c h (Some p);
        p' \<leftarrow> p';
        n \<leftarrow> ld c h;
        ps' \<leftarrow> params_loop (j_next n) h ps;
        Some (p' # ps')
      })"

definition main_field :: "string option \<Rightarrow> cJSON \<Rightarrow> heap \<Rightarrow> hardware \<Rightarrow> hardware option" where
  "main_field nm n h hw =
     (if name_is ''params'' nm
      then map_option (\<lambda>ps. hw\<lparr>pCache := ps @ drop (nChNum hw) (pCache hw)\<rparr>) (params_loop (j_child n) h (take (nChNum hw) (pCache hw)))
      else Some hw)"

definition cJSON_ParseMainInfo :: "addr \<Rightarrow> heap \<Rightarrow> hardware \<Rightarrow> hardware option" where
  "cJSON_ParseMainInfo json h hw =
     (if json = 0 then Some hw
      else do {
        i \<leftarrow> cJSON_ParseObjectInfo json h (Some (hwInfo hw));
        i \<leftarrow> i;
        n \<leftarrow> ld json h;
        each_child main_field (j_child n) h (hw\<lparr>hwInfo := i\<rparr>)
      })"

definition load_configuration :: "string option \<Rightarrow> stream option \<Rightarrow> heap \<Rightarrow> hardware \<Rightarrow> (int \<times> hardware \<times> heap) option" where
  "load_configuration buf file h hw = do {
     (json, h) \<leftarrow> load_json_file buf file h;
     (if json \<noteq> 0 then do {
        hw \<leftarrow> cJSON_ParseMainInfo json h hw;
        h \<leftarrow> cJSON_Delete json h;
        Some (0, hw, h)
      } else Some (- 1, hw, h))
   }"

definition CONF_PATH :: string where "CONF_PATH = ''./1.RunEnv/config/dev/''"
definition CONF_NAME :: string where "CONF_NAME = ''dev_main''"
definition CONF_EXT :: string where "CONF_EXT = ''json''"

text \<open>The file system maps the name to what \<open>fopen\<close> gives.\<close>

definition conf_main_init :: "string option \<Rightarrow> (string \<Rightarrow> stream option) \<Rightarrow> heap \<Rightarrow> hardware \<Rightarrow> (int \<times> hardware \<times> heap) option" where
  "conf_main_init buf fs h hw = do {
     w \<leftarrow> emit_str (CONF_PATH @ CONF_NAME @ ''.'' @ CONF_EXT) (256, []);
     (r, hw, h) \<leftarrow> load_configuration buf (fs (snd w)) h hw;
     Some (if r < 0 then - 1 else 0, hw, h)
   }"

section \<open>Reading the file: when it ends\<close>

lemma read_loop_step:
  assumes "\<not> failing f" "ps < pe" "length buf = pe" "r = min 4096 (pe - ps)" "r \<le> length (rest f)"
  shows "read_loop pe buf ps False f
    = read_loop pe (take ps buf @ take r (rest f) @ drop (ps + r) buf) (ps + r) False (f\<lparr>rest := drop r (rest f)\<rparr>)"
proof -
  have "length (take r (rest f)) = r" using assms(5) by simp
  moreover have "\<not> length (rest f) < r" "ps + r \<le> pe" using assms by auto
  ultimately show ?thesis using assms(1-3)
    by (subst read_loop.simps) (simp add: fread_def splice_opt_def assms(4) [symmetric] Let_def)
qed

lemma read_loop_end:
  assumes "\<not> failing f" "ps < pe" "length buf = pe" "length (rest f) < min 4096 (pe - ps)"
  shows "read_loop pe buf ps False f = Some (take ps buf @ rest f @ drop (ps + length (rest f)) buf, True)"
proof -
  have "take (min 4096 (pe - ps)) (rest f) = rest f" using assms(4) by (intro take_all) simp
  moreover have "read_loop pe b k True g = Some (b, True)" for b k g by (subst read_loop.simps) simp
  moreover have "ps + length (rest f) \<le> pe" using assms(2,4) by linarith
  ultimately show ?thesis using assms
    by (subst read_loop.simps) (simp add: fread_def splice_opt_def Let_def)
qed

lemma read_loop_regular:
  assumes "\<not> failing f" "ps + length (rest f) < pe" "length buf = pe"
  shows "read_loop pe buf ps False f = Some (take ps buf @ rest f @ drop (ps + length (rest f)) buf, True)"
  using assms
proof (induction "length (rest f)" arbitrary: ps buf f rule: less_induct)
  case less
  define r where "r = min 4096 (pe - ps)"
  show ?case
  proof (cases "length (rest f) < r")
    case True
    with less.prems show ?thesis by (intro read_loop_end) (auto simp: r_def)
  next
    case False
    let ?buf = "take ps buf @ take r (rest f) @ drop (ps + r) buf" and ?f = "f\<lparr>rest := drop r (rest f)\<rparr>"
    have r: "0 < r" "r \<le> length (rest f)" using less.prems leI [OF False] by (simp add: r_def, blast)
    have "read_loop pe buf ps False f = read_loop pe ?buf (ps + r) False ?f"
      by (rule read_loop_step) (use less.prems r r_def in auto)
    also have "\<dots> = Some (take (ps + r) ?buf @ rest ?f @ drop (ps + r + length (rest ?f)) ?buf, True)"
      by (rule less.hyps) (use less.prems r in auto)
    also have "take (ps + r) ?buf = take ps buf @ take r (rest f)" using less.prems r by simp
    also have "drop (ps + r + length (rest ?f)) ?buf = drop (ps + length (rest f)) buf"
      using less.prems r by (simp add: ac_simps)
    finally show ?thesis by simp
  qed
qed

lemma read_loop_large:
  assumes "\<not> failing f" "pe \<le> ps + length (rest f)" "ps \<le> pe" "length buf = pe"
  shows "read_loop pe buf ps False f = Some (take ps buf @ take (pe - ps) (rest f), False)"
  using assms
proof (induction "length (rest f)" arbitrary: ps buf f rule: less_induct)
  case less
  define r where "r = min 4096 (pe - ps)"
  show ?case
  proof (cases "ps = pe")
    case True
    with less.prems show ?thesis by (subst read_loop.simps) simp
  next
    case False
    let ?buf = "take ps buf @ take r (rest f) @ drop (ps + r) buf" and ?f = "f\<lparr>rest := drop r (rest f)\<rparr>"
    have r: "0 < r" "r \<le> length (rest f)" "r \<le> pe - ps" using False less.prems by (simp_all add: r_def)
    have "read_loop pe buf ps False f = read_loop pe ?buf (ps + r) False ?f"
      by (rule read_loop_step) (use less.prems r r_def False in auto)
    also have "\<dots> = Some (take (ps + r) ?buf @ take (pe - (ps + r)) (rest ?f), False)"
      by (rule less.hyps) (use less.prems r in auto)
    also have "take (ps + r) ?buf = take ps buf @ take r (rest f)" using less.prems r by simp
    also have "(take ps buf @ take r (rest f)) @ take (pe - (ps + r)) (rest ?f) = take ps buf @ take (pe - ps) (rest f)"
    proof -
      have "r + (pe - (ps + r)) = pe - ps" using r(3) by linarith
      then show ?thesis using take_add [of r "pe - (ps + r)" "rest f"] by simp
    qed
    finally show ?thesis .
  qed
qed

lemma read_loop_failing:
  assumes "failing f" "length buf = pe" "ps < pe"
  shows "read_loop pe buf ps False f = None"
proof -
  let ?P = "\<lambda>pe buf ps eof f (y :: string \<times> bool). failing f \<and> length buf = pe \<and> ps < pe \<longrightarrow> eof"
  have "?P pe buf ps eof f y" if "read_loop pe buf ps eof f = Some y" for eof y
  proof (rule read_loop.raw_induct [where P = ?P, OF _ that])
    fix loop :: "nat \<Rightarrow> string \<Rightarrow> nat \<Rightarrow> bool \<Rightarrow> stream \<Rightarrow> (string \<times> bool) option" and pe buf ps eof f y
    assume IH: "\<And>pe buf ps eof f y. loop pe buf ps eof f = Some y \<Longrightarrow> ?P pe buf ps eof f y"
      and run: "(if \<not> eof \<and> ps < pe then let r = min (1024 * 4) (pe - ps); (bytes, eof', f') = fread r f
         in splice_opt buf ps bytes \<bind> (\<lambda>buf'. loop pe buf' (ps + length bytes) eof' f') else Some (buf, eof)) = Some y"
    have "loop pe buf ps False f = Some y" if "failing f" "length buf = pe" "ps < pe" "\<not> eof"
      using run that by (simp add: fread_def splice_opt_def Let_def)
    with IH show "?P pe buf ps eof f y" by blast
  qed
  with assms show ?thesis by (cases "read_loop pe buf ps False f") auto
qed

text \<open>C29: Reading the configuration file ends on every regular file: a file shorter than the buffer is
  read whole to the front of the buffer, the bytes behind it staying what they were (nothing
  terminates the text), a longer one is reported as too large; on a stream whose reads fail (a
  directory) the loop never ends, since an error does not set the end of file.\<close>

theorem config_file_read:
  assumes "junk \<noteq> []"
  shows "read_loop (length junk) junk 0 False f
    = (if failing f then None
       else if length (rest f) < length junk then Some (rest f @ drop (length (rest f)) junk, True)
       else Some (take (length junk) (rest f), False))"
  using read_loop_failing [of f junk "length junk" 0] read_loop_regular [of f 0 "length junk" junk]
    read_loop_large [of f "length junk" 0 junk] assms
  by simp

theorem config_file_read_witness:
  "read_loop 3 ''xyz'' 0 False \<lparr>rest = ''{}'', failing = False\<rparr> = Some (''{}z'', True)"
  using config_file_read [of "''xyz''" "\<lparr>rest = ''{}'', failing = False\<rparr>"] by (simp add: eval_nat_numeral)

section \<open>The walk over the value\<close>

text \<open>Members one after the other, stopping where the field is not of the kind the code expects.\<close>

primrec fold_members :: "(string \<Rightarrow> json \<Rightarrow> 's \<Rightarrow> 's option) \<Rightarrow> (string \<times> json) list \<Rightarrow> 's \<Rightarrow> 's option" where
  "fold_members g [] s = Some s"
| "fold_members g (m # ms) s = g (fst m) (snd m) s \<bind> fold_members g ms"

definition text_field :: "nat \<Rightarrow> json \<Rightarrow> string option" where
  "text_field n j = (case j of JStr s \<Rightarrow> Some (strncpy_field n s) | _ \<Rightarrow> None)"

definition info_member :: "string \<Rightarrow> json \<Rightarrow> hw_info_t \<Rightarrow> hw_info_t option" where
  "info_member k j i =
     (if name_is ''id'' (Some k) then map_option (\<lambda>s. i\<lparr>i_id := s\<rparr>) (text_field 64 j)
      else if name_is ''name'' (Some k) then map_option (\<lambda>s. i\<lparr>i_name := s\<rparr>) (text_field 64 j)
      else if name_is ''disable'' (Some k) then Some (i\<lparr>disable := (j = JTrue)\<rparr>)
      else if name_is ''time'' (Some k) then map_option (\<lambda>s. i\<lparr>i_time := s\<rparr>) (text_field 64 j)
      else Some i)"

fun set_range :: "nat \<Rightarrow> nat \<Rightarrow> json list \<Rightarrow> int list \<Rightarrow> int list option" where
  "set_range 0 i js xs = Some xs"
| "set_range (Suc k) i [] xs = Some xs"
| "set_range (Suc k) i (j # js) xs =
     (case j of JNum v d \<Rightarrow> do { xs' \<leftarrow> upd_opt xs i v; set_range k (Suc i) js xs' } | _ \<Rightarrow> None)"

definition range_field :: "json \<Rightarrow> int list \<Rightarrow> int list option" where
  "range_field j xs = (case j of JArr js \<Rightarrow> set_range 2 0 js xs | _ \<Rightarrow> None)"

definition param_member :: "string \<Rightarrow> json \<Rightarrow> hw_cache_t \<Rightarrow> hw_cache_t option" where
  "param_member k j p =
     (if name_is ''kks'' (Some k) then map_option (\<lambda>s. p\<lparr>kks := s\<rparr>) (text_field 64 j)
      else if name_is ''vtype'' (Some k) then
        (case j of JStr s \<Rightarrow> map_option (\<lambda>t. p\<lparr>val_type := t\<rparr>) (get_hw_type_by_name (Some s)) | _ \<Rightarrow> None)
      else if name_is ''zone'' (Some k) then map_option (\<lambda>s. p\<lparr>zone := s\<rparr>) (text_field 64 j)
      else if name_is ''ref'' (Some k) then map_option (\<lambda>s. p\<lparr>p_ref := s\<rparr>) (text_field 128 j)
      else if name_is ''port'' (Some k) then
        (case j of JNum i d \<Rightarrow> Some (p\<lparr>gpio_io := nat (i mod 65536)\<rparr>) | _ \<Rightarrow> None)
      else if name_is ''rangeI'' (Some k) then map_option (\<lambda>r. p\<lparr>rangeI := r\<rparr>) (range_field j (rangeI p))
      else if name_is ''rangeD'' (Some k) then map_option (\<lambda>r. p\<lparr>rangeD := r\<rparr>) (range_field j (rangeD p))
      else Some p)"

fun set_params :: "json list \<Rightarrow> hw_cache_t list \<Rightarrow> hw_cache_t list option" where
  "set_params js [] = Some []"
| "set_params [] (p # ps) = Some (p # ps)"
| "set_params (j # js) (p # ps) =
     (case j of JObj ms \<Rightarrow> do { p' \<leftarrow> fold_members param_member ms p; ps' \<leftarrow> set_params js ps; Some (p' # ps') }
      | _ \<Rightarrow> None)"

definition main_member :: "string \<Rightarrow> json \<Rightarrow> hardware \<Rightarrow> hardware option" where
  "main_member k j hw =
     (if name_is ''params'' (Some k)
      then (case j of JArr js \<Rightarrow>
          map_option (\<lambda>ps. hw\<lparr>pCache := ps @ drop (nChNum hw) (pCache hw)\<rparr>) (set_params js (take (nChNum hw) (pCache hw)))
        | _ \<Rightarrow> None)
      else Some hw)"

definition configure :: "(string \<times> json) list \<Rightarrow> hardware \<Rightarrow> hardware option" where
  "configure ms hw = do {
     i \<leftarrow> fold_members info_member ms (hwInfo hw);
     fold_members main_member ms (hw\<lparr>hwInfo := i\<rparr>)
   }"

subsection \<open>Nodes that hold a value\<close>

definition node_holds :: "heap \<Rightarrow> cJSON \<Rightarrow> json \<Rightarrow> bool" where
  "node_holds h n j \<longleftrightarrow> (\<exists>p q t. n = node_of p q t \<and> jrep j t \<and> seg (mem h) p [t] q)"

lemma holds_str: "node_holds h n (JStr s) \<Longrightarrow> ld_str (j_valuestring n) h = Some s \<and> ld_nstr (j_valuestring n) h = Some (Some s)"
proof -
  assume "node_holds h n (JStr s)"
  then obtain p q t where t: "n = node_of p q t" "jrep (JStr s) t" "seg (mem h) p [t] q" by (auto simp: node_holds_def)
  then show ?thesis by (cases t) (auto simp: ld_nstr_def ld_str_def)
qed

lemma holds_num: "node_holds h n (JNum i d) \<Longrightarrow> j_valueint n = i"
  unfolding node_holds_def using jrep_own by fastforce

lemma holds_true: "node_holds h n j \<Longrightarrow> j_type n = cJSON_True \<longleftrightarrow> j = JTrue"
proof -
  assume "node_holds h n j"
  then obtain p q t where t: "n = node_of p q t" "jrep j t" by (auto simp: node_holds_def)
  then show ?thesis by (cases t; cases j) (auto simp: cJSON_types)
qed

lemma holds_arr: "node_holds h n (JArr js) \<Longrightarrow> \<exists>ks. j_child n = first ks 0 \<and> seg (mem h) 0 ks 0 \<and> jreps js ks"
proof -
  assume "node_holds h n (JArr js)"
  then obtain p q t where t: "n = node_of p q t" "jrep (JArr js) t" "seg (mem h) p [t] q" by (auto simp: node_holds_def)
  then show ?thesis by (cases t) auto
qed

lemma holds_obj: "node_holds h n (JObj ms) \<Longrightarrow> \<exists>ks. j_child n = first ks 0 \<and> seg (mem h) 0 ks 0 \<and> jmems ms ks"
proof -
  assume "node_holds h n (JObj ms)"
  then obtain p q t where t: "n = node_of p q t" "jrep (JObj ms) t" "seg (mem h) p [t] q" by (auto simp: node_holds_def)
  then show ?thesis by (cases t) auto
qed

text \<open>The first node of a sibling list.\<close>

lemma seg_first:
  assumes "seg (mem h) p (t # ts) 0" "jrep j t"
  shows "ld (jaddr t) h = Some (node_of p (first ts 0) t)" "jaddr t \<noteq> 0" "node_holds h (node_of p (first ts 0) t) j"
    "j_next (node_of p (first ts 0) t) = first ts 0" "seg (mem h) (jaddr t) ts 0"
proof -
  have "seg (mem h) p ([t] @ ts) 0" using assms(1) by simp
  then have s: "seg (mem h) p [t] (first ts 0)" unfolding seg_append by blast
  note n = seg_Cons_node [OF assms(1)]
  show "ld (jaddr t) h = Some (node_of p (first ts 0) t)" "jaddr t \<noteq> 0" "seg (mem h) (jaddr t) ts 0"
    using n by (simp_all add: ld_Node)
  show "node_holds h (node_of p (first ts 0) t) j" using assms(2) s unfolding node_holds_def by blast
  show "j_next (node_of p (first ts 0) t) = first ts 0" by (cases t) simp_all
qed

lemma each_child_refines:
  assumes body: "\<And>k n j s s'. node_holds h n j \<Longrightarrow> g k j s = Some s' \<Longrightarrow> f (Some k) n h s = Some s'"
  shows "seg (mem h) p ts 0 \<Longrightarrow> jmems ms ts \<Longrightarrow> fold_members g ms s = Some s' \<Longrightarrow> each_child f (first ts 0) h s = Some s'"
proof (induction ms arbitrary: ts p s)
  case Nil
  then show ?case by (simp add: each_child.simps)
next
  case (Cons m ms)
  from Cons.prems(2) obtain t ts' where ts: "ts = t # ts'" "key_of t = Some (fst m)" "jrep (snd m) t" "jmems ms ts'"
    by (cases m) (auto simp: key_of_def split: list.splits)
  from Cons.prems(3) obtain s1 where s1: "g (fst m) (snd m) s = Some s1" "fold_members g ms s1 = Some s'"
    by (auto simp: bind_eq_Some_conv)
  note n = seg_first [OF Cons.prems(1) [unfolded ts(1)] ts(3)]
  have nm: "j_string (node_of p (first ts' 0) t) = ladr (jname t)" by (cases t) simp_all
  have "ld_nstr (j_string (node_of p (first ts' 0) t)) h = Some (Some (fst m))"
    using seg_ld_name [OF Cons.prems(1) [unfolded ts(1)]] ts(2) unfolding nm by simp
  with n Cons.IH [OF n(5) ts(4) s1(2)] body [OF n(3) s1(1)] show ?case
    unfolding ts(1) by (subst each_child.simps) simp
qed

lemma copy_string_text: "node_holds h n j \<Longrightarrow> text_field k j = Some s \<Longrightarrow> copy_string k n h = Some s"
  using holds_str by (auto simp: text_field_def copy_string_def split: json.splits)

lemma info_field_refines:
  "node_holds h n j \<Longrightarrow> info_member k j i = Some i' \<Longrightarrow> info_field (Some k) n h i = Some i'"
  using holds_true [of h n j] by (auto simp: info_member_def info_field_def copy_string_text split: if_splits)

lemma range_loop_refines:
  "seg (mem h) p ks 0 \<Longrightarrow> jreps js ks \<Longrightarrow> set_range k i js xs = Some xs' \<Longrightarrow> range_loop k i (first ks 0) h xs = Some xs'"
proof (induction k i js xs arbitrary: p ks rule: set_range.induct)
  case (3 k i j js xs)
  then obtain t ks' where ks: "ks = t # ks'" "jrep j t" "jreps js ks'" by (auto split: list.splits)
  note n = seg_first [OF 3(2) [unfolded ks(1)] ks(2)]
  from 3(4) obtain v d where j: "j = JNum v d" by (auto split: json.splits)
  from holds_num [OF n(3) [unfolded j]] have "j_valueint (node_of p (first ks' 0) t) = v" .
  with 3 j ks n show ?case by (auto simp: bind_eq_Some_conv)
qed simp_all

lemma range_field_refines:
  "node_holds h n j \<Longrightarrow> range_field j xs = Some xs' \<Longrightarrow> range_loop 2 0 (j_child n) h xs = Some xs'"
  using holds_arr [of h n] range_loop_refines by (fastforce simp: range_field_def split: json.splits)

lemma param_field_refines:
  assumes "node_holds h n j" "param_member k j p = Some p'"
  shows "param_field (Some k) n h p = Some p'"
  using assms holds_str [of h n] holds_num [of h n]
  by (auto simp: param_member_def param_field_def copy_string_text range_field_refines split: if_splits json.splits)

lemma param_info_refines:
  assumes "ld c h = Some n" "c \<noteq> 0" "node_holds h n (JObj ms)" "fold_members param_member ms p = Some p'"
  shows "cJSON_ParseParamInfo c h (Some p) = Some (Some p')"
proof -
  from holds_obj [OF assms(3)] obtain ks where "j_child n = first ks 0" "seg (mem h) 0 ks 0" "jmems ms ks" by blast
  with each_child_refines [of h param_member param_field 0 ks ms p p', OF param_field_refines _ _ assms(4)] assms(1,2)
  show ?thesis by (simp add: cJSON_ParseParamInfo_def)
qed

lemma params_loop_refines:
  "seg (mem h) p ks 0 \<Longrightarrow> jreps js ks \<Longrightarrow> set_params js ps = Some ps' \<Longrightarrow> params_loop (first ks 0) h ps = Some ps'"
proof (induction js ps arbitrary: p ks ps' rule: set_params.induct)
  case (3 j js q ps)
  then obtain t ks' where ks: "ks = t # ks'" "jrep j t" "jreps js ks'" by (auto split: list.splits)
  note n = seg_first [OF 3(2) [unfolded ks(1)] ks(2)]
  from 3(4) obtain ms q' qs' where j: "j = JObj ms" "fold_members param_member ms q = Some q'" "set_params js ps = Some qs'" "ps' = q' # qs'"
    by (auto simp: bind_eq_Some_conv split: json.splits)
  have "params_loop (first ks' 0) h ps = Some qs'" by (rule "3.IH" [OF j(1,2) n(5) ks(3) j(3)])
  with param_info_refines [OF n(1,2) _ j(2)] n j ks(1) show ?case by simp
qed auto

lemma main_field_refines:
  assumes "node_holds h n j" "main_member k j hw = Some hw'"
  shows "main_field (Some k) n h hw = Some hw'"
proof (cases "name_is ''params'' (Some k)")
  case True
  with assms(2) obtain js ps where j: "j = JArr js" "set_params js (take (nChNum hw) (pCache hw)) = Some ps"
    "hw' = hw\<lparr>pCache := ps @ drop (nChNum hw) (pCache hw)\<rparr>"
    by (auto simp: main_member_def split: json.splits)
  with holds_arr [of h n js] assms(1) params_loop_refines True show ?thesis by (fastforce simp: main_field_def)
qed (use assms in \<open>simp add: main_member_def main_field_def\<close>)

lemma main_info_refines:
  assumes "seg (mem h) 0 [t] 0" "jrep (JObj ms) t" "configure ms hw = Some hw'"
  shows "cJSON_ParseMainInfo (jaddr t) h hw = Some hw'"
proof -
  note n = seg_first [OF assms(1,2)]
  from holds_obj [OF n(3)] obtain ks where k: "j_child (node_of 0 (first [] 0) t) = first ks 0" "seg (mem h) 0 ks 0" "jmems ms ks" by blast
  from assms(3) obtain i where i: "fold_members info_member ms (hwInfo hw) = Some i" "fold_members main_member ms (hw\<lparr>hwInfo := i\<rparr>) = Some hw'"
    by (auto simp: configure_def bind_eq_Some_conv)
  from each_child_refines [of h info_member info_field, OF info_field_refines k(2,3) i(1)]
    each_child_refines [of h main_member main_field, OF main_field_refines k(2,3) i(2)] n k(1)
  show ?thesis by (simp add: cJSON_ParseMainInfo_def cJSON_ParseObjectInfo_def)
qed

lemma load_runs:
  assumes "heap_ok h" "roomy h" "length content < length junk"
    and "skip_text (content @ drop (length content) junk) = Some s0" "jvalue True s0 (JObj ms) r"
    and "configure ms hw = Some hw'"
  shows "(\<exists>h'. load_configuration (Some junk) (Some \<lparr>rest = content, failing = False\<rparr>) h hw = Some (0, hw', h') \<and> mem h' = mem h)
    \<and> load_configuration (Some junk) None h hw = Some (- 1, hw, h)
    \<and> load_configuration (Some content) (Some \<lparr>rest = content, failing = False\<rparr>) h hw = Some (- 1, hw, h)"
proof -
  let ?s = "content @ drop (length content) junk"
  have "junk \<noteq> []" using assms(3) by auto
  with read_loop_regular [of "\<lparr>rest = content, failing = False\<rparr>" 0 "length junk" junk] assms(3)
  have rd: "read_loop (length junk) junk 0 False \<lparr>rest = content, failing = False\<rparr> = Some (?s, True)" by simp
  from cJSON_ParseWithOpts_complete [OF assms(1,2,4,5)] obtain c h1 t where
    c: "cJSON_ParseWithOpts (Ptr ?s) False h = Some (c, Some (Ptr r), h1)" "c \<noteq> 0" "seg (mem h1) 0 [t] 0"
      "grow {} (foot [t]) h h1" "jaddr t = c" "jrep (JObj ms) t" by blast
  from grow_delete [OF assms(1) c(4,3)] c(5) obtain h2 where h2: "cJSON_Delete c h1 = Some h2" "mem h2 = mem h" by auto
  from main_info_refines [OF c(3,6) assms(6)] c(5) have m: "cJSON_ParseMainInfo c h1 hw = Some hw'" by simp
  have p: "cJSON_Parse (Ptr ?s) h = Some (c, h1)" using c(1) by (simp add: cJSON_Parse_def)
  have "load_configuration (Some junk) (Some \<lparr>rest = content, failing = False\<rparr>) h hw = Some (0, hw', h2)"
    using rd p c(2) m h2(1) by (simp add: load_configuration_def load_json_file_def)
  moreover have "read_loop (length content) content 0 False \<lparr>rest = content, failing = False\<rparr> = Some (content, False)"
    using read_loop_large [of "\<lparr>rest = content, failing = False\<rparr>" "length content" 0 content] by simp
  ultimately show ?thesis using h2(2) by (simp add: load_configuration_def load_json_file_def)
qed


text \<open>Whatever the file holds, a load that returns gives back the memory it took.\<close>

lemma load_json_file_sound:
  assumes "heap_ok h" "roomy h" "load_json_file buf file h = Some (c, h1)"
  shows "heap_ok h1 \<and> roomy h1 \<and> (if c = 0 then mem h1 = mem h
    else \<exists>t. jaddr t = c \<and> grow {} (foot [t]) h h1 \<and> seg (mem h1) 0 [t] 0)"
proof (cases "c = 0 \<and> h1 = h")
  case False
  with assms(3) obtain w c1 where p: "cJSON_Parse (Ptr w) h = Some (c1, h1)" "c = c1"
    by (auto simp: load_json_file_def bind_Some_iff split: option.splits if_splits)
  then obtain e where "cJSON_ParseWithOpts (Ptr w) False h = Some (c, e, h1)"
    by (auto simp: cJSON_Parse_def bind_Some_iff)
  from cJSON_ParseWithOpts_sound [OF assms(1) this] assms(2) show ?thesis
    by (auto simp: parsed_def split: if_splits)
qed (use assms in simp)

lemma conf_main_init_memory:
  assumes "heap_ok h" "roomy h" "conf_main_init buf fs h hw = Some (rc, hw', h')"
  shows "heap_ok h' \<and> roomy h' \<and> mem h' = mem h"
proof -
  from assms(3) obtain nm r where l: "load_configuration buf (fs nm) h hw = Some (r, hw', h')"
    by (auto simp: conf_main_init_def bind_Some_iff)
  then obtain c h1 where j: "load_json_file buf (fs nm) h = Some (c, h1)"
    and d: "if c = 0 then h' = h1 else cJSON_Delete c h1 = Some h'"
    by (auto simp: load_configuration_def bind_Some_iff split: if_splits)
  note s = load_json_file_sound [OF assms(1,2) j]
  show ?thesis
  proof (cases "c = 0")
    case False
    with s obtain t where t: "jaddr t = c" "grow {} (foot [t]) h h1" "seg (mem h1) 0 [t] 0" by auto
    from grow_delete [OF assms(1) t(2,3)] t(1) d False assms(2) show ?thesis by auto
  qed (use s d in simp)
qed

subsection \<open>Names\<close>

text \<open>The names the loader looks for and those the program writes are different up to letter case.\<close>

definition conf_names :: "string list" where
  "conf_names = [''id'', ''name'', ''disable'', ''time'', ''params'', ''kks'', ''vtype'', ''zone'', ''ref'', ''port'',
     ''rangeI'', ''rangeD'', ''freq_sec'', ''terminal'', ''vtype_list'', ''vlist_desc'']"

lemma conf_names_distinct: "distinct (map (map c_tolower) conf_names)"
  by code_simp

lemma conf_names_no_NUL: "a \<in> set conf_names \<Longrightarrow> NUL \<notin> set a"
  by (auto simp: conf_names_def)

lemma name_is_same: "NUL \<notin> set a \<Longrightarrow> NUL \<notin> set b \<Longrightarrow> name_is a (Some b) \<longleftrightarrow> same_nocase a b"
  by (simp add: name_is_def cJSON_strcasecmp_def strcasecmp_loop_0)

lemma name_is_conf: "a \<in> set conf_names \<Longrightarrow> b \<in> set conf_names \<Longrightarrow> name_is a (Some b) \<longleftrightarrow> a = b"
  using conf_names_distinct conf_names_no_NUL
  by (auto simp: name_is_same distinct_map same_nocase_def dest: inj_onD)

text \<open>A configuration with a serial number and one parameter on port 3.\<close>

definition conf0 :: "(string \<times> json) list" where
  "conf0 = [(''id'', JStr ''x1''), (''params'', JArr [JObj [(''port'', JNum 3 (int_fl 3))]])]"

definition hw1 :: hardware where
  "hw1 = hw0\<lparr>hwInfo := info0\<lparr>i_id := strncpy_field 64 ''x1''\<rparr>,
     pCache := [zero_cache\<lparr>gpio_io := 3, status := HW_DATA_USED\<rparr>]\<rparr>"

lemma conf0_configures: "configure conf0 hw0 = Some hw1"
proof -
  have n: "name_is a (Some b) \<longleftrightarrow> a = b" if "list_all (\<lambda>a. a \<in> set conf_names) [a, b]" for a b
    using that by (simp add: name_is_conf)
  show ?thesis
    by (simp add: configure_def conf0_def info_member_def main_member_def param_member_def text_field_def n conf_names_def
        hw0_def hw1_def)
qed


end
