(* ===== verification/ConfGen.thy ===== *)
theory ConfGen
  imports ConfMain
begin

text \<open>
  The generator of configuration files, \<open>usr_main/source/srv_option.cpp\<close>: it prints a document with one
  numbered entry for each parameter of the device, to be filled in by the user and read back by the
  loader of \<open>config/conf_main.cpp\<close>.  The second half shows what it prints, and what the loader makes of it.
\<close>

section \<open>The code\<close>

definition GENERATE_NAME_USER :: string where "GENERATE_NAME_USER = ''_TBD_''"

definition TREMINAL_GENR_CONF_FILE :: string where "TREMINAL_GENR_CONF_FILE = ''1.RunEnv/config/dev/usr_main.json''"

text \<open>The texts of the source in UTF-8.\<close>

definition kks_label :: string where
  "kks_label = ''kks'' @ [CHR 0xE7, CHR 0xBC, CHR 0x96, CHR 0xE7, CHR 0xA0, CHR 0x81] @ ''-''"

definition ref_label :: string where
  "ref_label = ''ref/'' @ [CHR 0xE6, CHR 0x9C, CHR 0xBA, CHR 0xE7, CHR 0xBB, CHR 0x84] @ ''.''"

definition type_label :: string where
  "type_label = [CHR 0xE7, CHR 0xB1, CHR 0xBB, CHR 0xE5, CHR 0x9E, CHR 0x8B]"

definition zone_label :: string where
  "zone_label = ''_TBD_'' @ [CHR 0xE5, CHR 0xAE, CHR 0x89, CHR 0xE8, CHR 0xA3, CHR 0x85, CHR 0xE5, CHR 0x8C, CHR 0xBA, CHR 0xE5, CHR 0x9F, CHR 0x9F]"

definition vlist_label :: string where
  "vlist_label = [CHR 0xE6, CHR 0xA0, CHR 0xB9, CHR 0xE6, CHR 0x8D, CHR 0xAE] @ ''vtype_list'' @ [CHR 0xE9, CHR 0x85, CHR 0x8D,
     CHR 0xE7, CHR 0xBD, CHR 0xAE] @ '' param-vtype'' @ [CHR 0xE7, CHR 0x9A, CHR 0x84, CHR 0xE8, CHR 0xAE, CHR 0xBE, CHR 0xE5, CHR 0xA4, CHR 0x87, CHR 0xE7, CHR 0xB1, CHR 0xBB, CHR 0xE5, CHR 0x9E, CHR 0x8B]"

text \<open>
  \<open>_usr_genrate_param\<close> on the object \<open>jp\<close>; the number of the entry is a static variable, given and
  returned, and its increment must not overflow.
\<close>

definition usr_genrate_param ::
  "hw_dev_kind_e \<Rightarrow> addr \<Rightarrow> hw_cache_t option \<Rightarrow> int \<Rightarrow> heap \<Rightarrow> (bool \<times> int \<times> heap) option" where
  "usr_genrate_param kd jp param i h =
     (if jp = 0 \<or> param = None then Some (False, i, h)
      else do {
        guard (i < INT_MAX);
        let i = i + 1;
        w \<leftarrow> emit_str (GENERATE_NAME_USER @ kks_label @ dec_int i) (WS_STRLEN_MAX, []);
        h \<leftarrow> cJSON_AddStringToObject jp ''kks'' (snd w) h;
        w \<leftarrow> emit_str (GENERATE_NAME_USER @ ref_label @ type_label @ dec_int i) (WS_STRLEN_MAX, []);
        h \<leftarrow> cJSON_AddStringToObject jp ''ref'' (snd w) h;
        h \<leftarrow> (if kd \<noteq> HW_KIND_ENV then cJSON_AddNumberToObject jp ''port'' (of_int_fl binary64 i) h else Some h);
        (if kd = HW_KIND_ASE \<or> kd = HW_KIND_PSE then do {
           h \<leftarrow> cJSON_AddStringToObject jp ''vtype'' ''_TBD_vtype_list'' h;
           (r, h) \<leftarrow> cJSON_CreateIntArray [4, 20] h;
           h \<leftarrow> cJSON_AddItemToObject jp ''rangeI'' r h;
           (r, h) \<leftarrow> cJSON_CreateIntArray [0, 100] h;
           h \<leftarrow> cJSON_AddItemToObject jp ''rangeD'' r h;
           Some (True, i, h)
         } else Some (True, i, h))
      })"

text \<open>The list of type names: each name with a comma, the last comma overwritten by the terminator.\<close>

definition vtype_list :: "string option" where
  "vtype_list = do {
     w \<leftarrow> for_up (type_id HW_TYPE_RESV - type_id HW_TYPE_TEMP) (type_id HW_TYPE_TEMP) (\<lambda>i w. do {
            t \<leftarrow> type_of_int i; emit_str (get_hw_name_by_type t @ '','') w }) (1024, []);
     Some (butlast (snd w))
   }"

text \<open>The loop over the parameters; the flag says that no early return was taken.\<close>

fun gen_params :: "hw_dev_kind_e \<Rightarrow> addr \<Rightarrow> nat \<Rightarrow> hw_cache_t option list \<Rightarrow> int \<Rightarrow> heap \<Rightarrow> (bool \<times> int \<times> heap) option" where
  "gen_params kd array 0 ps i h = Some (True, i, h)"
| "gen_params kd array (Suc n) [] i h = None"
| "gen_params kd array (Suc n) (p # ps) i h = do {
     (jparam, h) \<leftarrow> cJSON_CreateObject h;
     (if jparam = 0 then Some (False, i, h)
      else do {
        (r, i, h) \<leftarrow> usr_genrate_param kd jparam p i h;
        h \<leftarrow> cJSON_AddItemToArray array jparam h;
        gen_params kd array n ps i h
      })
   }"

text \<open>The result: the returned \<open>_Bool\<close> (true on every path), \<open>*out\<close> where it was written, the counter, the heap.\<close>

definition usr_genrate_proc_json ::
  "hw_info_t \<Rightarrow> hw_cache_t option list \<Rightarrow> nat \<Rightarrow> int \<Rightarrow> heap \<Rightarrow> (bool \<times> addr option \<times> int \<times> heap) option" where
  "usr_genrate_proc_json hwi ps n i h = do {
     (root, h) \<leftarrow> cJSON_CreateObject h;
     (array, h) \<leftarrow> cJSON_CreateArray h;
     h \<leftarrow> cJSON_AddNumberToObject root ''freq_sec'' (of_val binary64 False (601 / 10)) h;
     h \<leftarrow> cJSON_AddStringToObject root ''name'' zone_label h;
     h \<leftarrow> cJSON_AddStringToObject root ''id'' ''202303110004xl'' h;
     s \<leftarrow> c_str (i_kind hwi);
     h \<leftarrow> cJSON_AddStringToObject root ''terminal'' s h;
     (f, h) \<leftarrow> cJSON_CreateFalse h;
     h \<leftarrow> cJSON_AddItemToObject root ''disable'' f h;
     h \<leftarrow> (if kind hwi = HW_KIND_ASE \<or> kind hwi = HW_KIND_PSE then do {
             l \<leftarrow> vtype_list;
             h \<leftarrow> cJSON_AddStringToObject root ''vtype_list'' l h;
             cJSON_AddStringToObject root ''vlist_desc'' vlist_label h
           } else Some h);
     (ok, i, h) \<leftarrow> gen_params (kind hwi) array n ps i h;
     (if \<not> ok then Some (True, None, i, h)
      else do {
        h \<leftarrow> cJSON_AddItemToObject root ''params'' array h;
        (out, h) \<leftarrow> cJSON_Print root h;
        h \<leftarrow> cJSON_Delete root h;
        Some (True, Some out, i, h)
      })
   }"

text \<open>
  \<open>generate_json_file\<close>: prints the document and writes it; the text pointer is not initialised, so it
  must have been written.  The result is that of the write, which the source ignores; the text is
  never freed.
\<close>

definition generate_json_file ::
  "file_calls \<Rightarrow> hw_info_t \<Rightarrow> hw_cache_t option list \<Rightarrow> nat \<Rightarrow> int \<Rightarrow> heap \<Rightarrow> ((int \<times> int list) \<times> string \<times> int \<times> heap) option" where
  "generate_json_file k hwi ps n i h = do {
     (r, out, i, h) \<leftarrow> usr_genrate_proc_json hwi ps n i h;
     a \<leftarrow> out;
     s \<leftarrow> ld_str a h;
     Some (write_file k (Some TREMINAL_GENR_CONF_FILE) (Some s) (of_nat (length s)), s, i, h)
   }"

text \<open>
  \<open>option_main\<close> with the options \<open>getopt\<close> finds: \<open>g\<close> generates and exits, \<open>d\<close> exits, the others are
  logged.  The result is the exit status, when the program exits, and the state.
\<close>

fun option_main :: "('s \<Rightarrow> 's option) \<Rightarrow> char list \<Rightarrow> 's \<Rightarrow> (int option \<times> 's) option" where
  "option_main gen [] s = Some (None, s)"
| "option_main gen (c # cs) s =
     (if c = CHR ''g'' then do { s \<leftarrow> gen s; Some (Some 0, s) }
      else if c = CHR ''d'' then Some (Some 0, s)
      else option_main gen cs s)"

section \<open>The document\<close>

definition gen_entry :: "hw_dev_kind_e \<Rightarrow> nat \<Rightarrow> (string \<times> json) list" where
  "gen_entry kd k =
     [(''kks'', JStr (GENERATE_NAME_USER @ kks_label @ dec_int (int k))),
      (''ref'', JStr (GENERATE_NAME_USER @ ref_label @ type_label @ dec_int (int k)))]
     @ (if kd \<noteq> HW_KIND_ENV then [(''port'', JNum (int k) (int_fl (int k)))] else [])
     @ (if kd = HW_KIND_ASE \<or> kd = HW_KIND_PSE
        then [(''vtype'', JStr ''_TBD_vtype_list''), (''rangeI'', JArr [JNum 4 (int_fl 4), JNum 20 (int_fl 20)]),
              (''rangeD'', JArr [JNum 0 (int_fl 0), JNum 100 (int_fl 100)])]
        else [])"

text \<open>The entries numbered from the one after \<open>i\<close>.\<close>

fun gen_entries :: "hw_dev_kind_e \<Rightarrow> nat \<Rightarrow> nat \<Rightarrow> json list" where
  "gen_entries kd i 0 = []"
| "gen_entries kd i (Suc n) = JObj (gen_entry kd (Suc i)) # gen_entries kd (Suc i) n"

definition gen_rest :: "hw_dev_kind_e \<Rightarrow> string \<Rightarrow> nat \<Rightarrow> nat \<Rightarrow> (string \<times> json) list" where
  "gen_rest kd term i n =
     [(''name'', JStr zone_label), (''id'', JStr ''202303110004xl''), (''terminal'', JStr term), (''disable'', JFalse)]
     @ (if kd = HW_KIND_ASE \<or> kd = HW_KIND_PSE then [(''vtype_list'', JStr (the vtype_list)), (''vlist_desc'', JStr vlist_label)] else [])
     @ [(''params'', JArr (gen_entries kd i n))]"

text \<open>The frequency 60.10 as a double, and what the parser makes of its text: the neighbour below.\<close>

definition freq :: fl where "freq = Fin False (of_int 8458323050155213 * p2 (- 47))"
definition freq' :: fl where "freq' = Fin False (of_int 8458323050155212 * p2 (- 47))"

definition gen_doc :: "hw_dev_kind_e \<Rightarrow> string \<Rightarrow> nat \<Rightarrow> nat \<Rightarrow> json" where
  "gen_doc kd term i n = JObj ((''freq_sec'', JNum 60 freq) # gen_rest kd term i n)"

section \<open>The run of the generator\<close>

lemma label_texts:
  assumes "INT_MIN \<le> i" "i \<le> INT_MAX"
  shows "emit_str (GENERATE_NAME_USER @ kks_label @ dec_int i) (WS_STRLEN_MAX, []) = Some (WS_STRLEN_MAX, GENERATE_NAME_USER @ kks_label @ dec_int i)"
    "emit_str (GENERATE_NAME_USER @ ref_label @ type_label @ dec_int i) (WS_STRLEN_MAX, [])
      = Some (WS_STRLEN_MAX, GENERATE_NAME_USER @ ref_label @ type_label @ dec_int i)"
proof -
  have "length (dec_int i) \<le> 11"
  proof -
    have "length (dec (nat (- i))) \<le> 10" "length (dec (nat i)) \<le> 10"
      using assms by (auto simp: INT_MIN_def INT_MAX_def intro!: dec_length_le)
    then show ?thesis by (auto simp: dec_int_def)
  qed
  then show "emit_str (GENERATE_NAME_USER @ kks_label @ dec_int i) (WS_STRLEN_MAX, []) = Some (WS_STRLEN_MAX, GENERATE_NAME_USER @ kks_label @ dec_int i)"
    "emit_str (GENERATE_NAME_USER @ ref_label @ type_label @ dec_int i) (WS_STRLEN_MAX, [])
      = Some (WS_STRLEN_MAX, GENERATE_NAME_USER @ ref_label @ type_label @ dec_int i)"
    by (simp_all add: emit_str_def GENERATE_NAME_USER_def kks_label_def ref_label_def type_label_def WS_STRLEN_MAX_def)
qed

lemma entry_runs:
  assumes "heap_builds h0 ((jp, JObj []) # ds) h" "jp \<noteq> 0" "int (Suc i) \<le> INT_MAX"
  shows "succeeds (usr_genrate_param kd jp (Some p) (int i) h)
    (\<lambda>(r, i', h'). r \<and> i' = int (Suc i) \<and> heap_builds h0 ((jp, JObj (gen_entry kd (Suc i))) # ds) h')"
proof -
  have b: "int i < INT_MAX" "INT_MIN \<le> int i + 1" "int i + 1 \<le> INT_MAX" using assms(3) by (simp_all add: INT_MIN_def)
  have n: "of_int_fl binary64 (int i + 1) = int_fl (int i + 1)" "to_int 32 (int_fl (int i + 1)) = Some (int i + 1)"
    using int_number [of "int i + 1"] b by (simp_all add: INT_MIN_def INT_MAX_def)
  have e: "gen_entry kd (Suc i) = [(''kks'', JStr (GENERATE_NAME_USER @ kks_label @ dec_int (int i + 1))),
      (''ref'', JStr (GENERATE_NAME_USER @ ref_label @ type_label @ dec_int (int i + 1)))]
     @ (if kd \<noteq> HW_KIND_ENV then [(''port'', JNum (int i + 1) (int_fl (int i + 1)))] else [])
     @ (if kd = HW_KIND_ASE \<or> kd = HW_KIND_PSE
        then [(''vtype'', JStr ''_TBD_vtype_list''), (''rangeI'', JArr [JNum 4 (int_fl 4), JNum 20 (int_fl 20)]),
              (''rangeD'', JArr [JNum 0 (int_fl 0), JNum 100 (int_fl 100)])]
        else [])" by (simp add: gen_entry_def add.commute)
  have port: "heap_builds h0 ((jp, JObj ms) # ds) h1 \<Longrightarrow>
      (\<And>h2. heap_builds h0 ((jp, JObj (ms @ (if kd \<noteq> HW_KIND_ENV then [(''port'', JNum (int i + 1) (int_fl (int i + 1)))] else []))) # ds) h2 \<Longrightarrow> Q h2)
      \<Longrightarrow> succeeds (if kd \<noteq> HW_KIND_ENV then cJSON_AddNumberToObject jp ''port'' (int_fl (int i + 1)) h1 else Some h1) Q" for ms h1 Q
    by (auto elim!: cjson_numbers.add_numI [OF _ n(2)])
  have fin: "succeeds (if kd = HW_KIND_ASE \<or> kd = HW_KIND_PSE then do {
           h \<leftarrow> cJSON_AddStringToObject jp ''vtype'' ''_TBD_vtype_list'' h1;
           (r, h) \<leftarrow> cJSON_CreateIntArray [4, 20] h;
           h \<leftarrow> cJSON_AddItemToObject jp ''rangeI'' r h;
           (r, h) \<leftarrow> cJSON_CreateIntArray [0, 100] h;
           h \<leftarrow> cJSON_AddItemToObject jp ''rangeD'' r h;
           Some (True, int i + 1, h)
         } else Some (True, int i + 1, h1)) (\<lambda>(r, i', h'). r \<and> i' = int i + 1 \<and> heap_builds h0 ((jp, JObj (ms
      @ (if kd = HW_KIND_ASE \<or> kd = HW_KIND_PSE
        then [(''vtype'', JStr ''_TBD_vtype_list''), (''rangeI'', JArr [JNum 4 (int_fl 4), JNum 20 (int_fl 20)]),
              (''rangeD'', JArr [JNum 0 (int_fl 0), JNum 100 (int_fl 100)])]
        else []))) # ds) h')" if "heap_builds h0 ((jp, JObj ms) # ds) h1" for ms h1
  proof (cases "kd = HW_KIND_ASE \<or> kd = HW_KIND_PSE")
    case True
    show ?thesis unfolding if_P [OF True] succeeds_bind using that
      apply (elim cjson.add_strI)
      apply (erule cjson_numbers.new_intsI, simp, simp)
      apply (drule cjson.swap, erule cjson.add_memberI)
      apply (erule cjson_numbers.new_intsI, simp, simp)
      apply (drule cjson.swap, erule cjson.add_memberI)
      apply simp
      done
  next
    case False
    with that show ?thesis by simp
  qed
  show ?thesis
    unfolding usr_genrate_param_def succeeds_bind e using assms(1,2) b(1)
    apply (simp add: Let_def label_texts [OF b(2,3)] n(1) cong del: if_weak_cong split del: if_split)
    apply (erule cjson.add_strI, erule cjson.add_strI, erule port)
    apply (rule succeeds_mono, erule fin)
    apply auto
    done
qed

lemma entries_run:
  assumes "heap_builds h0 ((arr, JArr js) # ds) h" "int (i + length cs) \<le> INT_MAX"
  shows "succeeds (gen_params kd arr (length cs) (map Some cs) (int i) h) (\<lambda>(ok, i', h'). ok \<and> i' = int (i + length cs)
    \<and> heap_builds h0 ((arr, JArr (js @ gen_entries kd i (length cs))) # ds) h')"
  using assms
proof (induction cs arbitrary: js i h)
  case (Cons p cs)
  have b: "int (Suc i) \<le> INT_MAX" "int (Suc i + length cs) \<le> INT_MAX" using Cons.prems(2) by simp_all
  show ?case using Cons.prems(1)
    apply simp
    apply (erule cjson.new_objI, simp)
    apply (rule succeeds_mono, erule entry_runs [OF _ _ b(1)], simp, clarsimp)
    apply (drule cjson.swap, erule cjson.add_elemI)
    apply (rule succeeds_mono, erule Cons.IH [OF _ b(2), simplified])
    apply (auto simp: add.commute)
    done
qed simp

text \<open>The list of the type names.\<close>

lemma vtype_list_text: "vtype_list = Some (butlast (concat (map (\<lambda>t. get_hw_name_by_type t @ '','') (take 13 (drop 2 hw_types)))))"
  by code_simp

lemma freq_double: "of_val binary64 False (601 / 10) = freq"
proof -
  have "fround binary64 False (601 / 10) = Fin False (of_int 8458323050155213 * p2 (- 47))"
    by (rule fround_at [where k = 5]) (simp_all add: p2_def rne_def Let_def fl_simps)
  then show ?thesis by (simp add: of_val_def freq_def)
qed

lemma freq_int: "to_int 32 freq = Some 60" "to_int 64 freq' = Some 60"
  by (simp_all add: freq_def freq'_def trunc_def p2_def fl_simps)

lemma freq_is_double: "is_double freq"
proof -
  have "p2 (- 1074) \<le> p2 0" "p2 6 \<le> p2 1024" by (rule p2_mono; simp)+
  moreover have "p2 0 \<le> 8458323050155213 * p2 (- 47)" "8458323050155213 * p2 (- 47) < p2 6" by (simp_all add: p2_def)
  ultimately show ?thesis by (auto simp: freq_def is_double_def)
qed

lemma entries_nums: "int (i + n) \<le> INT_MAX \<Longrightarrow> joks (gen_entries kd i n)"
proof (induction n arbitrary: i)
  case (Suc n)
  have k: "INT_MIN \<le> int (Suc i)" "int (Suc i) \<le> INT_MAX" using Suc.prems by (simp_all add: INT_MIN_def)
  have z: "NUL \<notin> set (dec_int j)" for j by (rule dec_int_no_NUL)
  have "jokm (gen_entry kd (Suc i))"
    using k z by (simp add: gen_entry_def GENERATE_NAME_USER_def kks_label_def ref_label_def type_label_def)
      (simp add: INT_MIN_def INT_MAX_def)
  then show ?case using Suc by simp
qed simp

lemma rest_ok:
  assumes "NUL \<notin> set term" "int (i + n) \<le> INT_MAX"
  shows "jokm (gen_rest kd term i n)"
proof -
  have "NUL \<notin> set (the vtype_list)" by code_simp
  moreover have "NUL \<notin> set zone_label" "NUL \<notin> set vlist_label" by (simp_all add: zone_label_def vlist_label_def)
  ultimately show ?thesis using assms(1) entries_nums [OF assms(2)] by (simp add: gen_rest_def)
qed

lemma generator_runs:
  assumes "heap_ok h" "roomy h" "c_str (i_kind hwi) = Some term" "int (i + length cs) \<le> INT_MAX"
  shows "\<exists>r h'. usr_genrate_proc_json hwi (map Some cs) (length cs) (int i) h = Some (True, Some r, int (i + length cs), h')
    \<and> r \<noteq> 0 \<and> mem h' = (mem h)(r \<mapsto> Buf (pj True 0 (gen_doc (kind hwi) term i (length cs)))) \<and> mem h r = None \<and> heap_ok h' \<and> roomy h'"
proof -
  let ?d = "gen_doc (kind hwi) term i (length cs)"
  let ?Q = "\<lambda>(b, out, i', h'). b \<and> i' = int (i + length cs) \<and> (\<exists>r. out = Some r \<and> r \<noteq> 0
    \<and> mem h' = (mem h)(r \<mapsto> Buf (pj True 0 ?d)) \<and> mem h r = None \<and> heap_ok h' \<and> roomy h')"
  have t: "NUL \<notin> set term" using assms(3) by (auto simp: c_str_Some_iff)
  have n: "jnums ?d"
    using jok_nums(3) [OF rest_ok [OF t assms(4)]] freq_is_double by (simp add: gen_doc_def is_llong_def)
  obtain l where l: "vtype_list = Some l" using vtype_list_text by blast
  have opt: "heap_builds h0 ((root, JObj ms) # ds) h1 \<Longrightarrow>
      (\<And>h2. heap_builds h0 ((root, JObj (ms @ (if kind hwi = HW_KIND_ASE \<or> kind hwi = HW_KIND_PSE
          then [(''vtype_list'', JStr (the vtype_list)), (''vlist_desc'', JStr vlist_label)] else []))) # ds) h2 \<Longrightarrow> Q h2)
      \<Longrightarrow> succeeds (if kind hwi = HW_KIND_ASE \<or> kind hwi = HW_KIND_PSE then do {
             l \<leftarrow> vtype_list;
             h \<leftarrow> cJSON_AddStringToObject root ''vtype_list'' l h1;
             cJSON_AddStringToObject root ''vlist_desc'' vlist_label h
           } else Some h1) Q" for h0 root ms ds h1 Q
    unfolding l by (cases "kind hwi = HW_KIND_ASE \<or> kind hwi = HW_KIND_PSE") (auto elim!: cjson.add_strI)
  have "succeeds (usr_genrate_proc_json hwi (map Some cs) (length cs) (int i) h) ?Q"
    unfolding usr_genrate_proc_json_def succeeds_bind using heap_builds_Nil [OF assms(1,2)]
    apply (elim cjson.new_objI, simp split del: if_split cong del: if_weak_cong)
    apply (elim cjson.new_arrI, simp add: assms(3) freq_double split del: if_split cong del: if_weak_cong)
    apply (drule cjson.swap, erule cjson_numbers.add_numI, rule freq_int)
    apply (erule cjson.add_strI, erule cjson.add_strI, erule cjson.add_strI)
    apply (erule cjson_numbers.new_falseI, simp split del: if_split cong del: if_weak_cong)
    apply (drule cjson.swap, erule cjson.add_memberI)
    apply (erule opt)
    apply (drule cjson.swap, rule succeeds_mono, erule entries_run [OF _ assms(4)], clarsimp)
    apply (drule cjson.swap, erule cjson.add_memberI)
    apply (rule succeeds_mono, erule heap_print_delete)
    using n apply (simp add: gen_doc_def gen_rest_def)
    apply (clarsimp, erule succeeds_mono, simp add: gen_doc_def gen_rest_def)
    done
  then show ?thesis by (auto simp: succeeds_def)
qed

text \<open>The text of the frequency, and what is read from it.\<close>

lemma millionth: "pow10 (- 6) = Fin False (of_int 4722366482869645 * p2 (- 72))"
proof -
  have "fround binary64 False (1 / 1000000) = Fin False (of_int 4722366482869645 * p2 (- 72))"
    by (rule fround_at [where k = "- 20"]) (simp_all add: p2_def rne_def Let_def fl_simps)
  then show ?thesis by (simp add: pow10_def)
qed

lemma freq_text: "snd (number_text 60 freq) = ''60.100000''"
proof -
  have s: "fsub binary64 (int_fl 60) freq = Fin True (of_int 14073748835533 * p2 (- 47))"
  proof -
    have "fround binary64 True (14073748835533 * p2 (- 47)) = Fin True (14073748835533 * p2 (- 47))"
      by (rule fround_exact) (auto simp: representable_def intro!: exI [of _ 14073748835533] exI [of _ "- 47"])
    then show ?thesis by (simp add: fsub_def freq_def int_fl_def of_val_def p2_def)
  qed
  have fl: "ffloor freq = int_fl 60" by (simp add: freq_def int_fl_def p2_def fl_simps)
  have big: "\<not> fle (fabs (Fin True (of_int 14073748835533 * p2 (- 47)))) DBL_EPSILON" by (simp add: DBL_EPSILON_def p2_def)
  have c: "of_int_fl binary64 60 = int_fl 60" by (simp add: of_int_fl_exact)
  have "nat (rne (of_int 8458323050155213 * p2 (- 47) * 10 ^ 6)) = 60100000" by (simp add: p2_def rne_def Let_def fl_simps)
  then have f: "fmt_f 6 freq = ''60.100000''" by (simp add: freq_def sign_str_def digits_after_def dec.simps pad_left_def)
  have m: "of_val binary64 False (1 / 10 ^ 6) = pow10 (- 6)" by (simp add: of_val_def pow10_def)
  have "of_val binary64 False (10 ^ 9) = int_fl (10 ^ 9)" using of_val_int [of binary64 "10 ^ 9"] by simp
  then have "\<not> flt (fabs freq) (of_val binary64 False (1 / 10 ^ 6))" "\<not> flt (of_val binary64 False (10 ^ 9)) (fabs freq)"
    unfolding m millionth by (simp_all add: flt_def freq_def int_fl_def p2_def)
  with s fl big c f show ?thesis by (simp add: number_text_def)
qed

lemma freq_product: "fmul binary64 (int_fl 60100000) (pow10 (- 6)) = freq'"
proof -
  have "fround binary64 False (60100000 * (of_int 4722366482869645 * p2 (- 72))) = Fin False (of_int 8458323050155212 * p2 (- 47))"
    by (rule fround_at [where k = 5]) (simp_all add: p2_def rne_def Let_def fl_simps)
  then show ?thesis by (simp add: millionth int_fl_def freq'_def)
qed

lemma freq_read: "stops r \<Longrightarrow> parse_number_text (''60.100000'' @ r) = Some (freq', r)"
proof -
  assume r: "stops r"
  then obtain c s where c: "r = c # s" "\<not> is_digit c" "c \<notin> {CHR ''.'', CHR ''e'', CHR ''E''}"
    by (cases r) (auto simp: stops_def)
  have dg: "is_digit CHR ''6''" "is_digit CHR ''0''" "is_digit CHR ''1''" "\<not> is_digit CHR ''.''"
    "digit_val CHR ''6'' = 6" "digit_val CHR ''0'' = 0" "digit_val CHR ''1'' = 1" by code_simp+
  have "digits_loop (''60.100000'' @ r) (int_fl 0) = Some (int_fl 60, ''.100000'' @ r)" by (simp add: dg fl_simps)
  moreover have "frac_loop (''100000'' @ r) (int_fl 60) 0 = Some (int_fl 60100000, - 6, r)"
    using c(2) unfolding c(1) by (simp add: dg fl_simps)
  moreover have "parse_exponent r = Some (0, r)" using c by (simp add: parse_exponent_def)
  moreover have "fmul binary64 (int_fl 1) (int_fl 60100000) = int_fl 60100000" by (simp add: fl_simps)
  ultimately show ?thesis using freq_product by (simp add: parse_number_text_def dg)
qed


section \<open>The loader reads what the generator prints\<close>

lemma freq_value: "stops r \<Longrightarrow> jvalue True (pj True d (JNum 60 freq) @ r) (JNum 60 freq') r"
  using jv_num [of "CHR ''6''" "''0.100000'' @ r" freq' r 60] freq_read [of r] freq_int(2) by (simp add: freq_text is_digit_def code_def)

lemma doc_derivable:
  assumes "NUL \<notin> set term" "int (i + n) \<le> INT_MAX"
  shows "jvalue True (pj True 0 (gen_doc kd term i n) @ r) (JObj ((''freq_sec'', JNum 60 freq') # gen_rest kd term i n)) r"
proof -
  let ?ms = "gen_rest kd term i n"
  have key: "NUL \<notin> set ''freq_sec''" by simp
  have v: "visible (pj True (0 + 1) (JNum 60 freq))" "\<forall>r. stops r \<longrightarrow> jvalue True (pj True (0 + 1) (JNum 60 freq) @ r) (JNum 60 freq') r"
    using freq_value [of _ "0 + 1"] by (simp_all add: freq_text visible_def code_def)
  have "?ms \<noteq> []" by (simp add: gen_rest_def)
  then have ms: "\<forall>k r. ?ms = [] \<and> ?ms = [] \<or> ?ms \<noteq> [] \<and> (\<exists>T. pms True (0 + 1) ?ms @ mtail True k r = (if True then tabs (0 + 1) else []) @ T
         \<and> visible T \<and> jmember True T ?ms r)"
    using print_derivable(3) [OF rest_ok [OF assms, of kd], of True "0 + 1"] by blast
  show ?thesis unfolding gen_doc_def
    by (rule object_closed) (use member_step [OF key v ms] in blast)
qed

text \<open>What a parameter, the parameters and the device are after the generated file was loaded.\<close>

definition labelled :: "hw_dev_kind_e \<Rightarrow> nat \<Rightarrow> hw_cache_t \<Rightarrow> hw_cache_t" where
  "labelled kd k p =
     (let p1 = p\<lparr>kks := strncpy_field 64 (GENERATE_NAME_USER @ kks_label @ dec_int (int k)),
                  p_ref := strncpy_field 128 (GENERATE_NAME_USER @ ref_label @ type_label @ dec_int (int k))\<rparr>;
          p2 = (if kd \<noteq> HW_KIND_ENV then p1\<lparr>gpio_io := k mod 65536\<rparr> else p1)
      in if kd = HW_KIND_ASE \<or> kd = HW_KIND_PSE
         then p2\<lparr>val_type := HW_TYPE_TBD, rangeI := [4, 20], rangeD := [0, 100]\<rparr> else p2)"

fun all_labelled :: "hw_dev_kind_e \<Rightarrow> nat \<Rightarrow> hw_cache_t list \<Rightarrow> hw_cache_t list" where
  "all_labelled kd i [] = []"
| "all_labelled kd i (p # ps) = labelled kd (Suc i) p # all_labelled kd (Suc i) ps"

definition with_generated :: "nat \<Rightarrow> hardware \<Rightarrow> hardware" where
  "with_generated i hw = hw\<lparr>
     hwInfo := (hwInfo hw)\<lparr>i_name := strncpy_field 64 zone_label, i_id := strncpy_field 64 ''202303110004xl'', disable := False\<rparr>,
     pCache := all_labelled (kind (hwInfo hw)) i (pCache hw)\<rparr>"

lemma conf_name_eqs:
  "list_all (\<lambda>a. a \<in> set conf_names) [a, b] \<Longrightarrow> name_is a (Some b) \<longleftrightarrow> a = b"
  by (simp add: name_is_conf)

lemma vtype_TBD: "get_hw_type_by_name (Some ''_TBD_vtype_list'') = Some HW_TYPE_TBD"
  by code_simp

lemma param_labelled:
  assumes "length (rangeI p) = 2" "length (rangeD p) = 2"
  shows "fold_members param_member (gen_entry kd k) p = Some (labelled kd k p)"
proof -
  from assms obtain a b c d where r: "rangeI p = [a, b]" "rangeD p = [c, d]"
    by (auto simp: length_Suc_conv numeral_2_eq_2)
  have m: "nat (int k mod 65536) = k mod 65536" by (simp add: nat_mod_distrib)
  show ?thesis
    by (simp add: gen_entry_def labelled_def param_member_def text_field_def conf_name_eqs conf_names_def r m vtype_TBD
        range_field_def upd_opt_def numeral_2_eq_2)
qed

lemma params_labelled:
  "\<forall>p\<in>set ps. length (rangeI p) = 2 \<and> length (rangeD p) = 2
    \<Longrightarrow> set_params (gen_entries kd i (length ps)) ps = Some (all_labelled kd i ps)"
  by (induction ps arbitrary: i) (simp_all add: param_labelled)

lemma generated_configures:
  assumes "nChNum hw = length (pCache hw)" "\<forall>p\<in>set (pCache hw). length (rangeI p) = 2 \<and> length (rangeD p) = 2"
  shows "configure ((''freq_sec'', JNum 60 freq') # gen_rest (kind (hwInfo hw)) term i (nChNum hw)) hw = Some (with_generated i hw)"
  using params_labelled [OF assms(2)]
  by (simp add: configure_def gen_rest_def info_member_def main_member_def text_field_def conf_name_eqs conf_names_def
      with_generated_def assms(1))

text \<open>C40: The configuration file the program generates for a device is accepted by the program's own loader:
  whatever the heap and the device, the generator prints a document, and loading a file with that text
  into a buffer with room for it returns 0, gives the device the generated name, serial number and
  state, gives the n-th parameter the n-th labels (and the port n, and for the analogue and pulse kinds the undecided
  type and the ranges 4 to 20 and 0 to 100), changes nothing else of it, and leaves the heap as it was.\<close>

theorem generated_config_loads:
  assumes "heap_ok h" "roomy h" "c_str (i_kind (hwInfo hw)) = Some term"
    and "hw_wf hw" "int (i + nChNum hw) \<le> INT_MAX"
  shows "\<exists>w s h'. generate_json_file k (hwInfo hw) (map Some (pCache hw)) (nChNum hw) (int i) h = Some (w, s, int (i + nChNum hw), h')
    \<and> (\<forall>junk. length s < length junk \<longrightarrow> (\<exists>h''.
         load_configuration (Some junk) (Some \<lparr>rest = s, failing = False\<rparr>) h' hw = Some (0, with_generated i hw, h'') \<and> mem h'' = mem h'))"
proof -
  have n: "nChNum hw = length (pCache hw)" "\<forall>p\<in>set (pCache hw). length (rangeI p) = 2 \<and> length (rangeD p) = 2"
    using assms(4) by (auto simp: hw_wf_def list_all_iff cache_wf_def)
  let ?t = "pj True 0 (gen_doc (kind (hwInfo hw)) term i (nChNum hw))"
  from generator_runs [OF assms(1-3), of i "pCache hw"] n(1) assms(5) obtain r h' where
    g: "usr_genrate_proc_json (hwInfo hw) (map Some (pCache hw)) (nChNum hw) (int i) h = Some (True, Some r, int (i + nChNum hw), h')"
      "mem h' r = Some (Buf ?t)" "heap_ok h'" "roomy h'" by auto
  have t: "NUL \<notin> set term" using assms(3) by (auto simp: c_str_Some_iff)
  have "skip_text (?t @ x) = Some (?t @ x)" for x by (rule skip_visible [OF visible_append]) (simp add: gen_doc_def visible_def code_def)
  note load = load_runs [OF g(3,4) _ this doc_derivable [OF t assms(5)] generated_configures [OF n]]
  have "\<exists>w. generate_json_file k (hwInfo hw) (map Some (pCache hw)) (nChNum hw) (int i) h = Some (w, ?t, int (i + nChNum hw), h')"
    using g(1,2) by (simp add: generate_json_file_def ld_str_def)
  with load show ?thesis by blast
qed

definition file0 :: file_calls where
  "file0 = \<lparr>fc_open = 3, fc_errno = 0, fc_fstat = 0, fc_size = 0, fc_read = (\<lambda>n. (0, [])), fc_write = (\<lambda>s. int (length s))\<rparr>"

theorem generated_config_loads_witness:
  "\<exists>w s h' h''. generate_json_file file0 (hwInfo hw0) (map Some (pCache hw0)) 1 0 heap0 = Some (w, s, 1, h')
    \<and> load_configuration (Some (s @ ''x'')) (Some \<lparr>rest = s, failing = False\<rparr>) h' hw0 = Some (0, with_generated 0 hw0, h'')
    \<and> map gpio_io (pCache (with_generated 0 hw0)) = [1]"
proof -
  have c: "c_str (i_kind (hwInfo hw0)) = Some ''CUR''" and n: "nChNum hw0 = 1" by code_simp+
  from generated_config_loads [OF heap0_ok heap0_room c sample0(1), of 0 file0]
  obtain w s h' where g: "generate_json_file file0 (hwInfo hw0) (map Some (pCache hw0)) 1 0 heap0 = Some (w, s, 1, h')"
    "\<forall>junk. length s < length junk \<longrightarrow> (\<exists>h''.
         load_configuration (Some junk) (Some \<lparr>rest = s, failing = False\<rparr>) h' hw0 = Some (0, with_generated 0 hw0, h'') \<and> mem h'' = mem h')"
    by (auto simp: n INT_MAX_def)
  from g(2) [THEN spec, of "s @ ''x''"] obtain h'' where
    l: "load_configuration (Some (s @ ''x'')) (Some \<lparr>rest = s, failing = False\<rparr>) h' hw0 = Some (0, with_generated 0 hw0, h'')" by auto
  have "map gpio_io (pCache (with_generated 0 hw0)) = [1]"
    by (simp add: with_generated_def hw0_def info0_def labelled_def Let_def)
  with g(1) l show ?thesis by (intro exI conjI)
qed

end
