(* ===== verification/MainLoop.thy ===== *)
theory MainLoop
  imports WsClient ConfGen
begin

text \<open>
  The program, \<open>usr_main/source/srv_main.cpp\<close>: the start of the parts in their order, the signal handlers,
  and the main loop with its passes.  The second half puts the parts together: whatever the other
  threads and the signals do between the passes, a pass brings the readings of the shared memory into
  the cache, into the frame for the host, and gives all its memory back.
\<close>

section \<open>The code\<close>

subsection \<open>The start\<close>

text \<open>
  \<open>drv_init\<close>: the pointer \<open>shmData\<close> is not initialised and holds \<open>junk\<close>; \<open>attached\<close> is the memory at an
  address that was attached.  The constructor ends the program with 1 when the mount fails.
\<close>

definition drv_init ::
  "shm_calls \<Rightarrow> int \<Rightarrow> (int \<Rightarrow> SHM_DATA_DEF option) \<Rightarrow> bool \<Rightarrow> bool \<Rightarrow> hw_info_t \<Rightarrow> (int + hardware) option" where
  "drv_init k junk attached pptr_ok ptr_ok info = do {
     (rc, addr) \<leftarrow> shm_hardware_init k junk;
     shm \<leftarrow> (if addr = 0 then Some None else map_option Some (attached addr));
     (rc, hw) \<leftarrow> hw_info_init pptr_ok ptr_ok shm info;
     (if rc \<noteq> 0 then Some (Inl 1) else map_option Inr hw)
   }"

definition serve_init :: "string option \<Rightarrow> (string \<Rightarrow> stream option) \<Rightarrow> heap \<Rightarrow> hardware \<Rightarrow> (hardware \<times> heap) option" where
  "serve_init buf fs h hw = do { (rc, hw, h) \<leftarrow> conf_main_init buf fs h hw; Some (hw, h) }"

subsection \<open>The state and the signals\<close>

record terminal =
  g_running :: bool
  g_table :: bool
  tsec :: "32 word"  \<comment> \<open>the static variable of \<open>loop\<close>\<close>
  t_hw :: hardware
  t_heap :: heap
  t_chan :: system

definition signal_handler :: "terminal \<Rightarrow> terminal" where
  "signal_handler t = t\<lparr>g_running := False\<rparr>"

definition signal_table_handler :: "terminal \<Rightarrow> terminal" where
  "signal_table_handler t = t\<lparr>g_table := \<not> g_table t\<rparr>"

text \<open>The signals \<open>main\<close> sets up, and their delivery.\<close>

datatype signal = SIGPIPE | SIGINT | SIGQUIT | SIGTERM | SIGTSTP

fun deliver :: "signal \<Rightarrow> terminal \<Rightarrow> terminal" where
  "deliver SIGPIPE t = t"
| "deliver SIGINT t = signal_handler t"
| "deliver SIGQUIT t = signal_handler t"
| "deliver SIGTERM t = signal_handler t"
| "deliver SIGTSTP t = signal_table_handler t"

subsection \<open>The loop\<close>

text \<open>What a pass of the loop finds: the clock, the shared memory, the seconds of the rate limit, and memory for the table.\<close>

record surroundings =
  sr_clock :: "nat \<Rightarrow> tm \<times> int"
  sr_shm :: SHM_DATA_DEF
  sr_now :: "64 word"
  sr_ps :: nat
  sr_malloc :: "nat \<Rightarrow> bool"

definition loop_pass :: "bool \<Rightarrow> surroundings \<Rightarrow> terminal \<Rightarrow> terminal option" where
  "loop_pass sc e t = do {
     hw \<leftarrow> hw_heartbeat (sr_clock e) (sr_shm e) (t_hw t);
     (hw, h, c) \<leftarrow> ws_heartbeat sc hw (t_heap t) (cl (t_chan t));
     let t = t\<lparr>t_hw := hw, t_heap := h, t_chan := (t_chan t)\<lparr>cl := c\<rparr>\<rparr>;
     (if g_table t then do {
        let (admit, sec) = ratelimit_connects (sr_now e) (tsec t) 0;
        let t = t\<lparr>tsec := sec\<rparr>;
        (if admit \<noteq> 0 then do { shown \<leftarrow> show_hw_table (sr_ps e) (sr_malloc e) hw; Some t } else Some t)
      } else Some t)
   }"

text \<open>
  \<open>main\<close> up to its loop: an exit status (of the constructor or of \<open>option_main\<close> with the options
  \<open>opts\<close>), or the running terminal.
\<close>

definition main_start ::
  "shm_calls \<Rightarrow> int \<Rightarrow> (int \<Rightarrow> SHM_DATA_DEF option) \<Rightarrow> bool \<Rightarrow> bool \<Rightarrow> hw_info_t \<Rightarrow> string option \<Rightarrow> (string \<Rightarrow> stream option)
     \<Rightarrow> file_calls \<Rightarrow> char list \<Rightarrow> nat option \<Rightarrow> string option \<Rightarrow> nat option \<Rightarrow> (nat \<Rightarrow> bool) \<Rightarrow> heap \<Rightarrow> (int + terminal) option" where
  "main_start k junk attached pptr_ok ptr_ok info buf fs fk opts ctx user conn ok h = do {
     d \<leftarrow> drv_init k junk attached pptr_ok ptr_ok info;
     (case d of Inl x \<Rightarrow> Some (Inl x)
      | Inr hw \<Rightarrow> do {
          (hw, h) \<leftarrow> serve_init buf fs h hw;
          (x, i, h) \<leftarrow> option_main (\<lambda>(i, h). do {
              (w, s, i, h) \<leftarrow> generate_json_file fk (hwInfo hw) (map Some (pCache hw)) (nChNum hw) i h;
              Some (i, h) }) opts (0, h);
          (case x of Some x \<Rightarrow> Some (Inl x)
           | None \<Rightarrow> do {
               (rc, s) \<leftarrow> start_channel_services ctx user conn ok;
               Some (Inr \<lparr>g_running = True, g_table = False, tsec = 0, t_hw = hw, t_heap = h, t_chan = s\<rparr>)
             })
        })
   }"

text \<open>\<open>main\<close> returns 0 once its loop finds the flag cleared.\<close>

definition main_end :: "terminal \<Rightarrow> int option" where
  "main_end t = (if g_running t then None else Some 0)"

text \<open>
  The life of the program: passes of the main thread while the flag is set, signals, and steps of the
  service thread and of the business thread.
\<close>

datatype event = Pass surroundings | Sig signal | Chan actor

inductive life :: "bool \<Rightarrow> event \<Rightarrow> terminal \<Rightarrow> terminal \<Rightarrow> bool" for sc where
  life_pass: "g_running t \<Longrightarrow> loop_pass sc e t = Some t' \<Longrightarrow> life sc (Pass e) t t'"
| life_sig: "life sc (Sig g) t (deliver g t)"
| life_chan: "a \<noteq> Main \<Longrightarrow> step a (t_chan t) s \<Longrightarrow> life sc (Chan a) t (t\<lparr>t_chan := s\<rparr>)"

inductive lives :: "bool \<Rightarrow> terminal \<Rightarrow> event list \<Rightarrow> terminal \<Rightarrow> bool" for sc where
  lives_Nil: "lives sc t [] t"
| lives_Cons: "life sc ev t t' \<Longrightarrow> lives sc t' evs t'' \<Longrightarrow> lives sc t (ev # evs) t''"

inductive_cases life_PassE: "life sc (Pass e) t t'"
inductive_simps lives_Nil_iff [simp]: "lives sc t [] t'"
inductive_simps lives_Cons_iff: "lives sc t (ev # evs) t'"

section \<open>A pass\<close>

text \<open>Shared memory of the right size that holds floats.\<close>

definition shm_floats :: "SHM_DATA_RO \<Rightarrow> bool" where
  "shm_floats d \<longleftrightarrow> list_all is_float (currentA d) \<and> list_all is_float (voltageV d) \<and> list_all is_float (aiValI d)
     \<and> list_all is_float [temperature (env_data d), humidity (env_data d), noise (env_data d), pm2_5 (env_data d),
          pm10 (env_data d), env_O2 (env_data d), tvoc (env_data d)]"

definition good_pass :: "surroundings \<Rightarrow> bool" where
  "good_pass e \<longleftrightarrow> good_clock (sr_clock e) \<and> shm_wf (sr_shm e) \<and> shm_floats (shm_ro (sr_shm e))"

definition good_event :: "event \<Rightarrow> bool" where
  "good_event ev = (case ev of Pass e \<Rightarrow> good_pass e | Sig g \<Rightarrow> g \<noteq> SIGTSTP | Chan a \<Rightarrow> True)"

definition device_ok :: "hardware \<Rightarrow> bool" where
  "device_ok h \<longleftrightarrow> hw_wf h \<and> list_all cache_texts (pCache h) \<and> info_texts (hwInfo h) \<and> monitorable (kind (hwInfo h)) (pCache h)"

definition terminal_ok :: "terminal \<Rightarrow> bool" where
  "terminal_ok t \<longleftrightarrow> \<not> g_table t \<and> device_ok (t_hw t) \<and> heap_ok (t_heap t) \<and> roomy (t_heap t) \<and> sound (t_chan t)"

text \<open>The device after the monitor, and after the report.\<close>

definition monitored :: "surroundings \<Rightarrow> hardware \<Rightarrow> hardware" where
  "monitored e h = h\<lparr>hwInfo := (hwInfo h)\<lparr>i_time := stamped (sr_clock e 0) (i_time (hwInfo h))\<rparr>,
     pCache := map (\<lambda>i. refreshed (sr_clock e (Suc i)) (shm_ro (sr_shm e)) (kind (hwInfo h)) (pCache h ! i)) [0..<nChNum h]\<rparr>"

definition reported :: "hardware \<Rightarrow> hardware" where
  "reported h = h\<lparr>pCache := map mark_used (pCache h)\<rparr>"

lemma reading_float:
  assumes "shm_wf s" "shm_floats (shm_ro s)" "monitorable kd cs" "p \<in> set cs"
  shows "is_float (reading (shm_ro s) kd p)"
proof (cases "kd = HW_KIND_ENV")
  case True
  have "is_float (int_fl (- 1))" by (simp add: is_float_def int_fl_def)
  with assms(2) True show ?thesis
    by (cases "val_type p") (simp_all add: reading_def shm_floats_def)
next
  case False
  with assms(3,4) have p: "gpio_io p - 1 < AI_NUM_MAX" by (auto simp: monitorable_def list_all_iff)
  with assms(1,2) False show ?thesis by (auto simp: reading_def shm_floats_def shm_wf_def list_all_length)
qed

lemma NUL_in_stamped: "NUL \<in> set (stamped c f)"
  by (simp add: stamped_def)

lemma refreshed_texts:
  assumes "good_pass e" "monitorable kd cs" "p \<in> set cs" "cache_texts p"
  shows "cache_texts (refreshed (sr_clock e k) (shm_ro (sr_shm e)) kd p)"
proof -
  have c: "calendar (fst (sr_clock e k))" "0 \<le> snd (sr_clock e k)" "snd (sr_clock e k) < 1000"
    using assms(1) by (simp_all add: good_pass_def good_clock_def)
  have "is_float (reading (shm_ro (sr_shm e)) kd p)"
    using assms(1-3) reading_float by (simp add: good_pass_def)
  with refreshed_wf [OF c, of p] assms(4) NUL_in_stamped show ?thesis by (simp add: cache_texts_def refreshed_def)
qed

lemma refreshed_sel [simp]: "gpio_io (refreshed c d kd p) = gpio_io p"
  by (simp add: refreshed_def)

lemma monitored_ok:
  assumes "device_ok h" "good_pass e"
  shows "hw_heartbeat (sr_clock e) (sr_shm e) h = Some (monitored e h)" "device_ok (monitored e h)"
proof -
  from assms have a: "hw_wf h" "shm_wf (sr_shm e)" "good_clock (sr_clock e)" "monitorable (kind (hwInfo h)) (pCache h)"
    "list_all cache_texts (pCache h)" "info_texts (hwInfo h)"
    by (simp_all add: device_ok_def good_pass_def)
  from monitor_refreshed [OF a(1-4)] have m: "hw_param_monitor (sr_clock e) (sr_shm e) h = Some (monitored e h)" "hw_wf (monitored e h)"
    by (simp_all add: monitored_def)
  then show "hw_heartbeat (sr_clock e) (sr_shm e) h = Some (monitored e h)" by (simp add: hw_heartbeat_def)
  have n: "nChNum h = length (pCache h)" using a(1) by (simp add: hw_wf_def)
  have "list_all cache_texts (pCache (monitored e h))"
    using refreshed_texts [OF assms(2) a(4)] a(5) n by (auto simp: monitored_def list_all_iff)
  moreover have "monitorable (kind (hwInfo h)) (pCache (monitored e h))"
    using a(4) n by (auto simp: monitorable_def monitored_def list_all_iff)
  moreover have "info_texts (hwInfo (monitored e h))" using a(6) NUL_in_stamped by (simp add: info_texts_def monitored_def)
  ultimately show "device_ok (monitored e h)" using m(2) by (simp add: device_ok_def monitored_def)
qed

lemma mark_used_sel [simp]: "gpio_io (mark_used p) = gpio_io p" "cache_texts (mark_used p) = cache_texts p" "val (mark_used p) = val p"
  by (simp_all add: mark_used_def cache_texts_def cache_wf_def)

lemma cache_wf_mark [simp]: "cache_wf (mark_used p) = cache_wf p"
  by (simp add: mark_used_def cache_wf_def)

lemma reported_ok: "device_ok h \<Longrightarrow> device_ok (reported h)"
  by (auto simp: device_ok_def reported_def hw_wf_def monitorable_def list_all_iff)

text \<open>The heartbeat, wherever it is defined and whatever state the connection is in.\<close>

lemma reported_idle: "\<not> (\<exists>p\<in>set (pCache h). updated p) \<Longrightarrow> reported h = h"
  by (simp add: reported_def mark_used_def map_idI)

lemma heartbeat_effect:
  assumes "ws_heartbeat sc hw h c = Some (hw', h', c')" "device_ok hw" "heap_ok h" "roomy h" "client_ok c"
  shows "hw' = reported hw \<and> mem h' = mem h \<and> heap_ok h' \<and> roomy h'"
proof (cases "\<exists>p\<in>set (pCache hw). updated p")
  case False
  with assms show ?thesis using look_updated [of "pCache hw"] reported_idle [of hw]
    by (auto simp: ws_heartbeat_def ws_param_monitor_def device_ok_def hw_wf_def)
next
  case True
  let ?s = "pj True 0 (report_doc (kind (hwInfo hw)) (hwInfo hw) (pCache hw))"
  from assms(2) have d: "info_texts (hwInfo hw)" "list_all cache_texts (pCache hw)" "nChNum hw = length (pCache hw)"
    by (simp_all add: device_ok_def hw_wf_def)
  from report_runs [OF assms(3,4) d(1,2)] obtain r h1 where
    r: "ws_format_hardware_data (kind (hwInfo hw)) (hwInfo hw) (Some (map Some (pCache hw))) (length (pCache hw)) h
        = Some (True, Some (map (Some \<circ> mark_used) (pCache hw)), Some r, h1)"
      "r \<noteq> 0" "mem h1 = (mem h)(r \<mapsto> Buf ?s)" "mem h r = None" "heap_ok h1" "roomy h1" by blast
  have fr: "c_free r h1 = Some (h1\<lparr>mem := (mem h1)(r := None)\<rparr>)" by (rule c_free_live) (use r in simp_all)
  from assms(5) obtain vhd rest b where v: "ws_prot c = vhd # rest" "p_user vhd = Some b" by (auto elim!: client_okE)
  have m: "map (the \<circ> (Some \<circ> mark_used)) (pCache hw) = map mark_used (pCache hw)" by simp
  from assms(1) True look_updated [of "pCache hw"] r(1,3) fr v have
    "hw' = hw\<lparr>pCache := map mark_used (pCache hw)\<rparr> \<and> h' = h1\<lparr>mem := (mem h1)(r := None)\<rparr>"
    by (auto simp: ws_heartbeat_def ws_param_monitor_def ws_data_pack_and_send_def d(3) ld_str_def bind_Some_iff comp_def Let_def)
  moreover have "mem (h1\<lparr>mem := (mem h1)(r := None)\<rparr>) = mem h" using r(3,4) by auto
  moreover have "heap_ok (h1\<lparr>mem := (mem h1)(r := None)\<rparr>)" "roomy (h1\<lparr>mem := (mem h1)(r := None)\<rparr>)"
    using r(5,6) by (auto simp: heap_ok_def)
  ultimately show ?thesis by (simp add: reported_def)
qed

lemma pass_effect:
  assumes "loop_pass sc e t = Some t'" "good_pass e" "terminal_ok t"
  shows "terminal_ok t'" "t_hw t' = reported (monitored e (t_hw t))" "mem (t_heap t') = mem (t_heap t)"
proof -
  from assms(3) have ok: "\<not> g_table t" "device_ok (t_hw t)" "heap_ok (t_heap t)" "roomy (t_heap t)" "sound (t_chan t)"
    by (simp_all add: terminal_ok_def)
  note m = monitored_ok [OF ok(2) assms(2)]
  from ok(5) have c: "client_ok (cl (t_chan t))" by (simp add: sound_def)
  from assms(1) m(1) ok(1) obtain hw h cc where
    r: "ws_heartbeat sc (monitored e (t_hw t)) (t_heap t) (cl (t_chan t)) = Some (hw, h, cc)"
      "t' = t\<lparr>t_hw := hw, t_heap := h, t_chan := (t_chan t)\<lparr>cl := cc\<rparr>\<rparr>"
    by (auto simp: loop_pass_def bind_Some_iff Let_def)
  note f = heartbeat_effect [OF r(1) m(2) ok(3,4) c]
  have "sound ((t_chan t)\<lparr>cl := cc\<rparr>)" by (rule step_sound [OF step.heartbeat [OF r(1)] ok(5)])
  with f r(2) ok(1) reported_ok [OF m(2)] show "terminal_ok t'" by (simp add: terminal_ok_def)
  show "t_hw t' = reported (monitored e (t_hw t))" "mem (t_heap t') = mem (t_heap t)" using f r(2) by simp_all
qed

lemma life_ok:
  assumes "life sc ev t t'" "good_event ev" "terminal_ok t"
  shows "terminal_ok t' \<and> mem (t_heap t') = mem (t_heap t)"
  using assms
proof (induction rule: life.induct)
  case (life_pass t e t')
  then have "good_pass e" by (simp add: good_event_def)
  with pass_effect [OF life_pass.hyps(2) this life_pass.prems(2)] show ?case by blast
next
  case (life_sig g t)
  then show ?case by (cases g) (simp_all add: good_event_def signal_handler_def terminal_ok_def)
next
  case (life_chan a t s)
  then show ?case using step_sound by (auto simp: terminal_ok_def)
qed

lemma lives_ok:
  "lives sc t evs t' \<Longrightarrow> list_all good_event evs \<Longrightarrow> terminal_ok t \<Longrightarrow> terminal_ok t' \<and> mem (t_heap t') = mem (t_heap t)"
proof (induction rule: lives.induct)
  case (lives_Cons ev t t1 evs t2)
  with life_ok [OF lives_Cons.hyps(1)] show ?case by simp
qed simp

text \<open>
  The start: the options leave no trace unless they end the program, the loader gives back its memory, and
  the client is set up soundly; so a terminal that starts satisfies the invariant of the loop as soon
  as the configured device can be monitored.
\<close>

lemma option_main_goes_on: "option_main g cs s = Some (None, s') \<Longrightarrow> s' = s"
  by (induction cs) (auto simp: bind_Some_iff split: if_splits)

lemma option_main_ignores: "CHR ''g'' \<notin> set cs \<Longrightarrow> CHR ''d'' \<notin> set cs \<Longrightarrow> option_main g cs s = Some (None, s)"
  by (induction cs) auto

lemma started_ok:
  assumes "main_start k junk attached pptr_ok ptr_ok info buf fs fk opts ctx (Some user) conn ok h = Some (Inr t)"
    and "heap_ok h" "roomy h" "length user = LWS_PRE + WS_TX_MAX_LEN" "conn \<noteq> None \<longrightarrow> ok 0" "device_ok (t_hw t)"
  shows "terminal_ok t" "g_running t" "mem (t_heap t) = mem h"
proof -
  from assms(1) obtain d where "drv_init k junk attached pptr_ok ptr_ok info = Some d"
    by (auto simp: main_start_def bind_Some_iff)
  with assms(1) obtain hw where "drv_init k junk attached pptr_ok ptr_ok info = Some (Inr hw)"
    by (cases d) (simp_all add: main_start_def)
  with assms(1) obtain hw1 h1 g i h2 rc s where
    l: "serve_init buf fs h hw = Some (hw1, h1)"
    and o: "option_main g opts (0 :: int, h1) = Some (None, i, h2)"
    and c: "start_channel_services ctx (Some user) conn ok = Some (rc, s)"
    and t: "t = \<lparr>g_running = True, g_table = False, tsec = 0, t_hw = hw1, t_heap = h2, t_chan = s\<rparr>"
    by (auto simp: main_start_def bind_Some_iff split: option.splits)
  from option_main_goes_on [OF o] have h2: "h2 = h1" by simp
  from l conf_main_init_memory [OF assms(2,3)] have "heap_ok h1 \<and> roomy h1 \<and> mem h1 = mem h"
    by (auto simp: serve_init_def bind_Some_iff)
  with t h2 assms(6) start_sound(1) [OF c assms(5,4)] show "terminal_ok t" "g_running t" "mem (t_heap t) = mem h"
    by (simp_all add: terminal_ok_def)
qed

text \<open>A segment that is there, mounted and configured, and options that do not end the program, start it.\<close>

lemma terminal_starts:
  assumes "k_shmget k (k_ftok k ''/tmp'' SHM_HW_KEY) (1024 * 4) 1 = n" "0 \<le> n" "k_shmat k n = a" "a \<noteq> 0" "attached a = Some shm"
    and "hw_info_init pptr_ok ptr_ok (Some shm) info = Some (0, Some hw)"
    and "conf_main_init buf fs h hw = Some (rc, hw', h')"
    and "CHR ''g'' \<notin> set opts" "CHR ''d'' \<notin> set opts" "conn \<noteq> None \<longrightarrow> ok 0"
  shows "main_start k 0 attached pptr_ok ptr_ok info buf fs fk opts ctx (Some user) conn ok h
    = Some (Inr \<lparr>g_running = True, g_table = False, tsec = 0, t_hw = hw', t_heap = h',
        t_chan = \<lparr>cl = client1 ctx user conn, svc = Polling, exit_sig = False\<rparr>\<rparr>)"
proof -
  have "drv_init k 0 attached pptr_ok ptr_ok info = Some (Inr hw)"
    using assms(1-6) by (simp add: drv_init_def shm_hardware_init_def shm_open_def Let_def c_or_def)
  with assms(7) setup_runs [of conn ok, OF assms(10)] show ?thesis
    by (simp add: main_start_def serve_init_def start_channel_services_def option_main_ignores [OF assms(8,9)])
qed

lemma conf_main_init_runs:
  assumes "heap_ok h" "roomy h" "length content < length junk"
    and "skip_text (content @ drop (length content) junk) = Some s0" "jvalue True s0 (JObj ms) r"
    and "configure ms hw = Some hw'"
    and "fs (CONF_PATH @ CONF_NAME @ ''.'' @ CONF_EXT) = Some \<lparr>rest = content, failing = False\<rparr>"
  shows "\<exists>h'. conf_main_init (Some junk) fs h hw = Some (0, hw', h')"
proof -
  have "emit_str (CONF_PATH @ CONF_NAME @ ''.'' @ CONF_EXT) (256, []) = Some (256, CONF_PATH @ CONF_NAME @ ''.'' @ CONF_EXT)"
    by (simp add: emit_str_def CONF_PATH_def CONF_NAME_def CONF_EXT_def)
  with load_runs [OF assms(1-6)] assms(7) show ?thesis by (auto simp: conf_main_init_def)
qed

text \<open>The report of a device fits the frame buffer.\<close>

definition fits_frame :: "hardware \<Rightarrow> bool" where
  "fits_frame hw \<longleftrightarrow> 5 * length (pj True 0 (report_doc (kind (hwInfo hw)) (hwInfo hw) (pCache hw))) + 60 \<le> 1024 * 100"

definition connected :: "terminal \<Rightarrow> nat \<Rightarrow> bool" where
  "connected t w \<longleftrightarrow> wsi_multi (ws_prot (cl (t_chan t)) ! 0) = Some w"

text \<open>What the host finds in the user buffer.\<close>

definition frame_text_of :: "terminal \<Rightarrow> string option" where
  "frame_text_of t = do { vhd \<leftarrow> nth_opt (ws_prot (cl (t_chan t))) 0; b \<leftarrow> get_buf (cl (t_chan t)) (p_user vhd); c_str b }"

lemma connected_ready:
  assumes "sound (t_chan t)" "connected t w"
  obtains b where "ready (cl (t_chan t)) b w" "\<exists>vhd r. ws_prot (cl (t_chan t)) = vhd # r \<and> p_user vhd = Some b"
  using assms by (auto simp: sound_def connected_def ready_def elim!: client_okE)

lemma pass_runs:
  assumes "terminal_ok t" "good_pass e" "g_running t" "connected t w" "fits_frame (monitored e (t_hw t))"
  shows "\<exists>t'. life sc (Pass e) t t'
    \<and> (if \<exists>p\<in>set (pCache (monitored e (t_hw t))). updated p
       then writable (cl (t_chan t')) = writable (cl (t_chan t)) @ [w]
         \<and> (\<exists>f. frame_text_of t' = Some (pj False 0 f)
           \<and> frame_bytes f = Some (pj True 0 (report_doc (kind (hwInfo (t_hw t))) (hwInfo (monitored e (t_hw t))) (pCache (monitored e (t_hw t))))))
       else t_chan t' = t_chan t)"
proof -
  let ?m = "monitored e (t_hw t)"
  from assms(1) have ok: "\<not> g_table t" "device_ok (t_hw t)" "heap_ok (t_heap t)" "roomy (t_heap t)" "sound (t_chan t)"
    by (simp_all add: terminal_ok_def)
  note m = monitored_ok [OF ok(2) assms(2)]
  have kd: "kind (hwInfo ?m) = kind (hwInfo (t_hw t))" by (simp add: monitored_def)
  from ok(5) have c: "client_ok (cl (t_chan t))" by (simp add: sound_def)
  from connected_ready [OF ok(5) assms(4)] obtain b vhd r where
    b: "ready (cl (t_chan t)) b w" "ws_prot (cl (t_chan t)) = vhd # r" "p_user vhd = Some b" by blast
  from m(2) have d: "hw_wf ?m" "list_all cache_texts (pCache ?m)" "info_texts (hwInfo ?m)" by (simp_all add: device_ok_def)
  note hb = heartbeat_reports_updates_raw [OF d ok(3,4) b(1) assms(5) [unfolded fits_frame_def], of sc]
  show ?thesis
  proof (cases "\<exists>p\<in>set (pCache ?m). updated p")
    case True
    with hb obtain h' c' f where
      r: "ws_heartbeat sc ?m (t_heap t) (cl (t_chan t)) = Some (?m\<lparr>pCache := map mark_used (pCache ?m)\<rparr>, h', c')"
        "writable c' = writable (cl (t_chan t)) @ [w]" "get_buf c' (Some b) \<bind> c_str = Some (pj False 0 f)"
        "frame_bytes f = Some (pj True 0 (report_doc (kind (hwInfo ?m)) (hwInfo ?m) (pCache ?m)))" by auto
    have "ws_prot c' = vhd # r" using heartbeat_preserves [OF r(1) c] b(2) by simp
    with r b(3) m(1) ok(1) True assms(3) kd show ?thesis
      by (intro exI [of _ "t\<lparr>t_hw := ?m\<lparr>pCache := map mark_used (pCache ?m)\<rparr>, t_heap := h', t_chan := (t_chan t)\<lparr>cl := c'\<rparr>\<rparr>"])
        (auto intro!: life_pass simp: loop_pass_def frame_text_of_def)
  next
    case False
    with hb have "ws_heartbeat sc ?m (t_heap t) (cl (t_chan t)) = Some (?m, t_heap t, cl (t_chan t))" by simp
    with m(1) ok(1) assms(3) False show ?thesis
      by (intro exI [of _ "t\<lparr>t_hw := ?m\<rparr>"]) (auto intro!: life_pass simp: loop_pass_def)
  qed
qed

lemma monitored_pending:
  assumes "hw_wf h"
  shows "(\<exists>p\<in>set (pCache (monitored e h)). updated p)
    \<longleftrightarrow> (\<exists>p\<in>set (pCache h). updated p \<or> \<not> feq (val p) (reading (shm_ro (sr_shm e)) (kind (hwInfo h)) p))"
proof -
  have n: "nChNum h = length (pCache h)" using assms by (simp add: hw_wf_def)
  have "(\<exists>p\<in>set (pCache (monitored e h)). updated p)
    \<longleftrightarrow> (\<exists>i<length (pCache h). updated (refreshed (sr_clock e (Suc i)) (shm_ro (sr_shm e)) (kind (hwInfo h)) (pCache h ! i)))"
    by (auto simp: monitored_def n)
  then show ?thesis unfolding bex_nth by (auto simp: refreshed_def updated_def split: if_splits)
qed

lemma reported_value:
  assumes "hw_wf h" "i < nChNum h"
  shows "\<not> updated (pCache (reported (monitored e h)) ! i)"
    "val (pCache (reported (monitored e h)) ! i) = (if feq (val (pCache h ! i)) (reading (shm_ro (sr_shm e)) (kind (hwInfo h)) (pCache h ! i))
       then val (pCache h ! i) else reading (shm_ro (sr_shm e)) (kind (hwInfo h)) (pCache h ! i))"
proof -
  have p: "pCache (reported (monitored e h)) ! i
    = mark_used (refreshed (sr_clock e (Suc i)) (shm_ro (sr_shm e)) (kind (hwInfo h)) (pCache h ! i))"
    using assms by (simp add: reported_def monitored_def)
  show "\<not> updated (pCache (reported (monitored e h)) ! i)" unfolding p by (simp add: mark_used_def updated_def)
  show "val (pCache (reported (monitored e h)) ! i) = (if feq (val (pCache h ! i)) (reading (shm_ro (sr_shm e)) (kind (hwInfo h)) (pCache h ! i))
       then val (pCache h ! i) else reading (shm_ro (sr_shm e)) (kind (hwInfo h)) (pCache h ! i))"
    unfolding p by (simp add: refreshed_def)
qed

lemma pass_reports:
  assumes "lives sc t0 evs t" "list_all good_event evs" "terminal_ok t0"
    and "good_pass e" "g_running t" "connected t w" "fits_frame (monitored e (t_hw t))"
  shows "\<exists>t'. life sc (Pass e) t t' \<and> terminal_ok t' \<and> mem (t_heap t') = mem (t_heap t0)
    \<and> (\<forall>i<nChNum (t_hw t). let p = pCache (t_hw t) ! i; r = reading (shm_ro (sr_shm e)) (kind (hwInfo (t_hw t))) p
         in \<not> updated (pCache (t_hw t') ! i) \<and> val (pCache (t_hw t') ! i) = (if feq (val p) r then val p else r))
    \<and> (if \<exists>p\<in>set (pCache (t_hw t)). updated p \<or> \<not> feq (val p) (reading (shm_ro (sr_shm e)) (kind (hwInfo (t_hw t))) p)
       then writable (cl (t_chan t')) = writable (cl (t_chan t)) @ [w]
         \<and> (\<exists>f. frame_text_of t' = Some (pj False 0 f)
           \<and> frame_bytes f = Some (pj True 0 (report_doc (kind (hwInfo (t_hw t))) (hwInfo (monitored e (t_hw t))) (pCache (monitored e (t_hw t))))))
       else t_chan t' = t_chan t)"
proof -
  from lives_ok [OF assms(1-3)] have ok: "terminal_ok t" and mem: "mem (t_heap t) = mem (t_heap t0)" by blast+
  then have wf: "hw_wf (t_hw t)" by (simp add: terminal_ok_def device_ok_def)
  from pass_runs [OF ok assms(4-7), of sc] obtain t' where
    p: "life sc (Pass e) t t'" and fin: "if \<exists>p\<in>set (pCache (monitored e (t_hw t))). updated p
       then writable (cl (t_chan t')) = writable (cl (t_chan t)) @ [w]
         \<and> (\<exists>f. frame_text_of t' = Some (pj False 0 f)
           \<and> frame_bytes f = Some (pj True 0 (report_doc (kind (hwInfo (t_hw t))) (hwInfo (monitored e (t_hw t))) (pCache (monitored e (t_hw t))))))
       else t_chan t' = t_chan t" by blast
  from p have "loop_pass sc e t = Some t'" by (rule life_PassE)
  note f = pass_effect [OF this assms(4) ok]
  have "\<forall>i<nChNum (t_hw t). let p = pCache (t_hw t) ! i; r = reading (shm_ro (sr_shm e)) (kind (hwInfo (t_hw t))) p
         in \<not> updated (pCache (t_hw t') ! i) \<and> val (pCache (t_hw t') ! i) = (if feq (val p) r then val p else r)"
    unfolding f(2) Let_def using reported_value [OF wf] by blast
  note this and fin [unfolded monitored_pending [OF wf]] and trans [OF f(3) mem]
  with p f(1) show ?thesis by (intro exI [of _ t'] conjI)
qed


text \<open>
  A start on the sample segment: one current channel, which the configuration puts on port 1.
\<close>

definition conf1 :: "(string \<times> json) list" where
  "conf1 = [(''id'', JStr ''x1''), (''params'', JArr [JObj [(''port'', JNum 1 (int_fl 1))]])]"

definition mounted0 :: hardware where
  "mounted0 = \<lparr>hwInfo = info0\<lparr>i_kind := ''cur'' @ replicate 29 NUL, model := strncpy_field 32 ''DA_IO_02''\<rparr>, nChNum = 1, pCache = [zero_cache]\<rparr>"

definition configured0 :: hardware where
  "configured0 = mounted0\<lparr>hwInfo := (hwInfo mounted0)\<lparr>i_id := strncpy_field 64 ''x1''\<rparr>, pCache := [zero_cache\<lparr>gpio_io := 1\<rparr>]\<rparr>"

definition segment0 :: shm_calls where
  "segment0 = \<lparr>k_ftok = (\<lambda>_ i. i), k_shmget = (\<lambda>_ _ _. 5), k_shmat = (\<lambda>_. 4096)\<rparr>"

definition pass0 :: surroundings where
  "pass0 = \<lparr>sr_clock = clock0, sr_shm = shm0, sr_now = 5, sr_ps = 8, sr_malloc = (\<lambda>n. True)\<rparr>"

lemma pass0_good: "good_pass pass0"
  using sample0 by (simp add: good_pass_def pass0_def) (simp add: shm_floats_def shm0_def is_float_def int_fl_def list_all_iff)

lemma mounted0_mounts: "hw_info_init True True (Some shm0) info0 = Some (0, Some mounted0)"
proof -
  have "\<exists>c r. v_type (ver (shm_info shm0)) = ''cur'' @ c # ''DA_IO_02'' @ NUL # r"
    by (rule exI [of _ "CHR '':''"], rule exI [of _ "replicate 19 NUL"]) (simp add: shm0_def numeral_eq_Suc)
  then have "version_text (v_type (ver (shm_info shm0))) ''cur'' ''DA_IO_02''" by (simp add: version_text_def)
  moreover have "info_wf info0" by (simp add: info_wf_def info0_def)
  ultimately obtain kd where "get_device_kind_by_name (Some ''cur'') = Some kd"
    and i: "hw_kind_init (shm_info shm0) info0
      = Some (info0\<lparr>i_kind := ''cur'' @ NUL # drop 4 (i_kind info0), model := strncpy_field 32 ''DA_IO_02'', kind := kd\<rparr>)"
    by (rule kind_init_ok)
  moreover have "get_device_kind_by_name (Some ''cur'') = Some HW_KIND_CUR" by code_simp
  ultimately have k: "kd = HW_KIND_CUR" by simp
  have "info0\<lparr>i_kind := ''cur'' @ NUL # drop 4 (i_kind info0), model := strncpy_field 32 ''DA_IO_02'', kind := HW_KIND_CUR\<rparr>
    = hwInfo mounted0" by (simp add: mounted0_def info0_def numeral_eq_Suc)
  moreover have "currentChNum (shm_info shm0) = 1" by (simp add: shm0_def)
  moreover have "init_type HW_KIND_CUR 0 zero_cache = Some zero_cache" by (simp add: init_type_def zero_cache_def)
  ultimately show ?thesis
    using i k by (simp add: hw_info_init_def objects_new_2arr_def Let_def) (simp add: mounted0_def info0_def)
qed

lemma conf1_configures: "configure conf1 mounted0 = Some configured0"
proof -
  have n: "name_is a (Some b) \<longleftrightarrow> a = b" if "list_all (\<lambda>a. a \<in> set conf_names) [a, b]" for a b
    using that by (simp add: name_is_conf)
  show ?thesis
    by (simp add: configure_def conf1_def info_member_def main_member_def param_member_def text_field_def n conf_names_def
        mounted0_def configured0_def)
qed

lemma configured0_ok: "device_ok configured0"
proof -
  have "hw_wf configured0"
    by (simp add: hw_wf_def info_wf_def configured0_def mounted0_def info0_def cache_wf_def zero_cache_def strncpy_field_def)
  moreover have "list_all cache_texts (pCache configured0)"
    by (simp add: configured0_def cache_texts_def cache_wf_def zero_cache_def is_float_def)
  moreover have "info_texts (hwInfo configured0)"
    by (simp add: configured0_def mounted0_def info0_def info_texts_def strncpy_field_def)
  ultimately show ?thesis
    by (simp add: device_ok_def) (simp add: configured0_def mounted0_def info0_def monitorable_def AI_NUM_MAX_def)
qed

lemma configured0_report_short:
  "length (pj True 0 (report_doc HW_KIND_CUR (hwInfo (monitored pass0 configured0)) (pCache (monitored pass0 configured0)))) \<le> 1000"
  by code_simp

lemma configured0_fits: "fits_frame (monitored pass0 configured0)"
proof -
  have "kind (hwInfo (monitored pass0 configured0)) = HW_KIND_CUR"
    by (simp add: monitored_def configured0_def mounted0_def info0_def)
  with configured0_report_short show ?thesis by (simp add: fits_frame_def del: pj.simps)
qed

lemma started0:
  obtains buf h' where "main_start segment0 0 (\<lambda>_. Some shm0) True True info0 (Some buf)
      (\<lambda>_. Some \<lparr>rest = pj False 0 (JObj conf1), failing = False\<rparr>) fk [] ctx (Some user) (Some 7) (\<lambda>_. True) heap0
    = Some (Inr \<lparr>g_running = True, g_table = False, tsec = 0, t_hw = configured0, t_heap = h',
        t_chan = \<lparr>cl = client1 ctx user (Some 7), svc = Polling, exit_sig = False\<rparr>\<rparr>)"
proof -
  let ?c = "pj False 0 (JObj conf1)" and ?junk = "replicate (Suc (length (pj False 0 (JObj conf1)))) CHR ''7''"
  have j: "jok (JObj conf1)" by (simp add: conf1_def INT_MIN_def INT_MAX_def)
  have "skip_text (?c @ drop (length ?c) ?junk) = Some (?c @ drop (length ?c) ?junk)"
    by (rule skip_visible [OF visible_append [OF visible_pj [OF j]]])
  from conf_main_init_runs [OF heap0_ok heap0_room _ this object_derivable [OF j] conf1_configures,
      of "\<lambda>_. Some \<lparr>rest = pj False 0 (JObj conf1), failing = False\<rparr>"]
  obtain h' where "conf_main_init (Some ?junk) (\<lambda>_. Some \<lparr>rest = pj False 0 (JObj conf1), failing = False\<rparr>) heap0 mounted0
    = Some (0, configured0, h')" by auto
  from that [OF terminal_starts [where k = segment0 and n = 5 and a = 4096, OF _ _ _ _ _ mounted0_mounts this]]
  show ?thesis by (simp add: segment0_def)
qed


section \<open>The end\<close>

text \<open>After a signal to stop no pass is made any more, and \<open>main\<close> returns 0.\<close>

lemma stopped_stays: "lives sc t evs t' \<Longrightarrow> \<not> g_running t \<Longrightarrow> \<not> g_running t' \<and> t_hw t' = t_hw t \<and> main_end t' = Some 0"
proof (induction rule: lives.induct)
  case (lives_Cons ev t t1 evs t2)
  from lives_Cons.hyps(1) lives_Cons.prems have "\<not> g_running t1 \<and> t_hw t1 = t_hw t"
  proof (cases rule: life.cases)
    case (life_sig g)
    then show ?thesis using lives_Cons.prems by (cases g) (simp_all add: signal_handler_def signal_table_handler_def)
  qed (use lives_Cons.prems in auto)
  with lives_Cons.IH show ?case by simp
qed (simp add: main_end_def)

text \<open>The start refuses a set garbage pointer, and a terminal it starts is the one before its first pass.\<close>

lemma drv_init_garbage: "junk \<noteq> 0 \<Longrightarrow> drv_init k junk attached pptr_ok ptr_ok info = None"
  by (simp add: drv_init_def shm_hardware_init_def shm_open_def Let_def)

lemma drv_init_no_segment:
  assumes "\<forall>key sz flag. k_shmget k key sz flag = - 1"
  shows "drv_init k 0 attached pptr_ok ptr_ok info = Some (Inl 1)"
  using assms by (simp add: drv_init_def shm_hardware_init_def shm_open_def hw_info_init_def Let_def)

text \<open>Once a parameter has been stamped, the signal for the table lets the next pass write behind a row.\<close>

lemma table_signal_overflows:
  assumes "loop_pass sc e (t\<lparr>g_table := False\<rparr>) = Some t'" "nChNum (t_hw t') = Suc n" "pCache (t_hw t') = p # ps"
    and "c_str (param_time p) = Some s" "length s = 23" "g_table t"
  shows "loop_pass sc e t = None"
proof -
  from assms(1) obtain hw1 hw h c where r: "hw_heartbeat (sr_clock e) (sr_shm e) (t_hw t) = Some hw1"
    "ws_heartbeat sc hw1 (t_heap t) (cl (t_chan t)) = Some (hw, h, c)" "t_hw t' = hw"
    by (auto simp: loop_pass_def bind_Some_iff Let_def)
  have a: "fst (ratelimit_connects (sr_now e) (tsec t) 0) = 1" by (simp add: ratelimit_connects_def)
  have "show_hw_table (sr_ps e) (sr_malloc e) hw = None"
    using assms(2,3) r(3) table_line_overflows [OF assms(4,5), of hw "Suc 0"]
    by (cases "show_hw_table (sr_ps e) (sr_malloc e) hw") (auto simp: show_hw_table_def bind_Some_iff)
  with r a assms(6) show ?thesis
    by (cases "ratelimit_connects (sr_now e) (tsec t) 0") (simp add: loop_pass_def)
qed

end
