(* ===== verification/ShmTools.thy ===== *)
theory ShmTools
  imports MainLoop "HOL-Library.Signed_Division"
begin

text \<open>
  The tools beside the terminal: the process that simulates the sampling hardware
  (\<open>2.Tool/wdd_shm_test\<close>), which creates the segment the terminal mounts and writes new readings into it
  for ever, and the pair \<open>shm_slave\<close> and \<open>shm_master\<close> (\<open>2.Tool/shm_test\<close>), which hand texts over a
  flag in shared memory.  The simulator is what the assumptions on the segment are met by: the first
  half ends with the terminal mounting what it wrote, after any number of rounds.
\<close>

unbundle bit_operations_syntax

section \<open>The simulated sampling process\<close>

subsection \<open>The code\<close>

text \<open>\<open>argv[1]\<close> is null without an argument; it is printed into \<open>char dtyep[32]\<close> and copied into the version.\<close>

definition sampler_setup :: "string option \<Rightarrow> SHM_DATA_DEF \<Rightarrow> (fl \<times> SHM_DATA_DEF) option" where
  "sampler_setup arg s = do {
     let rands = of_int_fl binary32 2;
     let i = (shm_info s)\<lparr>currentChNum := 4, voltageChNum := 4, aiChNumI := 4, aiChNumV := 4, diChNum := 2\<rparr>;
     a \<leftarrow> arg;
     (n, dtyep) \<leftarrow> emit_str (a @ '':DA_IO_01'') (32, []);
     t \<leftarrow> splice_opt (v_type (ver i)) 0 (dtyep @ [NUL]);
     let i = i\<lparr>ver := (ver i)\<lparr>v_type := t\<rparr>,
       env_set := (env_set i)\<lparr>isInsHumidity := 1, isInsTemperature := 1, isInsNoise := 1, isInsPm10 := 1\<rparr>\<rparr>;
     let rands = fadd binary32 rands (of_int_fl binary32 1);
     let d = (shm_ro s)\<lparr>env_data := (env_data (shm_ro s))\<lparr>temperature := rands\<rparr>\<rparr>;
     Some (rands, s\<lparr>shm_info := i, shm_ro := d\<rparr>)
   }"

text \<open>The start: the segment is created when it is missing, and the calls report failure with -1.\<close>

definition sampler_start ::
  "shm_calls \<Rightarrow> (int \<Rightarrow> SHM_DATA_DEF option) \<Rightarrow> string option \<Rightarrow> (int + fl \<times> SHM_DATA_DEF) option" where
  "sampler_start k attached arg = (
     let shmid = k_shmget k (k_ftok k ''/tmp'' SHM_HW_KEY) (1024 * 4) (438 OR IPC_CREAT) in
     if shmid = - 1 then Some (Inl 1)
     else let shm = k_shmat k shmid in
       if shm = - 1 then Some (Inl 1)
       else do { s \<leftarrow> attached shm; r \<leftarrow> sampler_setup arg s; Some (Inr r) })"

text \<open>A round of the endless loop: the loops over the channels read, print, and write the readings.\<close>

definition current_step :: "fl \<Rightarrow> nat \<Rightarrow> fl list \<Rightarrow> fl list option" where
  "current_step rands i xs = do {
     printed \<leftarrow> nth_opt xs i;
     (if i mod 2 \<noteq> 0 then Some xs else upd_opt xs i (fmul binary32 (of_int_fl binary32 (int i)) rands)) }"

definition voltage_step :: "fl \<Rightarrow> nat \<Rightarrow> fl list \<Rightarrow> fl list option" where
  "voltage_step rands i xs = do {
     v \<leftarrow> to_int 32 (fmul binary32 (fmul binary32 (of_int_fl binary32 (int i)) rands) (of_int_fl binary32 13));
     upd_opt xs i (of_int_fl binary32 (v smod 123)) }"

definition aiI_step :: "nat \<Rightarrow> fl list \<Rightarrow> fl list option" where
  "aiI_step i xs = do { x \<leftarrow> nth_opt xs i; upd_opt xs i (fadd binary32 x (of_int_fl binary32 1)) }"

definition aiV_step :: "fl \<Rightarrow> nat \<Rightarrow> fl list \<Rightarrow> fl list option" where
  "aiV_step rands i xs = upd_opt xs i (fmul binary32 (of_int_fl binary32 (int i)) rands)"

definition sampler_round :: "fl \<times> SHM_DATA_DEF \<Rightarrow> (fl \<times> SHM_DATA_DEF) option" where
  "sampler_round p = (case p of (rands, s) \<Rightarrow> do {
     let rands = fadd binary32 rands (of_int_fl binary32 1);
     let i = shm_info s;
     let d = shm_ro s;
     cur \<leftarrow> for_up (currentChNum i) 0 (current_step rands) (currentA d);
     vol \<leftarrow> for_up (voltageChNum i) 0 (voltage_step rands) (voltageV d);
     aiI \<leftarrow> for_up (aiChNumI i) 0 aiI_step (aiValI d);
     aiV \<leftarrow> for_up (aiChNumV i) 0 (aiV_step rands) (aiValV d);
     Some (rands, s\<lparr>shm_ro := d\<lparr>currentA := cur, voltageV := vol, aiValI := aiI, aiValV := aiV,
       env_data := (env_data d)\<lparr>temperature := rands\<rparr>\<rparr>\<rparr>)
   })"

primrec sampler_rounds :: "nat \<Rightarrow> fl \<times> SHM_DATA_DEF \<Rightarrow> (fl \<times> SHM_DATA_DEF) option" where
  "sampler_rounds 0 p = Some p"
| "sampler_rounds (Suc n) p = sampler_rounds n p \<bind> sampler_round"

subsection \<open>Its arithmetic\<close>

text \<open>Rounding keeps a magnitude of at least one that is not too large finite and close.\<close>

lemma fround_near:
  assumes "1 \<le> q" "q < 2 ^ 100"
  obtains r where "fround binary32 s q = Fin s r" "\<bar>r - q\<bar> \<le> q / 2 ^ 24"
proof -
  have pos: "0 < q" using assms(1) by simp
  define e where "e = ilog 2 q - 23"
  have l0: "0 \<le> ilog 2 q"
  proof -
    have "p2 0 < p2 (ilog 2 q + 1)" using ilog2_bounds [OF pos] assms(1) by simp
    then show ?thesis by (simp only: p2_less_iff)
  qed
  have "p2 e \<le> p2 (ilog 2 q)" by (rule p2_mono) (simp add: e_def)
  then have le: "p2 e \<le> q" using ilog2_bounds [OF pos] by linarith
  have "of_int (rne (q / p2 e)) \<le> q / p2 e + 1 / 2" using rne_error [of "q / p2 e"] by linarith
  then have "of_int (rne (q / p2 e)) * p2 e \<le> (q / p2 e + 1 / 2) * p2 e" by (intro mult_right_mono) simp_all
  also have "\<dots> = q + p2 e / 2" by (simp add: field_simps)
  also have "\<dots> < p2 128" using le assms(2) by (simp add: p2_def)
  finally have "\<not> p2 128 \<le> of_int (rne (q / p2 e)) * p2 e" by simp
  moreover have "max (- 149) (ilog 2 q - 24 + 1) = e" using l0 by (simp add: e_def)
  ultimately have f: "fround binary32 s q = Fin s (of_int (rne (q / p2 e)) * p2 e)"
    using pos by (simp add: fround_def Let_def)
  with fround_error [OF pos _ f] l0 that show thesis by simp
qed

lemma fround_pow24: "fround binary32 s 16777216 = Fin s 16777216" "fround binary32 s 16777217 = Fin s 16777216"
proof -
  have "rne (16777216 / p2 1 :: rat) = 8388608" "rne (16777217 / p2 1 :: rat) = 8388608"
    by (simp_all add: p2_def rne_def Let_def fl_simps)
  then show "fround binary32 s 16777216 = Fin s 16777216" "fround binary32 s 16777217 = Fin s 16777216"
    using fround_at [of 24 16777216 1 binary32 8388608 s] fround_at [of 24 16777217 1 binary32 8388608 s]
    by (simp_all add: p2_def)
qed

lemma counter_step:
  assumes "0 \<le> r" "r \<le> 2 ^ 24"
  shows "fadd binary32 (int_fl r) (of_int_fl binary32 1) = int_fl (min (r + 1) (2 ^ 24))"
proof (cases "r + 1 < 2 ^ 24")
  case True
  with assms show ?thesis by (simp add: of_int_fl_exact fadd_int)
next
  case False
  then have "r = 16777215 \<or> r = 16777216" using assms(2) by auto
  then show ?thesis by (auto simp: of_int_fl_exact) (simp_all add: int_fl_def of_val_def fround_pow24)
qed

text \<open>The products of a channel number with the counter, and the voltage that is made of it.\<close>

lemma product_near:
  assumes "0 \<le> j" "j \<le> 3" "0 \<le> r" "r \<le> 2 ^ 24"
  obtains q where "fmul binary32 (of_int_fl binary32 j) (int_fl r) = Fin False q" "q = 0 \<or> 1 / 2 \<le> q" "q \<le> 50331651"
proof -
  have m: "fmul binary32 (of_int_fl binary32 j) (int_fl r) = fround binary32 False (of_int (j * r))"
    using assms by (simp add: of_int_fl_exact) (simp add: int_fl_def)
  show thesis
  proof (cases "j * r = 0")
    case True
    then show thesis by (intro that [of 0]) (simp_all add: m, simp add: fround_def)
  next
    case False
    moreover have "0 \<le> j * r" using assms by simp
    ultimately have 1: "(1 :: rat) \<le> of_int (j * r)" by linarith
    have "j * r \<le> 3 * 2 ^ 24" using assms by (intro mult_mono) simp_all
    then have "(of_int (j * r) :: rat) \<le> of_int 50331648" unfolding of_int_le_iff by simp
    then have 2: "(of_int (j * r) :: rat) \<le> 50331648" by simp
    from fround_near [OF 1, of False] 2 obtain q where
      q: "fround binary32 False (of_int (j * r)) = Fin False q" "\<bar>q - of_int (j * r)\<bar> \<le> of_int (j * r) / 2 ^ 24" by auto
    from q(2) have "q \<le> of_int (j * r) + of_int (j * r) / 16777216" "of_int (j * r) - of_int (j * r) / 16777216 \<le> q"
      unfolding abs_le_iff by simp_all
    with 1 2 q(1) show thesis by (intro that [of q]) (simp_all add: m)
  qed
qed

lemma voltage_defined:
  assumes "0 \<le> j" "j \<le> 3" "0 \<le> r" "r \<le> 2 ^ 24"
  obtains v where "to_int 32 (fmul binary32 (fmul binary32 (of_int_fl binary32 j) (int_fl r)) (of_int_fl binary32 13)) = Some v"
    "0 \<le> v" "v < 2 ^ 31"
proof -
  from product_near [OF assms] obtain q where q: "fmul binary32 (of_int_fl binary32 j) (int_fl r) = Fin False q"
    "q = 0 \<or> 1 / 2 \<le> q" "q \<le> 50331651" .
  have m: "fmul binary32 (Fin False q) (of_int_fl binary32 13) = fround binary32 False (q * 13)"
    by (simp add: of_int_fl_exact) (simp add: int_fl_def)
  obtain u where u: "fround binary32 False (q * 13) = Fin False u" "0 \<le> u" "u < 2 ^ 31"
  proof (cases "q = 0")
    case True
    then show thesis by (intro that [of 0]) (simp_all add: fround_def)
  next
    case False
    with q have "1 \<le> q * 13" "q * 13 < 2 ^ 100" by simp_all
    then obtain u where u: "fround binary32 False (q * 13) = Fin False u" "\<bar>u - q * 13\<bar> \<le> q * 13 / 2 ^ 24"
      by (rule fround_near)
    from u(2) have "u \<le> q * 13 + q * 13 / 16777216" "q * 13 - q * 13 / 16777216 \<le> u" unfolding abs_le_iff by simp_all
    with q False u(1) show thesis by (intro that [of u]) simp_all
  qed
  from u(2,3) have "0 \<le> \<lfloor>u\<rfloor>" "\<lfloor>u\<rfloor> < 2 ^ 31" by (simp_all add: floor_less_iff)
  with u show thesis by (intro that [of "\<lfloor>u\<rfloor>"]) (simp_all add: q(1) m trunc_def)
qed

subsection \<open>A round\<close>

lemma list_update_same: "ys ! i = y \<Longrightarrow> ys[i := y] = ys"
  by (rule list_update_id [of ys i, THEN subst]) simp

text \<open>A loop that rewrites the first \<open>n\<close> cells one after the other.\<close>

definition rewritten :: "nat \<Rightarrow> (nat \<Rightarrow> 'a \<Rightarrow> 'a) \<Rightarrow> 'a list \<Rightarrow> 'a list" where
  "rewritten n g xs = map (\<lambda>i. if i < n then g i (xs ! i) else xs ! i) [0..<length xs]"

lemma length_rewritten [simp]: "length (rewritten n g xs) = length xs"
  by (simp add: rewritten_def)

lemma nth_rewritten: "i < length xs \<Longrightarrow> rewritten n g xs ! i = (if i < n then g i (xs ! i) else xs ! i)"
  by (simp add: rewritten_def)

lemma for_up_rewrites:
  assumes "n \<le> length xs" "\<And>i ys. i < n \<Longrightarrow> length ys = length xs \<Longrightarrow> ys ! i = xs ! i \<Longrightarrow> f i ys = Some (ys[i := g i (xs ! i)])"
  shows "for_up n 0 f xs = Some (rewritten n g xs)"
proof -
  have "rewritten 0 g xs = xs" by (simp add: rewritten_def map_nth)
  moreover have "for_up n 0 f (rewritten 0 g xs) = Some (rewritten n g xs)"
  proof (rule for_up_state [where g = "\<lambda>k. rewritten k g xs"])
    fix k assume k: "k < n"
    then have "f k (rewritten k g xs) = Some ((rewritten k g xs)[k := g k (xs ! k)])"
      using assms by (simp add: nth_rewritten)
    also have "(rewritten k g xs)[k := g k (xs ! k)] = rewritten (Suc k) g xs"
      using k assms(1) by (intro nth_equalityI) (auto simp: nth_rewritten nth_list_update less_Suc_eq)
    finally show "f (0 + k) (rewritten k g xs) = Some (rewritten (Suc k) g xs)" by simp
  qed
  ultimately show ?thesis by simp
qed

text \<open>What a round writes for a counter \<open>r\<close>: products of the counter, on the even current channels and on the voltage inputs, and steps of one.\<close>

definition scaled :: "int \<Rightarrow> nat \<Rightarrow> fl" where
  "scaled r i = fmul binary32 (of_int_fl binary32 (int i)) (int_fl r)"

definition volts :: "int \<Rightarrow> nat \<Rightarrow> int" where
  "volts r i = the (to_int 32 (fmul binary32 (scaled r i) (of_int_fl binary32 13))) mod 123"

definition sampled :: "int \<Rightarrow> SHM_DATA_RO \<Rightarrow> SHM_DATA_RO" where
  "sampled r d = d\<lparr>currentA := rewritten 4 (\<lambda>i x. if odd i then x else scaled r i) (currentA d),
     voltageV := rewritten 4 (\<lambda>i x. int_fl (volts r i)) (voltageV d),
     aiValI := rewritten 4 (\<lambda>i x. fadd binary32 x (of_int_fl binary32 1)) (aiValI d),
     aiValV := rewritten 4 (\<lambda>i x. scaled r i) (aiValV d),
     env_data := (env_data d)\<lparr>temperature := int_fl r\<rparr>\<rparr>"

text \<open>The segment as the set-up leaves it.\<close>

definition simulated :: "SHM_DATA_DEF \<Rightarrow> bool" where
  "simulated s \<longleftrightarrow> shm_wf s \<and> shm_floats (shm_ro s) \<and> currentChNum (shm_info s) = 4 \<and> voltageChNum (shm_info s) = 4
     \<and> aiChNumI (shm_info s) = 4 \<and> aiChNumV (shm_info s) = 4"

lemma voltage_step_writes:
  assumes "i < 4" "0 \<le> r" "r \<le> 2 ^ 24" "i < length ys"
  shows "voltage_step (int_fl r) i ys = Some (ys[i := int_fl (volts r i)])" "0 \<le> volts r i" "volts r i < 123"
proof -
  from voltage_defined [of "int i" r] assms obtain v where
    v: "to_int 32 (fmul binary32 (scaled r i) (of_int_fl binary32 13)) = Some v" "0 \<le> v" by (auto simp: scaled_def)
  then have e: "volts r i = v mod 123" "v smod 123 = v mod 123" by (auto simp: volts_def smod_int_alt_def sgn_if)
  have "\<bar>v mod 123\<bar> < 2 ^ 24" using pos_mod_bound [of 123 v] pos_mod_sign [of 123 v] by simp
  with v e assms(4) show "voltage_step (int_fl r) i ys = Some (ys[i := int_fl (volts r i)])"
    by (simp add: voltage_step_def scaled_def of_int_fl_exact)
  show "0 \<le> volts r i" "volts r i < 123" using e by simp_all
qed

lemma sampler_round_writes:
  assumes "simulated s" "0 \<le> r" "r \<le> 2 ^ 24"
  shows "sampler_round (int_fl r, s) = Some (int_fl (min (r + 1) (2 ^ 24)), s\<lparr>shm_ro := sampled (min (r + 1) (2 ^ 24)) (shm_ro s)\<rparr>)"
proof -
  define q where "q = min (r + 1) (2 ^ 24)"
  have r: "0 \<le> q" "q \<le> 2 ^ 24" unfolding q_def using assms(2) by simp_all
  from assms(1) have l: "length (currentA (shm_ro s)) = 32" "length (voltageV (shm_ro s)) = 32" "length (aiValI (shm_ro s)) = 32"
    "length (aiValV (shm_ro s)) = 32" "currentChNum (shm_info s) = 4" "voltageChNum (shm_info s) = 4" "aiChNumI (shm_info s) = 4" "aiChNumV (shm_info s) = 4"
    by (simp_all add: simulated_def shm_wf_def AI_NUM_MAX_def)
  have "for_up 4 0 (current_step (int_fl q)) (currentA (shm_ro s)) = Some (rewritten 4 (\<lambda>i x. if odd i then x else scaled q i) (currentA (shm_ro s)))"
    by (rule for_up_rewrites) (auto simp: l current_step_def scaled_def mod2_eq_if list_update_same)
  moreover have "for_up 4 0 (voltage_step (int_fl q)) (voltageV (shm_ro s)) = Some (rewritten 4 (\<lambda>i x. int_fl (volts q i)) (voltageV (shm_ro s)))"
    by (rule for_up_rewrites) (simp_all add: l voltage_step_writes(1) [OF _ r])
  moreover have "for_up 4 0 aiI_step (aiValI (shm_ro s)) = Some (rewritten 4 (\<lambda>i x. fadd binary32 x (of_int_fl binary32 1)) (aiValI (shm_ro s)))"
    by (rule for_up_rewrites) (simp_all add: l aiI_step_def)
  moreover have "for_up 4 0 (aiV_step (int_fl q)) (aiValV (shm_ro s)) = Some (rewritten 4 (\<lambda>i x. scaled q i) (aiValV (shm_ro s)))"
    by (rule for_up_rewrites) (simp_all add: l aiV_step_def scaled_def)
  moreover have "fadd binary32 (int_fl r) (of_int_fl binary32 1) = int_fl q"
    unfolding q_def using counter_step [OF assms(2,3)] .
  ultimately have "sampler_round (int_fl r, s) = Some (int_fl q, s\<lparr>shm_ro := sampled q (shm_ro s)\<rparr>)"
    by (simp add: sampler_round_def l sampled_def Let_def)
  then show ?thesis unfolding q_def .
qed

lemma rewritten_floats:
  "list_all is_float xs \<Longrightarrow> (\<And>i x. i < n \<Longrightarrow> is_float x \<Longrightarrow> is_float (g i x)) \<Longrightarrow> list_all is_float (rewritten n g xs)"
  by (auto simp: list_all_length nth_rewritten)

lemma is_float_int: "\<bar>i\<bar> < 2 ^ 24 \<or> \<bar>i\<bar> = 2 ^ 24 \<Longrightarrow> is_float (int_fl i)"
  by (auto simp: is_float_def int_fl_def)

lemma sampled_ok:
  assumes "simulated s" "0 \<le> r" "r \<le> 2 ^ 24"
  shows "simulated (s\<lparr>shm_ro := sampled r (shm_ro s)\<rparr>)"
proof -
  from assms(1) have d: "shm_wf s" "shm_floats (shm_ro s)" by (simp_all add: simulated_def)
  have f: "is_float (int_fl r)" using assms(2,3) by (intro is_float_int) auto
  have "is_float (scaled r i)" if "i < 4" for i
  proof -
    from product_near [of "int i" r] that assms(2,3) obtain q where "scaled r i = Fin False q" "q = 0 \<or> 1 / 2 \<le> q" "q \<le> 50331651"
      by (auto simp: scaled_def)
    then show ?thesis by (auto simp: is_float_def)
  qed
  moreover have "is_float (int_fl (volts r i))" if "i < 4" for i
    using voltage_step_writes(2,3) [OF that assms(2,3), of "replicate 4 NaN"] that by (intro is_float_int) simp
  ultimately show ?thesis using assms(1) d f
    by (simp add: simulated_def shm_wf_def shm_floats_def sampled_def rewritten_floats is_float_fadd)
qed

lemma sampler_rounds_run:
  assumes "simulated s" "0 \<le> r" "r \<le> 2 ^ 24"
  shows "\<exists>s'. sampler_rounds n (int_fl r, s) = Some (int_fl (min (r + int n) (2 ^ 24)), s') \<and> simulated s' \<and> shm_info s' = shm_info s
    \<and> (n \<noteq> 0 \<longrightarrow> (\<exists>d. shm_ro s' = sampled (min (r + int n) (2 ^ 24)) d))"
proof (induction n)
  case 0
  with assms show ?case by simp
next
  case (Suc n)
  then obtain s1 where s1: "sampler_rounds n (int_fl r, s) = Some (int_fl (min (r + int n) (2 ^ 24)), s1)" "simulated s1"
    "shm_info s1 = shm_info s" by blast
  define q where "q = min (r + int n) (2 ^ 24)"
  define q' where "q' = min (r + int (Suc n)) (2 ^ 24)"
  have q: "0 \<le> q" "q \<le> 2 ^ 24" "min (q + 1) (2 ^ 24) = q'" "0 \<le> q'" "q' \<le> 2 ^ 24" using assms(2) by (auto simp: q_def q'_def)
  have "sampler_rounds (Suc n) (int_fl r, s) = Some (int_fl q', s1\<lparr>shm_ro := sampled q' (shm_ro s1)\<rparr>)"
    using s1(1) sampler_round_writes [OF s1(2) q(1,2)] unfolding q_def [symmetric] q(3) by simp
  moreover have "simulated (s1\<lparr>shm_ro := sampled q' (shm_ro s1)\<rparr>)" by (rule sampled_ok [OF s1(2) q(4,5)])
  ultimately show ?case unfolding q'_def [symmetric] using s1(3) by auto
qed

subsection \<open>The set-up, and the terminal that mounts it\<close>

lemma sampler_setup_runs:
  assumes "length k = 3" "NUL \<notin> set k" "shm_wf s" "shm_floats (shm_ro s)"
  obtains s' where "sampler_setup (Some k) s = Some (int_fl 3, s')" "simulated s'"
    "version_text (v_type (ver (shm_info s'))) k ''DA_IO_01''"
proof -
  let ?t = "(k @ '':DA_IO_01'') @ NUL # drop 13 (v_type (ver (shm_info s)))"
  have l: "length (v_type (ver (shm_info s))) = 32" using assms(3) by (simp add: shm_wf_def)
  have f: "fadd binary32 (of_int_fl binary32 2) (of_int_fl binary32 1) = int_fl 3" by (simp add: of_int_fl_exact fadd_int)
  have "sampler_setup (Some k) s = Some (int_fl 3, s\<lparr>
      shm_info := (shm_info s)\<lparr>currentChNum := 4, voltageChNum := 4, aiChNumI := 4, aiChNumV := 4, diChNum := 2,
        ver := (ver (shm_info s))\<lparr>v_type := ?t\<rparr>,
        env_set := (env_set (shm_info s))\<lparr>isInsHumidity := 1, isInsTemperature := 1, isInsNoise := 1, isInsPm10 := 1\<rparr>\<rparr>,
      shm_ro := (shm_ro s)\<lparr>env_data := (env_data (shm_ro s))\<lparr>temperature := int_fl 3\<rparr>\<rparr>\<rparr>)"
    using assms(1) l by (simp add: sampler_setup_def f emit_str_def splice_opt_def Let_def)
  moreover have "version_text ?t k ''DA_IO_01''"
    unfolding version_text_def using assms(1,2) by (intro conjI exI [of _ "CHR '':''"] exI [of _ "drop 13 (v_type (ver (shm_info s)))"]) simp_all
  moreover have "is_float (int_fl 3)" by (rule is_float_int) simp
  ultimately show thesis using that assms(1,3,4) l by (simp add: simulated_def shm_wf_def shm_floats_def)
qed

text \<open>C16: The simulated hardware feeds the terminal for ever: for every kind of three letters the set-up is
  defined and every number of rounds of the simulator is (its conversions to \<open>int\<close> never overflow: the
  \<open>float\<close> counter it multiplies stops at 2 to the 24); the segment then always holds what the main
  loop assumes of it, the outputs scaled by the counter, and a terminal that mounts it is well formed,
  of the kind that was named, with the simulated channels.\<close>

theorem sampler_feeds_terminal:
  assumes "length k = 3" "NUL \<notin> set k" "shm_wf s" "shm_floats (shm_ro s)" "info_wf i0"
  shows "\<exists>s0. sampler_setup (Some k) s = Some (int_fl 3, s0)
    \<and> (\<exists>s1. let c = min (3 + int n) (2 ^ 24) in sampler_rounds n (int_fl 3, s0) = Some (int_fl c, s1)
      \<and> (good_clock (sr_clock e) \<longrightarrow> good_pass (e\<lparr>sr_shm := s1\<rparr>))
      \<and> (0 < n \<longrightarrow> temperature (env_data (shm_ro s1)) = int_fl c
          \<and> (\<forall>i<4. aiValV (shm_ro s1) ! i = scaled c i \<and> (even i \<longrightarrow> currentA (shm_ro s1) ! i = scaled c i)
            \<and> (\<exists>v. voltageV (shm_ro s1) ! i = int_fl v \<and> 0 \<le> v \<and> v < 123)))
      \<and> (\<exists>h kd. hw_info_init True True (Some s1) i0 = Some (0, Some h) \<and> hw_wf h
          \<and> get_device_kind_by_name (Some k) = Some kd \<and> kind (hwInfo h) = kd
          \<and> nChNum h = (if kd = HW_KIND_ENV then 7 else if kd \<in> {HW_KIND_COL, HW_KIND_TBD} then 1 else 4)))"
proof -
  from sampler_setup_runs [OF assms(1-4)] obtain s0 where s0: "sampler_setup (Some k) s = Some (int_fl 3, s0)" "simulated s0"
    "version_text (v_type (ver (shm_info s0))) k ''DA_IO_01''" .
  define c where "c = min (3 + int n) (2 ^ 24)"
  have c: "0 \<le> c" "c \<le> 2 ^ 24" by (simp_all add: c_def)
  from sampler_rounds_run [OF s0(2), of 3 n] obtain s1 where
    s1: "sampler_rounds n (int_fl 3, s0) = Some (int_fl c, s1)" "simulated s1" "shm_info s1 = shm_info s0"
      "n \<noteq> 0 \<longrightarrow> (\<exists>d. shm_ro s1 = sampled c d)"
    unfolding c_def by auto
  have w: "shm_wf s1" "shm_floats (shm_ro s1)" using s1(2) by (simp_all add: simulated_def)
  have g: "good_clock (sr_clock e) \<longrightarrow> good_pass (e\<lparr>sr_shm := s1\<rparr>)" using w by (simp add: good_pass_def)
  have out: "temperature (env_data (shm_ro s1)) = int_fl c
      \<and> (\<forall>i<4. aiValV (shm_ro s1) ! i = scaled c i \<and> (even i \<longrightarrow> currentA (shm_ro s1) ! i = scaled c i)
        \<and> (\<exists>v. voltageV (shm_ro s1) ! i = int_fl v \<and> 0 \<le> v \<and> v < 123))" if "0 < n"
  proof -
    from s1(4) that obtain d where d: "shm_ro s1 = sampled c d" by auto
    then have "length (aiValV d) = 32" "length (currentA d) = 32" "length (voltageV d) = 32"
      using w(1) by (simp_all add: shm_wf_def sampled_def AI_NUM_MAX_def)
    then show ?thesis using voltage_step_writes(2,3) [OF _ c, of _ "replicate 4 NaN"] by (auto simp: d sampled_def nth_rewritten)
  qed
  from s1(2,3) s0(3) have v: "version_text (v_type (ver (shm_info s1))) k ''DA_IO_01''" "aiChNumI (shm_info s1) < 65536"
    "currentChNum (shm_info s1) < 65536" "voltageChNum (shm_info s1) < 65536" by (simp_all add: simulated_def)
  from mount_runs [OF v(1) assms(5) v(2-4)] obtain h kd where
    h: "hw_info_init True True (Some s1) i0 = Some (0, Some h)" "hw_wf h" "kind (hwInfo h) = kd"
      "get_device_kind_by_name (Some k) = Some kd" "nChNum h = hw_get_channel_sum kd (shm_info s1)" by blast
  from h(5) s1(2) have "nChNum h = (if kd = HW_KIND_ENV then 7 else if kd \<in> {HW_KIND_COL, HW_KIND_TBD} then 1 else 4)"
    by (cases kd) (simp_all add: simulated_def get_env_isEnable_number_def JSON_HW_ENV_INS_NUM_def)
  with s0(1) s1(1) g out h show ?thesis unfolding Let_def c_def [symmetric] by blast
qed

theorem sampler_feeds_terminal_witness:
  "\<exists>s0 s1. sampler_setup (Some ''VOL'') shm0 = Some (int_fl 3, s0) \<and> sampler_rounds 20000000 (int_fl 3, s0) = Some (int_fl 16777216, s1)
    \<and> (\<exists>h. hw_info_init True True (Some s1) info0 = Some (0, Some h) \<and> kind (hwInfo h) = HW_KIND_VOL \<and> nChNum h = 4)"
proof -
  have "shm_floats (shm_ro shm0)" using pass0_good by (simp add: good_pass_def pass0_def)
  moreover have "info_wf info0" by (simp add: info_wf_def info0_def)
  moreover have "get_device_kind_by_name (Some ''VOL'') = Some HW_KIND_VOL" by code_simp
  ultimately show ?thesis using sampler_feeds_terminal [of "''VOL''" shm0 info0 20000000 pass0] sample0(2) by auto
qed

text \<open>So a pass of the main loop on any segment the simulator has reached is one the terminal is correct for.\<close>

lemma simulated_pass:
  assumes "length k = 3" "NUL \<notin> set k" "shm_wf s" "shm_floats (shm_ro s)" "sampler_setup (Some k) s = Some p" "sampler_rounds n p = Some (r, s1)"
    and "sr_shm e = s1" "good_clock (sr_clock e)"
  shows "good_event (Pass e)"
proof -
  from sampler_setup_runs [OF assms(1-4)] assms(5) obtain s0 where s0: "p = (int_fl 3, s0)" "simulated s0" by auto
  from sampler_rounds_run [OF s0(2), of 3 n] assms(6) s0(1) have "simulated s1" by auto
  with assms(7,8) show ?thesis by (simp add: good_event_def good_pass_def simulated_def)
qed

text \<open>A start without an argument, or with one that is too long, is undefined; the calls' failures end the program.\<close>

lemma sampler_setup_undefined: "sampler_setup None s = None" "22 < length a \<Longrightarrow> sampler_setup (Some a) s = None"
  by (simp_all add: sampler_setup_def emit_str_def Let_def)

lemma sampler_start_fails:
  assumes "k_shmget k (k_ftok k ''/tmp'' SHM_HW_KEY) (1024 * 4) 950 = - 1"
  shows "sampler_start k attached arg = Some (Inl 1)"
  using assms by (simp add: sampler_start_def IPC_CREAT_def Let_def)

section \<open>Texts handed over in shared memory\<close>

subsection \<open>The code\<close>

definition TEXT_SZ :: nat where "TEXT_SZ = 2048"

record shared_use_st =
  written :: int
  sh_text :: string

text \<open>
  Where the two programs stand.  \<open>Probing\<close> is the first loop of \<open>shm_master\<close>, which only prints; its
  reading loop stands behind it.
\<close>

datatype slave_pc = Await | Enter | Copy | Raise | Compare | Left
datatype master_pc = Probing | Reset | Look | Show | Lower | Match | Closed

text \<open>
  The pair: the segment, what \<open>fgets\<close> still hands out, the buffer (\<open>None\<close> before the first line), and the
  file of the master.  \<open>given\<close> records the texts the slave has copied.
\<close>

record pair =
  seg_of :: shared_use_st
  input :: "string list"
  s_buffer :: "string option"
  given :: "string list"
  s_at :: slave_pc
  shown :: "string list"
  m_at :: master_pc

definition is_end :: "string \<Rightarrow> bool" where
  "is_end b \<longleftrightarrow> take 3 b = ''end''"

definition slave_step :: "pair \<Rightarrow> pair option" where
  "slave_step p = (case s_at p of
       Await \<Rightarrow> Some (if written (seg_of p) = 1 then p else p\<lparr>s_at := Enter\<rparr>)
     | Enter \<Rightarrow> Some (case input p of [] \<Rightarrow> p\<lparr>s_at := Copy\<rparr>
         | l # ls \<Rightarrow> p\<lparr>input := ls, s_buffer := Some l, s_at := Copy\<rparr>)
     | Copy \<Rightarrow> do {
         b \<leftarrow> s_buffer p;
         Some (p\<lparr>seg_of := (seg_of p)\<lparr>sh_text := strncpy_field TEXT_SZ b\<rparr>, given := given p @ [b], s_at := Raise\<rparr>) }
     | Raise \<Rightarrow> Some (p\<lparr>seg_of := (seg_of p)\<lparr>written := 1\<rparr>, s_at := Compare\<rparr>)
     | Compare \<Rightarrow> do { b \<leftarrow> s_buffer p; Some (p\<lparr>s_at := (if is_end b then Left else Await)\<rparr>) }
     | Left \<Rightarrow> Some p)"

text \<open>Printing a text without a terminator reads beyond the segment.\<close>

definition master_step :: "pair \<Rightarrow> pair option" where
  "master_step p = (case m_at p of
       Probing \<Rightarrow> Some p
     | Reset \<Rightarrow> Some (p\<lparr>seg_of := (seg_of p)\<lparr>written := 0\<rparr>, m_at := Look\<rparr>)
     | Look \<Rightarrow> Some (if written (seg_of p) = 1 then p\<lparr>m_at := Show\<rparr> else p)
     | Show \<Rightarrow> do { t \<leftarrow> c_str (sh_text (seg_of p)); Some (p\<lparr>shown := shown p @ [t], m_at := Lower\<rparr>) }
     | Lower \<Rightarrow> Some (p\<lparr>seg_of := (seg_of p)\<lparr>written := 0\<rparr>, m_at := Match\<rparr>)
     | Match \<Rightarrow> Some (p\<lparr>m_at := (if is_end (sh_text (seg_of p)) then Closed else Look)\<rparr>)
     | Closed \<Rightarrow> Some p)"

inductive hands :: "pair \<Rightarrow> pair \<Rightarrow> bool" where
  hands_refl: "hands p p"
| hands_slave: "hands p q \<Longrightarrow> slave_step q = Some r \<Longrightarrow> hands p r"
| hands_master: "hands p q \<Longrightarrow> master_step q = Some r \<Longrightarrow> hands p r"

definition pair0 :: "master_pc \<Rightarrow> string list \<Rightarrow> pair" where
  "pair0 m ls = \<lparr>seg_of = \<lparr>written = 0, sh_text = replicate TEXT_SZ NUL\<rparr>, input = ls, s_buffer = None, given = [], s_at = Await,
     shown = [], m_at = m\<rparr>"

lemma hands_keeps:
  assumes "hands p q" "I p" "\<And>q r. I q \<Longrightarrow> slave_step q = Some r \<or> master_step q = Some r \<Longrightarrow> I r"
  shows "I q"
  using assms(1,2) by (induction rule: hands.induct) (use assms(3) in blast)+

subsection \<open>As shipped, the second text waits for ever\<close>

text \<open>The master never leaves its first loop, so the flag is never lowered and at most one text is given.\<close>

definition unread :: "pair \<Rightarrow> bool" where
  "unread p \<longleftrightarrow> m_at p = Probing \<and> shown p = []
     \<and> (if s_at p \<in> {Await, Enter, Copy} \<and> written (seg_of p) = 0 then given p = []
        else length (given p) = 1 \<and> (written (seg_of p) = 1 \<and> s_at p \<in> {Await, Compare, Left} \<or> s_at p = Raise))"

lemma unread_step: "unread p \<Longrightarrow> slave_step p = Some q \<or> master_step p = Some q \<Longrightarrow> unread q"
  by (cases "s_at p")
    (auto simp: unread_def slave_step_def master_step_def bind_Some_iff split: if_splits list.splits)

lemma second_text_waits: "hands (pair0 Probing ls) p \<Longrightarrow> shown p = [] \<and> length (given p) \<le> 1"
proof -
  have "unread (pair0 Probing ls)" by (simp add: unread_def pair0_def)
  then have "unread p" if "hands (pair0 Probing ls) p" for p
    by (rule hands_keeps [OF that]) (use unread_step in blast)
  then show "hands (pair0 Probing ls) p \<Longrightarrow> shown p = [] \<and> length (given p) \<le> 1"
    by (fastforce simp: unread_def split: if_splits)
qed

subsection \<open>The two loops on their own\<close>

text \<open>
  From the reading loop on, the texts shown are those given, in order and each once; at most the last one is
  missing.
\<close>

definition texts_short :: "pair \<Rightarrow> bool" where
  "texts_short p \<longleftrightarrow> (\<forall>l. l \<in> set (input p) \<or> s_buffer p = Some l \<longrightarrow> NUL \<notin> set l \<and> length l < TEXT_SZ)"

text \<open>Nothing on its way; a text copied; a text announced; a text shown.\<close>

definition idle :: "pair \<Rightarrow> bool" where
  "idle p \<longleftrightarrow> written (seg_of p) = 0 \<and> s_at p \<noteq> Raise \<and> m_at p \<in> {Look, Match, Closed} \<and> given p = shown p"

definition carried :: "pair \<Rightarrow> bool" where
  "carried p \<longleftrightarrow> (\<exists>x. NUL \<notin> set x \<and> length x < TEXT_SZ \<and> sh_text (seg_of p) = strncpy_field TEXT_SZ x \<and> given p = shown p @ [x])"

definition copied :: "pair \<Rightarrow> bool" where
  "copied p \<longleftrightarrow> written (seg_of p) = 0 \<and> s_at p = Raise \<and> m_at p \<in> {Look, Match, Closed} \<and> carried p"

definition announced :: "pair \<Rightarrow> bool" where
  "announced p \<longleftrightarrow> written (seg_of p) = 1 \<and> s_at p \<in> {Compare, Await, Left} \<and> m_at p \<in> {Look, Show, Match, Closed} \<and> carried p"

definition taken :: "pair \<Rightarrow> bool" where
  "taken p \<longleftrightarrow> written (seg_of p) = 1 \<and> s_at p \<in> {Compare, Await, Left} \<and> m_at p = Lower \<and> given p = shown p"

definition handed :: "pair \<Rightarrow> bool" where
  "handed p \<longleftrightarrow> texts_short p \<and> (idle p \<or> copied p \<or> announced p \<or> taken p)"

lemmas phase_defs = idle_def carried_def copied_def announced_def taken_def

lemma slave_step_short: "texts_short p \<Longrightarrow> slave_step p = Some q \<Longrightarrow> texts_short q"
  by (cases "s_at p") (auto simp: slave_step_def bind_Some_iff texts_short_def split: list.splits if_splits)

lemma carried_cong: "sh_text (seg_of p) = sh_text (seg_of q) \<Longrightarrow> given p = given q \<Longrightarrow> shown p = shown q \<Longrightarrow> carried p = carried q"
  by (simp add: carried_def)

lemma slave_step_phase:
  assumes "slave_step p = Some q" "texts_short p"
  shows "idle p \<Longrightarrow> idle q \<or> copied q" "copied p \<Longrightarrow> announced q" "announced p \<Longrightarrow> announced q" "taken p \<Longrightarrow> taken q"
proof -
  show "copied p \<Longrightarrow> announced q"
    using assms(1) carried_cong [of p q] by (auto simp: slave_step_def copied_def announced_def)
  show "announced p \<Longrightarrow> announced q"
    using assms(1) carried_cong [of p q] by (auto simp: slave_step_def announced_def bind_Some_iff)
  show "taken p \<Longrightarrow> taken q"
    using assms(1) by (auto simp: slave_step_def taken_def bind_Some_iff)
  assume i: "idle p"
  show "idle q \<or> copied q"
  proof (cases "s_at p = Copy")
    case True
    with assms obtain b where "q = p\<lparr>seg_of := (seg_of p)\<lparr>sh_text := strncpy_field TEXT_SZ b\<rparr>, given := given p @ [b], s_at := Raise\<rparr>"
      "NUL \<notin> set b" "length b < TEXT_SZ"
      by (auto simp: slave_step_def bind_Some_iff texts_short_def)
    with i have "copied q" by (simp add: idle_def copied_def carried_def)
    then show ?thesis ..
  next
    case False
    with i assms(1) have "idle q"
      by (cases "s_at p") (auto simp: slave_step_def idle_def bind_Some_iff split: list.splits if_splits)
    then show ?thesis ..
  qed
qed

lemma master_step_short: "texts_short p \<Longrightarrow> master_step p = Some q \<Longrightarrow> texts_short q"
  by (cases "m_at p") (auto simp: master_step_def bind_Some_iff texts_short_def split: if_splits)

lemma master_step_phase:
  assumes "master_step p = Some q"
  shows "idle p \<Longrightarrow> idle q" "copied p \<Longrightarrow> copied q" "announced p \<Longrightarrow> announced q \<or> taken q" "taken p \<Longrightarrow> idle q"
proof -
  show "idle p \<Longrightarrow> idle q" "copied p \<Longrightarrow> copied q" "taken p \<Longrightarrow> idle q"
    using assms by (auto simp: master_step_def phase_defs split: if_splits)
  assume a: "announced p"
  then obtain x where x: "NUL \<notin> set x" "length x < TEXT_SZ" "sh_text (seg_of p) = strncpy_field TEXT_SZ x" "given p = shown p @ [x]"
    by (auto simp: announced_def carried_def)
  then have "c_str (sh_text (seg_of p)) = Some x" by (simp add: c_str_strncpy_field)
  with a x assms show "announced q \<or> taken q"
    by (auto simp: master_step_def announced_def taken_def carried_def split: if_splits)
qed

lemma handover_in_order:
  assumes "hands (pair0 Look ls) p" "\<forall>l\<in>set ls. NUL \<notin> set l \<and> length l < TEXT_SZ"
  shows "shown p = given p \<or> (\<exists>x. given p = shown p @ [x])"
proof -
  have "handed (pair0 Look ls)" using assms(2) by (simp add: handed_def pair0_def texts_short_def idle_def)
  then have "handed p"
    by (rule hands_keeps [OF assms(1)])
      (use slave_step_short slave_step_phase master_step_short master_step_phase in \<open>unfold handed_def, blast\<close>)
  then show ?thesis by (auto simp: handed_def phase_defs)
qed

text \<open>
  The last text can be lost, since the master compares after it has lowered the flag; and the first, when the
  slave was started before the master.  A schedule says who steps.
\<close>

fun scheduled :: "bool list \<Rightarrow> pair \<Rightarrow> pair option" where
  "scheduled [] p = Some p"
| "scheduled (b # bs) p = (if b then slave_step p else master_step p) \<bind> scheduled bs"

lemma hands_scheduled: "scheduled bs q = Some r \<Longrightarrow> hands p q \<Longrightarrow> hands p r"
  by (induction bs arbitrary: q) (auto simp: bind_Some_iff split: if_splits intro: hands_slave hands_master)

lemmas pair_steps = slave_step_def master_step_def pair0_def is_end_def c_str_strncpy_field TEXT_SZ_def

lemma end_lost: "\<exists>p. hands (pair0 Look [''a'', ''end'']) p \<and> s_at p = Left \<and> m_at p = Closed \<and> given p = [''a'', ''end''] \<and> shown p = [''a'']"
proof -
  let ?s = "[True, True, True, True, True, False, False, False, True, True, True, False]"
  have "\<exists>p. scheduled ?s (pair0 Look [''a'', ''end'']) = Some p \<and> s_at p = Raise \<and> m_at p = Closed \<and> given p = [''a'', ''end''] \<and> shown p = [''a'']
    \<and> s_buffer p = Some ''end''"
    by (simp add: pair_steps strncpy_field_def [of _ "''end''"])
  then obtain p where p: "hands (pair0 Look [''a'', ''end'']) p" "s_at p = Raise" "m_at p = Closed" "given p = [''a'', ''end'']" "shown p = [''a'']"
    "s_buffer p = Some ''end''" using hands_scheduled hands_refl by blast
  then have "\<exists>q. scheduled [True, True] p = Some q \<and> s_at q = Left \<and> m_at q = Closed \<and> given q = [''a'', ''end''] \<and> shown q = [''a'']"
    by (simp add: pair_steps)
  with hands_scheduled [OF _ p(1)] show ?thesis by blast
qed

lemma first_lost: "\<exists>p. hands (pair0 Reset [''a'', ''b'']) p \<and> given p = [''a'', ''b''] \<and> shown p = [''b'']"
proof -
  let ?s = "[True, True, True, True, True, False, True, True, True, True, False, False]"
  have "\<exists>p. scheduled ?s (pair0 Reset [''a'', ''b'']) = Some p \<and> given p = [''a'', ''b''] \<and> shown p = [''b'']"
    by (simp add: pair_steps)
  with hands_scheduled [OF _ hands_refl] show ?thesis by blast
qed

end
