(* ===== verification/Zlog.thy ===== *)
theory Zlog
  imports CString "HOL-Library.Sublist" "HOL-Library.Word"
begin

text \<open>
  The console log, \<open>log/source/zlog.c\<close> and \<open>log/include/zlog.h\<close>: the filter that decides which lines are
  shown, the head of a line, and the functions that write a line or a dump of bytes.  A function gives
  the text it appends to the standard output, nothing when the filter rejects the line; the mutex
  around the output is not modelled, each function taking and releasing it around its one text.  The
  second half states the filter as one condition and reads the bytes back from a dump.
\<close>

section \<open>The code\<close>

subsection \<open>Levels and configuration\<close>

datatype zlog_level = ZLOG_LEVEL_TRACE | ZLOG_LEVEL_DEBUG | ZLOG_LEVEL_INFO | ZLOG_LEVEL_WARN | ZLOG_LEVEL_ERROR | ZLOG_LEVEL_FATAL

fun level_id :: "zlog_level \<Rightarrow> int" where
  "level_id ZLOG_LEVEL_TRACE = 0"
| "level_id ZLOG_LEVEL_DEBUG = 1"
| "level_id ZLOG_LEVEL_INFO = 2"
| "level_id ZLOG_LEVEL_WARN = 3"
| "level_id ZLOG_LEVEL_ERROR = 4"
| "level_id ZLOG_LEVEL_FATAL = 5"

record zlog_config_t =
  tagid :: "16 word"
  zc_level :: "16 word"
  module_bits :: "16 word"
  start_line :: "16 word"
  end_line :: "16 word"
  zc_align :: "16 word list"
  zc_file :: string
  zc_func :: string

text \<open>What a call of the log knows: file, function, line and level.\<close>

record log_site =
  ls_file :: string
  ls_func :: string
  ls_line :: int
  ls_level :: int

text \<open>The clock and the thread the line is stamped with.\<close>

record log_stamp =
  tm_hour :: nat
  tm_min :: nat
  tm_sec :: nat
  gettid :: nat

subsection \<open>The filter\<close>

definition module_names :: "string list" where
  "module_names = [''virtual'', ''schedule'', ''gprs'', ''realtime'', ''hisdata'', ''modbus'', ''dlt645'', ''bacnet'', ''opcua'',
     ''gdw376'', ''iec104'', ''crypto'', ''httpd'', ''nrsec3000'', ''services'', ''modem'', ''config'', ''commons'', ''watchdog'']"

text \<open>\<open>strstr\<close> as a test.\<close>

fun strstr :: "string \<Rightarrow> string \<Rightarrow> bool" where
  "strstr [] n \<longleftrightarrow> n = []"
| "strstr (c # s) n \<longleftrightarrow> take (length n) (c # s) = n \<or> strstr s n"

fun module_loop :: "string \<Rightarrow> 16 word \<Rightarrow> nat \<Rightarrow> string list \<Rightarrow> bool" where
  "module_loop file bits i [] \<longleftrightarrow> False"
| "module_loop file bits i (m # ms) \<longleftrightarrow> (if bit bits i \<and> strstr file m then True else module_loop file bits (Suc i) ms)"

text \<open>The fields of four bytes are searched for as strings, which they are only when they are terminated.\<close>

definition field_matches :: "string \<Rightarrow> string \<Rightarrow> bool option" where
  "field_matches s field = (if hd field \<noteq> NUL then map_option (strstr s) (c_str field) else Some False)"

definition is_filter_accept :: "zlog_config_t option \<Rightarrow> log_site \<Rightarrow> bool option" where
  "is_filter_accept cfg ls =
     (case cfg of None \<Rightarrow> Some True
      | Some z \<Rightarrow>
          if ls_level ls < sint (zc_level z) + 2 then Some False
          else if start_line z \<noteq> 0 \<and> ls_line ls < uint (start_line z) then Some False
          else if end_line z \<noteq> 0 \<and> ls_line ls > uint (end_line z) then Some False
          else if module_bits z \<noteq> 0 then Some (module_loop (ls_file ls) (module_bits z) 0 module_names)
          else if hd (zc_file z) = NUL \<and> hd (zc_func z) = NUL then Some True
          else do {
            a \<leftarrow> field_matches (ls_file ls) (zc_file z);
            (if a then Some True else field_matches (ls_func ls) (zc_func z))
          })"

subsection \<open>The head of a line\<close>

definition log_colours :: "(zlog_level \<times> string) list" where
  "log_colours = [(ZLOG_LEVEL_ERROR, ''[31;1m''), (ZLOG_LEVEL_WARN, ''[36;1m''), (ZLOG_LEVEL_TRACE, ''[35;1m''),
     (ZLOG_LEVEL_INFO, ''[0m''), (ZLOG_LEVEL_DEBUG, ''[34;1m''), (ZLOG_LEVEL_FATAL, ''[31;1m'')]"

fun colour_loop :: "int \<Rightarrow> (zlog_level \<times> string) list \<Rightarrow> string" where
  "colour_loop l [] = ''[0m''"
| "colour_loop l ((k, c) # cs) = (if l = level_id k then c else colour_loop l cs)"

definition get_color_by_level :: "int \<Rightarrow> string" where
  "get_color_by_level l = colour_loop l log_colours"

definition ESC :: char where "ESC = CHR 0x1B"
definition LF :: char where "LF = CHR 0x0A"

definition level_desc :: "string list" where
  "level_desc = [''TRACE'', ''DEBUG'', ''INFO '', ''WARN '', ''ERROR'', ''FATAL'']"

definition log_head :: "log_stamp \<Rightarrow> log_site \<Rightarrow> string option" where
  "log_head st ls = do {
     guard (0 \<le> ls_level ls);
     d \<leftarrow> nth_opt level_desc (nat (ls_level ls));
     Some (pad_left CHR ''0'' 2 (dec (tm_hour st)) @ '':'' @ pad_left CHR ''0'' 2 (dec (tm_min st)) @ '':''
       @ pad_left CHR ''0'' 2 (dec (tm_sec st)) @ '' '' @ dec (gettid st) @ '' '' @ d @ '' ''
       @ pad_left CHR '' '' 20 (ls_file ls) @ '':'' @ pad_right 4 (dec_int (ls_line ls)) @ '' ''
       @ pad_left CHR '' '' 24 (ls_func ls) @ '': '')
   }"

text \<open>The name behind the last slash.\<close>

definition get_simple_file :: "string \<Rightarrow> string" where
  "get_simple_file file = rev (takeWhile (\<lambda>c. c \<noteq> CHR ''/'') (rev file))"

subsection \<open>Lines and dumps\<close>

text \<open>\<open>zlog\<close> with the formatted message.\<close>

definition zlog :: "zlog_config_t option \<Rightarrow> log_stamp \<Rightarrow> log_site \<Rightarrow> string \<Rightarrow> string option" where
  "zlog cfg st ls msg = do {
     ok \<leftarrow> is_filter_accept cfg ls;
     (if \<not> ok then Some []
      else do {
        h \<leftarrow> log_head st (ls\<lparr>ls_file := get_simple_file (ls_file ls)\<rparr>);
        Some ([ESC] @ get_color_by_level (ls_level ls) @ h @ msg @ [ESC] @ ''[0m'' @ [LF])
      })
   }"

text \<open>
  The loop over the bytes: an \<open>int\<close> counts up to the length, so the length is below \<open>2 ^ 31\<close>, and \<open>%d\<close>
  shows it as it is.
\<close>

fun hex_bytes :: "string \<Rightarrow> string" where
  "hex_bytes [] = []"
| "hex_bytes (c # s) = hex02 (code c) @ '' '' @ hex_bytes s"

definition dump :: "string \<Rightarrow> nat \<Rightarrow> string option" where
  "dump buf buflen = do { guard (buflen \<le> length buf \<and> buflen < 2 ^ 31); Some (hex_bytes (take buflen buf)) }"

definition hlog :: "zlog_config_t option \<Rightarrow> log_stamp \<Rightarrow> log_site \<Rightarrow> string \<Rightarrow> nat \<Rightarrow> string option" where
  "hlog cfg st ls buf buflen = do {
     ok \<leftarrow> is_filter_accept cfg ls;
     (if \<not> ok then Some []
      else do {
        h \<leftarrow> log_head st (ls\<lparr>ls_file := get_simple_file (ls_file ls)\<rparr>);
        d \<leftarrow> dump buf buflen;
        Some ([ESC] @ get_color_by_level (ls_level ls) @ h @ ''['' @ dec buflen @ ''] - '' @ d @ [ESC] @ ''[0m'' @ [LF])
      })
   }"

definition hflog :: "zlog_config_t option \<Rightarrow> log_stamp \<Rightarrow> log_site \<Rightarrow> string \<Rightarrow> nat \<Rightarrow> int \<Rightarrow> string option" where
  "hflog cfg st ls buf buflen fd = do {
     ok \<leftarrow> is_filter_accept cfg ls;
     (if \<not> ok then Some []
      else do {
        h \<leftarrow> log_head st (ls\<lparr>ls_file := get_simple_file (ls_file ls)\<rparr>);
        d \<leftarrow> dump buf buflen;
        Some (h @ ''fd='' @ dec_int fd @ '', '' @ ''['' @ dec buflen @ ''] - '' @ d @ [LF])
      })
   }"

text \<open>A single byte 0xaa is shown as a dot.\<close>

definition hslog :: "zlog_config_t option \<Rightarrow> log_site \<Rightarrow> char \<Rightarrow> string \<Rightarrow> nat \<Rightarrow> string option" where
  "hslog cfg ls f buf buflen = do {
     ok \<leftarrow> is_filter_accept cfg ls;
     (if \<not> ok then Some []
      else do {
        d \<leftarrow> dump buf buflen;
        Some (if buflen = 1 \<and> code (hd buf) = 0xaa then ''.'' else [f] @ '': '' @ d @ [LF])
      })
   }"

text \<open>\<open>hzlog\<close> breaks the line after each 32 bytes; \<open>i\<close> is the number of the byte.\<close>

fun wrapped_bytes :: "nat \<Rightarrow> string \<Rightarrow> string" where
  "wrapped_bytes i [] = []"
| "wrapped_bytes i (c # s) = hex02 (code c) @ '' '' @ (if i mod 32 = 0 then [LF] else []) @ wrapped_bytes (Suc i) s"

definition hzlog :: "zlog_config_t option \<Rightarrow> log_stamp \<Rightarrow> log_site \<Rightarrow> string \<Rightarrow> string \<Rightarrow> nat \<Rightarrow> string option" where
  "hzlog cfg st ls str buf buflen = do {
     ok \<leftarrow> is_filter_accept cfg ls;
     (if \<not> ok then Some []
      else do {
        h \<leftarrow> log_head st (ls\<lparr>ls_file := get_simple_file (ls_file ls)\<rparr>);
        guard (buflen \<le> length buf \<and> buflen < 2 ^ 31 - 1);
        Some ([ESC] @ get_color_by_level (ls_level ls) @ h @ str @ ''-'' @ ''dump['' @ dec buflen @ '']:'' @ [LF]
          @ wrapped_bytes 1 (take buflen buf) @ [ESC] @ ''[0m'' @ [LF])
      })
   }"

section \<open>The filter as one condition\<close>

lemma strstr_sublist: "strstr s n \<longleftrightarrow> sublist n s"
proof (induction s)
  case (Cons c s)
  have "take (length n) (c # s) = n \<longleftrightarrow> prefix n (c # s)"
    by (metis append_eq_conv_conj append_take_drop_id prefix_def)
  with Cons show ?case by (simp add: sublist_Cons_right)
qed simp

lemma module_loop_iff: "module_loop file bits i ms \<longleftrightarrow> (\<exists>k < length ms. bit bits (i + k) \<and> strstr file (ms ! k))"
proof (induction ms arbitrary: i)
  case (Cons m ms)
  show ?case unfolding module_loop.simps Cons.IH by (auto simp: less_Suc_eq_0_disj)
qed simp

text \<open>A field of four bytes is empty or a string.\<close>

definition field_ok :: "string \<Rightarrow> bool" where
  "field_ok f \<longleftrightarrow> f \<noteq> [] \<and> NUL \<in> set f"

definition field_text :: "string \<Rightarrow> string" where
  "field_text f = takeWhile (\<lambda>c. c \<noteq> NUL) f"

lemma c_str_field: "field_ok f \<Longrightarrow> c_str f = Some (field_text f)"
proof -
  have "NUL \<in> set f \<Longrightarrow> c_str f = Some (takeWhile (\<lambda>c. c \<noteq> NUL) f)" by (induction f) auto
  then show "field_ok f \<Longrightarrow> ?thesis" by (simp add: field_ok_def field_text_def)
qed

lemma field_empty: "field_ok f \<Longrightarrow> hd f = NUL \<longleftrightarrow> field_text f = []"
  by (cases f) (auto simp: field_ok_def field_text_def)

lemma field_matches_iff:
  "field_ok f \<Longrightarrow> field_matches s f = Some (field_text f \<noteq> [] \<and> sublist (field_text f) s)"
  by (simp add: field_matches_def c_str_field field_empty strstr_sublist)

text \<open>C37: The filter is equivalent to one condition: the level reaches two above the configured one, the
  line lies in the configured window, and, when a bit of a module is set, the file names the module of
  a set bit among the first sixteen, otherwise the configured file or function text occurs, or none is
  configured.  The bits of the modules config, commons and watchdog (16 to 18) do not exist in the
  sixteen bit field, so these modules can never be selected.\<close>

theorem filter_equivalence:
  assumes "field_ok (zc_file z)" "field_ok (zc_func z)"
  shows "is_filter_accept (Some z) ls = Some (
     sint (zc_level z) + 2 \<le> ls_level ls
     \<and> (start_line z = 0 \<or> uint (start_line z) \<le> ls_line ls) \<and> (end_line z = 0 \<or> ls_line ls \<le> uint (end_line z))
     \<and> (if module_bits z \<noteq> 0 then \<exists>k<16. bit (module_bits z) k \<and> sublist (module_names ! k) (ls_file ls)
        else field_text (zc_file z) = [] \<and> field_text (zc_func z) = []
          \<or> field_text (zc_file z) \<noteq> [] \<and> sublist (field_text (zc_file z)) (ls_file ls)
          \<or> field_text (zc_func z) \<noteq> [] \<and> sublist (field_text (zc_func z)) (ls_func ls)))"
proof -
  have n: "length module_names = 19" by (simp add: module_names_def)
  have "k < 16 \<and> k < 19" if "bit (module_bits z) k" for k using bit_imp_le_length [OF that] by simp
  then have "module_loop (ls_file ls) (module_bits z) 0 module_names
    \<longleftrightarrow> (\<exists>k<16. bit (module_bits z) k \<and> sublist (module_names ! k) (ls_file ls))"
    unfolding module_loop_iff strstr_sublist n add_0 by blast
  then show ?thesis
    by (auto simp: is_filter_accept_def field_matches_iff [OF assms(1)] field_matches_iff [OF assms(2)]
      field_empty [OF assms(1)] field_empty [OF assms(2)])
qed

definition config0 :: zlog_config_t where
  "config0 = \<lparr>tagid = 0, zc_level = 0, module_bits = 0x20, start_line = 10, end_line = 0, zc_align = [0, 0, 0],
     zc_file = [NUL, NUL, NUL, NUL], zc_func = [NUL, NUL, NUL, NUL]\<rparr>"

definition site0 :: log_site where
  "site0 = \<lparr>ls_file = ''src/modbus.c'', ls_func = ''poll'', ls_line = 12, ls_level = 2\<rparr>"

theorem filter_equivalence_witness: "is_filter_accept (Some config0) site0 = Some True"
proof -
  have "bit (0x20 :: 16 word) 5" by (simp add: bit_numeral_rec)
  moreover have "sublist ''modbus'' ''src/modbus.c''" unfolding strstr_sublist [symmetric] by simp
  moreover have "module_names ! 5 = ''modbus''" by (simp add: module_names_def)
  ultimately have "\<exists>k<16. bit (0x20 :: 16 word) k \<and> sublist (module_names ! k) ''src/modbus.c''"
    by (intro exI [of _ 5]) simp
  then show ?thesis
    using filter_equivalence [of config0 site0] by (simp add: config0_def site0_def field_ok_def)
qed

text \<open>A field that is full is searched for beyond its end.\<close>

lemma filter_full_field:
  "is_filter_accept (Some (config0\<lparr>module_bits := 0, zc_file := ''main''\<rparr>)) site0 = None"
  by (simp add: is_filter_accept_def config0_def site0_def field_matches_def)

text \<open>A level that is none of the six is used as an index.\<close>

lemma zlog_bad_level: "zlog None st (site0\<lparr>ls_level := 6\<rparr>) msg = None"
  by (simp add: zlog_def is_filter_accept_def log_head_def level_desc_def site0_def)

section \<open>Reading a dump\<close>

definition hex_digit_val :: "char \<Rightarrow> nat" where
  "hex_digit_val c = (if code c < 58 then code c - 48 else code c - 87)"

text \<open>Pairs of digits with a space behind each, line breaks skipped; something else ends the dump.\<close>

fun read_dump :: "string \<Rightarrow> string \<times> string" where
  "read_dump (a # b # c # s) =
     (if a = LF then read_dump (b # c # s)
      else if c = CHR '' '' then (let (bs, r) = read_dump s in (char_of (16 * hex_digit_val a + hex_digit_val b) # bs, r))
      else ([], a # b # c # s))"
| "read_dump s = ([], s)"

lemma hex_digit_val_digit: "d < 16 \<Longrightarrow> hex_digit_val (hex_digit d) = d"
  by (simp add: hex_digit_val_def code_hex_digit)

lemma hex_digit_not_LF: "d < 16 \<Longrightarrow> hex_digit d \<noteq> LF"
  using code_hex_digit [of d] by (auto simp: LF_def code_def split: if_splits)

lemma read_dump_byte:
  "read_dump (hex02 (code c) @ '' '' @ s) = (let (bs, r) = read_dump s in (c # bs, r))"
proof -
  have "code c div 16 < 16" "code c mod 16 < 16" using code_less [of c] by (simp_all add: less_mult_imp_div_less)
  moreover have "16 * (code c div 16) + code c mod 16 = code c" by simp
  ultimately show ?thesis
    by (simp add: hex02_def hex_digit_val_digit hex_digit_not_LF)
qed

lemma read_dump_LF: "length s \<ge> 2 \<Longrightarrow> read_dump (LF # s) = read_dump s"
  by (cases s; cases "tl s") auto

definition ENDING :: string where "ENDING = [ESC] @ ''[0m'' @ [LF]"

lemma read_dump_ending: "read_dump ENDING = ([], ENDING)"
  by (simp add: ENDING_def ESC_def LF_def)

lemma read_wrapped: "read_dump (wrapped_bytes i s @ ENDING) = (s, ENDING)"
proof (induction s arbitrary: i)
  case (Cons c s)
  have "2 \<le> length (wrapped_bytes (Suc i) s @ ENDING)" by (simp add: ENDING_def)
  note l = read_dump_LF [OF this]
  show ?case
  proof (cases "i mod 32 = 0")
    case True
    then have "wrapped_bytes i (c # s) @ ENDING = hex02 (code c) @ '' '' @ LF # wrapped_bytes (Suc i) s @ ENDING" by simp
    then show ?thesis by (simp only: read_dump_byte l Cons.IH Let_def prod.case)
  next
    case False
    then have "wrapped_bytes i (c # s) @ ENDING = hex02 (code c) @ '' '' @ wrapped_bytes (Suc i) s @ ENDING" by simp
    then show ?thesis by (simp only: read_dump_byte Cons.IH Let_def prod.case)
  qed
qed (simp add: read_dump_ending)

lemma read_bytes: "read_dump (hex_bytes s @ ENDING) = (s, ENDING)"
proof (induction s)
  case (Cons c s)
  have "hex_bytes (c # s) @ ENDING = hex02 (code c) @ '' '' @ hex_bytes s @ ENDING" by simp
  then show ?case by (simp only: read_dump_byte Cons.IH Let_def prod.case)
qed (simp add: read_dump_ending)

text \<open>C38: What is dumped can be read back: for an accepted line, what \<open>hlog\<close> and \<open>hzlog\<close> write behind the
  head of the line and the announced number of bytes parses to exactly these bytes, whatever they
  are and however the lines are broken, followed by the reset of the colour.\<close>

theorem dump_roundtrip:
  assumes "is_filter_accept cfg ls = Some True" "0 \<le> ls_level ls" "ls_level ls < 6" "n \<le> length buf" "n < 2 ^ 31 - 1"
  shows "\<exists>h d1 d2. log_head st (ls\<lparr>ls_file := get_simple_file (ls_file ls)\<rparr>) = Some h
    \<and> hlog cfg st ls buf n = Some ([ESC] @ get_color_by_level (ls_level ls) @ h @ ''['' @ dec n @ ''] - '' @ d1)
    \<and> hzlog cfg st ls str buf n = Some ([ESC] @ get_color_by_level (ls_level ls) @ h @ str @ ''-dump['' @ dec n @ '']:'' @ [LF] @ d2)
    \<and> read_dump d1 = (take n buf, ENDING) \<and> read_dump d2 = (take n buf, ENDING)"
proof -
  have "nat (ls_level ls) < length level_desc" using assms(2,3) by (simp add: level_desc_def)
  then obtain h where h: "log_head st (ls\<lparr>ls_file := get_simple_file (ls_file ls)\<rparr>) = Some h"
    using assms(2) by (simp add: log_head_def)
  have "n < 2 ^ 31" using assms(5) by simp
  with assms(1,4,5) h read_bytes [of "take n buf"] read_wrapped [of 1 "take n buf"] show ?thesis
    by (intro exI [of _ h] exI [of _ "hex_bytes (take n buf) @ ENDING"] exI [of _ "wrapped_bytes 1 (take n buf) @ ENDING"])
      (simp add: hlog_def hzlog_def dump_def ENDING_def)
qed

theorem dump_roundtrip_witness:
  "\<exists>h d1 d2. log_head \<lparr>tm_hour = 7, tm_min = 5, tm_sec = 9, gettid = 42\<rparr> (site0\<lparr>ls_file := get_simple_file (ls_file site0)\<rparr>) = Some h
    \<and> hlog None \<lparr>tm_hour = 7, tm_min = 5, tm_sec = 9, gettid = 42\<rparr> site0 [NUL, LF, CHR 0xAA] 3
      = Some ([ESC] @ get_color_by_level 2 @ h @ ''['' @ dec 3 @ ''] - '' @ d1)
    \<and> read_dump d1 = ([NUL, LF, CHR 0xAA], ENDING) \<and> read_dump d2 = ([NUL, LF, CHR 0xAA], ENDING)"
  using dump_roundtrip [of None site0 3 "[NUL, LF, CHR 0xAA]" "\<lparr>tm_hour = 7, tm_min = 5, tm_sec = 9, gettid = 42\<rparr>" "''rx''"]
  by (simp add: is_filter_accept_def site0_def) blast

end
