(* ===== verification/Logger.thy ===== *)
theory Logger
  imports CString "HOL-Library.Word"
begin

text \<open>
  The system log, \<open>log/source/logger.c\<close> and \<open>log/include/logger.h\<close>: the name of the platform, the module
  name taken out of a file path, and the three kinds of log lines.  A line is the pair of the priority
  and the text handed to \<open>syslog\<close>; messages are the texts their formats give.
\<close>

section \<open>The code\<close>

datatype logger_type = LOGGER_TYPE_OPR | LOGGER_TYPE_SYS | LOGGER_TYPE_COM

text \<open>Facilities of \<open>syslog.h\<close>.\<close>

definition LOG_LOCAL0 :: int where "LOG_LOCAL0 = 16 * 8"
definition LOG_LOCAL1 :: int where "LOG_LOCAL1 = 17 * 8"
definition LOG_LOCAL2 :: int where "LOG_LOCAL2 = 18 * 8"

definition LOG_MSG_LEN :: nat where "LOG_MSG_LEN = 2048"

fun type_mapping_int :: "logger_type \<Rightarrow> int" where
  "type_mapping_int LOGGER_TYPE_SYS = LOG_LOCAL0"
| "type_mapping_int LOGGER_TYPE_OPR = LOG_LOCAL1"
| "type_mapping_int LOGGER_TYPE_COM = LOG_LOCAL2"

text \<open>The state: the array with the platform name, the facility the connection to the log was opened with.\<close>

record logger =
  g_platform_name :: string
  opened :: "int option"
  lines :: "(int \<times> string) list"

definition logger0 :: logger where
  "logger0 = \<lparr>g_platform_name = ''JGW'' @ replicate 125 NUL, opened = None, lines = []\<rparr>"

definition openlog :: "int \<Rightarrow> logger \<Rightarrow> logger" where
  "openlog f l = l\<lparr>opened := Some f\<rparr>"

definition logger_init :: "logger \<Rightarrow> int \<times> logger" where
  "logger_init l = (0, openlog LOG_LOCAL2 (openlog LOG_LOCAL1 (openlog LOG_LOCAL0 l)))"

definition logger_deinit :: "logger \<Rightarrow> logger" where
  "logger_deinit l = l\<lparr>opened := None\<rparr>"

text \<open>
  \<open>strrstr\<close>: the last occurrence, looked for from the end.  \<open>p\<close> is one more than the position; the
  comparison may read the terminating NUL but not beyond.
\<close>

fun strrstr_from :: "string \<Rightarrow> string \<Rightarrow> nat \<Rightarrow> nat option option" where
  "strrstr_from s str 0 = Some None"
| "strrstr_from s str (Suc p) =
     (if s ! p = hd (str @ [NUL]) then do {
        guard (p + length str \<le> length s + 1);
        (if take (length str) (drop p (s @ [NUL])) = str then Some (Some p) else strrstr_from s str p)
      } else strrstr_from s str p)"

definition strrstr :: "string \<Rightarrow> string \<Rightarrow> nat option option" where
  "strrstr s str = strrstr_from s str (length s)"

text \<open>
  \<open>file_to_module\<close>: the module goes through an array of 32 zeroed bytes, then into the buffer of the
  caller; the result is the text the returned pointer shows and the buffer.
\<close>

definition snprintf :: "string \<Rightarrow> nat \<Rightarrow> string \<Rightarrow> string option" where
  "snprintf buf n s = (if n = 0 then Some buf else splice_opt buf 0 (take (n - 1) s @ [NUL]))"

definition file_to_module :: "string option \<Rightarrow> nat \<Rightarrow> string option \<Rightarrow> logger \<Rightarrow> (string \<times> string option) option" where
  "file_to_module buf lbuf filepath l = do {
     plat \<leftarrow> c_str (g_platform_name l);
     (case (filepath, buf) of
        (Some path, Some b) \<Rightarrow> do {
          ps \<leftarrow> strrstr path ''/'';
          (case ps of None \<Rightarrow> Some (plat, buf)
           | Some i \<Rightarrow> do {
               let base = drop (Suc i) path;
               pe \<leftarrow> strrstr base ''.'';
               (case pe of None \<Rightarrow> Some (plat, buf)
                | Some j \<Rightarrow> do {
                    m \<leftarrow> splice_opt (replicate 32 NUL) 0 (take (min j (32 - 1)) base);
                    module \<leftarrow> c_str m;
                    b' \<leftarrow> snprintf b lbuf (plat @ ''<'' @ module @ ''>'');
                    text \<leftarrow> c_str b';
                    Some (text, Some b')
                  })
             })
        }
      | _ \<Rightarrow> Some (plat, buf))
   }"

text \<open>The message buffer of a line, filled by \<open>vsnprintf\<close>.\<close>

definition message :: "string \<Rightarrow> string option" where
  "message msg = do { b \<leftarrow> snprintf (replicate LOG_MSG_LEN NUL) LOG_MSG_LEN msg; c_str b }"

definition syslog :: "int \<Rightarrow> string \<Rightarrow> logger \<Rightarrow> logger" where
  "syslog pri s l = l\<lparr>lines := lines l @ [(pri, s)]\<rparr>"

definition logger_opr ::
  "int \<Rightarrow> int \<Rightarrow> int \<Rightarrow> int \<Rightarrow> string option \<Rightarrow> string \<Rightarrow> string \<Rightarrow> string \<Rightarrow> logger \<Rightarrow> logger option" where
  "logger_opr level error_id event_id event_subid filepath subject object msg l = do {
     buf \<leftarrow> message msg;
     (module, b) \<leftarrow> file_to_module (Some (replicate 32 NUL)) 32 filepath l;
     Some (syslog (or (type_mapping_int LOGGER_TYPE_OPR) level)
       (dec_int event_id @ '' '' @ dec_int event_subid @ '' '' @ module @ '' '' @ dec_int error_id @ '' '' @ subject @ '' '' @ object
         @ '' '' @ (if error_id mod 0x1000 \<noteq> 0 then ''failed'' else ''success'') @ '' '' @ buf) l)
   }"

definition logger_sys :: "int \<Rightarrow> int \<Rightarrow> int \<Rightarrow> int \<Rightarrow> string option \<Rightarrow> string \<Rightarrow> logger \<Rightarrow> logger option" where
  "logger_sys level error_id event_id event_subid filepath msg l = do {
     buf \<leftarrow> message msg;
     (module, b) \<leftarrow> file_to_module (Some (replicate 32 NUL)) 32 filepath l;
     plat \<leftarrow> c_str (g_platform_name l);
     Some (syslog (or (type_mapping_int LOGGER_TYPE_SYS) level)
       (dec_int event_id @ '' '' @ dec_int event_subid @ '' '' @ module @ '' '' @ dec_int error_id @ '' '' @ plat @ '' '' @ buf) l)
   }"

definition logger_com ::
  "int \<Rightarrow> int \<Rightarrow> int \<Rightarrow> int \<Rightarrow> string option \<Rightarrow> string \<Rightarrow> string \<Rightarrow> string \<Rightarrow> logger \<Rightarrow> logger option" where
  "logger_com level error_id event_id event_subid filepath subject object msg l = do {
     buf \<leftarrow> message msg;
     (module, b) \<leftarrow> file_to_module (Some (replicate 32 NUL)) 32 filepath l;
     Some (syslog (or (type_mapping_int LOGGER_TYPE_COM) level)
       (dec_int event_id @ '' '' @ dec_int event_subid @ '' '' @ module @ '' '' @ dec_int error_id @ '' '' @ subject @ '' '' @ object
         @ '' '' @ buf) l)
   }"

text \<open>At most 127 characters are copied; the last byte of the array stays NUL.\<close>

definition set_platform_name :: "string option \<Rightarrow> logger \<Rightarrow> int \<times> logger" where
  "set_platform_name name l =
     (case name of None \<Rightarrow> (- 1, l)
      | Some s \<Rightarrow> if length s > 128 then (- 1, l)
          else (0, l\<lparr>g_platform_name := strncpy_field 127 s @ drop 127 (g_platform_name l)\<rparr>))"

section \<open>Module names\<close>

lemma takeWhile_upto: "c \<notin> set a \<Longrightarrow> takeWhile (\<lambda>x. x \<noteq> c) (a @ c # b) = a"
  by (induction a) auto

lemma dropWhile_upto: "c \<notin> set a \<Longrightarrow> dropWhile (\<lambda>x. x \<noteq> c) (a @ c # b) = c # b"
  by (induction a) auto

lemma strrstr_skip:
  assumes "\<forall>k. q \<le> k \<and> k < q + n \<longrightarrow> s ! k \<noteq> c"
  shows "strrstr_from s [c] (q + n) = strrstr_from s [c] q"
  using assms by (induction n) (simp_all add: add.commute)

lemma strrstr_absent: "c \<notin> set s \<Longrightarrow> strrstr s [c] = Some None"
  using strrstr_skip [of 0 "length s" s c] unfolding strrstr_def by (auto simp: in_set_conv_nth)

lemma strrstr_last:
  assumes "c \<notin> set b"
  shows "strrstr (a @ c # b) [c] = Some (Some (length a))"
proof -
  let ?s = "a @ c # b"
  have "\<forall>k. Suc (length a) \<le> k \<and> k < Suc (length a) + length b \<longrightarrow> ?s ! k \<noteq> c"
  proof (intro allI impI)
    fix k assume k: "Suc (length a) \<le> k \<and> k < Suc (length a) + length b"
    then have "?s ! k = b ! (k - Suc (length a))" by (auto simp: nth_append nth_Cons' Suc_le_eq)
    moreover have "b ! (k - Suc (length a)) \<in> set b" using k by (intro nth_mem) linarith
    ultimately show "?s ! k \<noteq> c" using assms by auto
  qed
  from strrstr_skip [OF this] show ?thesis by (simp add: strrstr_def)
qed

text \<open>A logger whose platform name is a string.\<close>

definition logger_wf :: "logger \<Rightarrow> bool" where
  "logger_wf l \<longleftrightarrow> length (g_platform_name l) = 128 \<and> last (g_platform_name l) = NUL"

definition platform :: "logger \<Rightarrow> string" where
  "platform l = takeWhile (\<lambda>c. c \<noteq> NUL) (g_platform_name l)"

lemma c_str_takeWhile: "NUL \<in> set s \<Longrightarrow> c_str s = Some (takeWhile (\<lambda>c. c \<noteq> NUL) s)"
  by (induction s) auto

lemma platform_text: "logger_wf l \<Longrightarrow> c_str (g_platform_name l) = Some (platform l)"
  unfolding platform_def logger_wf_def by (metis c_str_takeWhile last_in_set list.size(3) zero_neq_numeral)

lemma platform_no_NUL: "NUL \<notin> set (platform l)"
  unfolding platform_def by (auto dest: set_takeWhileD)

lemma snprintf_text:
  assumes "NUL \<notin> set s" "0 < n" "n \<le> length buf"
  shows "\<exists>b. snprintf buf n s = Some b \<and> length b = length buf \<and> c_str b = Some (take (n - 1) s)"
proof -
  have "length (take (n - 1) s @ [NUL]) \<le> length buf" using assms(2,3) by simp
  moreover have "NUL \<notin> set (take (n - 1) s)" using assms(1) by (auto dest: in_set_takeD)
  ultimately show ?thesis using assms(2) by (simp add: snprintf_def splice_opt_def c_str_append)
qed

text \<open>C39: The module name of a log line: for a path whose last component is \<open>n.e\<close> the text is the platform
  name with the first 31 characters of \<open>n\<close> in angle brackets, cut to the buffer of the caller; without
  a slash, or without a dot behind the last slash, it is the platform name; the buffer is never
  overrun.\<close>

theorem file_module_name:
  assumes "logger_wf l" "0 < lbuf" "lbuf \<le> length buf" "NUL \<notin> set path"
  shows "\<exists>buf'. file_to_module (Some buf) lbuf (Some path) l = Some (
      (if CHR ''/'' \<in> set path \<and> CHR ''.'' \<in> set (rev (takeWhile (\<lambda>c. c \<noteq> CHR ''/'') (rev path)))
       then take (lbuf - 1) (platform l @ ''<'' @ take 31 (rev (tl (dropWhile (\<lambda>c. c \<noteq> CHR ''.'') (takeWhile (\<lambda>c. c \<noteq> CHR ''/'') (rev path))))) @ ''>'')
       else platform l), Some buf')
    \<and> length buf' = length buf"
proof (cases "CHR ''/'' \<in> set path")
  case False
  with assms(1) show ?thesis by (simp add: file_to_module_def platform_text strrstr_absent)
next
  case True
  then obtain d b where p: "path = d @ CHR ''/'' # b" "CHR ''/'' \<notin> set b" by (meson split_list_last)
  then have r: "takeWhile (\<lambda>c. c \<noteq> CHR ''/'') (rev path) = rev b" by (simp add: takeWhile_upto)
  have s: "strrstr path ''/'' = Some (Some (length d))" unfolding p(1) by (rule strrstr_last) (rule p(2))
  have b: "drop (Suc (length d)) path = b" by (simp add: p(1))
  show ?thesis
  proof (cases "CHR ''.'' \<in> set b")
    case False
    with assms(1) True s b r show ?thesis by (simp add: file_to_module_def platform_text strrstr_absent)
  next
    case dot: True
    then obtain n e where n: "b = n @ CHR ''.'' # e" "CHR ''.'' \<notin> set e" by (meson split_list_last)
    then have t: "dropWhile (\<lambda>c. c \<noteq> CHR ''.'') (rev b) = CHR ''.'' # rev n" by (simp add: dropWhile_upto)
    have sb: "strrstr b ''.'' = Some (Some (length n))" unfolding n(1) by (rule strrstr_last) (rule n(2))
    have z: "NUL \<notin> set n" using assms(4) p(1) n(1) by auto
    have tk: "take (min (length n) (32 - 1)) b = take 31 n" by (cases "length n \<le> 31") (simp_all add: n(1) min_def)
    have z': "NUL \<notin> set (take 31 n)" using z by (auto dest: in_set_takeD)
    obtain k where k: "32 - length (take 31 n) = Suc k" by (cases "32 - length (take 31 n)") auto
    have m: "splice_opt (replicate 32 NUL) 0 (take 31 n) = Some (take 31 n @ NUL # replicate k NUL)"
      using k by (simp add: splice_opt_def)
    have "NUL \<notin> set (platform l @ ''<'' @ take 31 n @ ''>'')" using platform_no_NUL [of l] z' by simp
    from snprintf_text [OF this assms(2,3)] obtain b' where
      "snprintf buf lbuf (platform l @ ''<'' @ take 31 n @ ''>'') = Some b'" "length b' = length buf"
      "c_str b' = Some (take (lbuf - 1) (platform l @ ''<'' @ take 31 n @ ''>''))" by blast
    with assms(1) True dot s b r t sb tk m c_str_append [OF z'] show ?thesis
      by (simp add: file_to_module_def platform_text)
  qed
qed

lemma logger0_wf: "logger_wf logger0" "platform logger0 = ''JGW''"
  by (simp_all add: logger_wf_def logger0_def platform_def)

theorem file_module_name_witness:
  "\<exists>buf'. file_to_module (Some (replicate 32 NUL)) 32 (Some ''src/log/logger.c'') logger0 = Some (''JGW<logger>'', Some buf')"
  using file_module_name [OF logger0_wf(1), of 32 "replicate 32 NUL" "''src/log/logger.c''"]
  by (auto simp: logger0_wf(2) simp del: replicate.simps)

section \<open>Platform names\<close>

text \<open>Every accepted name keeps the array a string; a name of 128 characters is accepted and loses its last one.\<close>

lemma set_platform_name_wf:
  assumes "logger_wf l" "set_platform_name name l = (r, l')"
  shows "logger_wf l'"
proof (cases "r = 0 \<and> name \<noteq> None")
  case True
  have "length (g_platform_name l) = Suc 127" using assms(1) by (simp add: logger_wf_def)
  moreover from this have "drop 127 (g_platform_name l) = [last (g_platform_name l)]"
    by (metis append_butlast_last_id append_eq_conv_conj length_butlast diff_Suc_1 list.size(3) nat.distinct(1))
  ultimately show ?thesis using True assms by (auto simp: set_platform_name_def logger_wf_def split: option.splits if_splits)
next
  case False
  with assms show ?thesis by (auto simp: set_platform_name_def split: option.splits if_splits)
qed

lemma platform_name_cut:
  assumes "logger_wf l" "NUL \<notin> set s" "length s = 128"
  shows "fst (set_platform_name (Some s) l) = 0" "platform (snd (set_platform_name (Some s) l)) = take 127 s"
proof -
  have z: "NUL \<notin> set (take 127 s)" using assms(2) by (auto dest: in_set_takeD)
  have "length (g_platform_name l) = Suc 127" using assms(1) by (simp add: logger_wf_def)
  moreover from this have "drop 127 (g_platform_name l) = [NUL]"
    using assms(1) unfolding logger_wf_def
    by (metis append_butlast_last_id append_eq_conv_conj length_butlast diff_Suc_1 list.size(3) nat.distinct(1))
  moreover have "strncpy_field 127 s = take 127 s" using assms(3) by (simp add: strncpy_field_def)
  ultimately show "platform (snd (set_platform_name (Some s) l)) = take 127 s"
    using takeWhile_upto [OF z, of "[]"] assms(3) by (simp add: set_platform_name_def platform_def)
  show "fst (set_platform_name (Some s) l) = 0" using assms(3) by (simp add: set_platform_name_def)
qed

text \<open>Only the last \<open>openlog\<close> counts.\<close>

lemma logger_init_last: "opened (snd (logger_init l)) = Some LOG_LOCAL2"
  by (simp add: logger_init_def openlog_def)

end
