(* ===== verification/Spec2Isabelle.thy ===== *)
theory Spec2Isabelle
  imports CJSON_Minify Hardware WsClient ConfMain ConfGen MainLoop ShmTools Zlog Logger
begin

text \<open>
  A verification development for \<open>wdd_proc\<close>, the data terminal of a measuring device.  A sampling process,
  which is not part of the repository, puts readings into a shared memory segment; the terminal attaches
  the segment, configures its parameters from a JSON file, compares the readings with a cache in every
  pass of its main loop, and sends the parameters that changed as a JSON report, wrapped byte by byte
  into a second JSON text, to a host over a websocket.

  \<^bold>\<open>The parts and their theories.\<close>
    \<^item> \<open>Prelude\<close>, \<open>CString\<close>, \<open>CFloat\<close>: generic lemmas and collections; C strings, decimal texts and bounded
      writers (every \<open>sprintf\<close> into an array is a writer of the size of the array, and undefined beyond it);
      IEEE floating point with rounding to nearest even on rationals, integers exact up to the precision.
    \<^item> \<open>CJSON_Heap\<close>, \<open>CJSON_Parse\<close>, \<open>CJSON_Print\<close>, \<open>CJSON_Ops\<close> model \<open>common/cJSON.c\<close> on a heap of nodes and
      buffers with addresses: the linked nodes, the allocator (which may refuse any request), the
      recursive descent parser byte by byte, the printer with the buffer sizes it computes, and the
      operations on arrays and objects.  \<open>CJSON_Grammar\<close> (the JSON grammar the parser accepts, and when a
      region of memory represents a JSON value), \<open>CJSON_Complete\<close>, \<open>CJSON_Safe\<close>, \<open>CJSON_RoundTrip\<close> and
      \<open>CJSON_Correct\<close> hold its correctness.  \<open>CJSON_Minify\<close> is the minifier, in place, and that it keeps the value.  \<open>CJSON_Build\<close> states as locales (\<open>json_builder\<close>,
      \<open>json_number_builder\<close>) what the clients of the library rely on when they build documents, and
      interprets them on the model of the library.
    \<^item> \<open>StringTable\<close> models \<open>common/stringtable.c\<close>, a grid of text in one block of memory; \<open>SysUtil\<close> the rate
      limit, files, time and shared memory of \<open>common/\<close> and \<open>shm/\<close>; \<open>HwData\<close> the layout of the shared memory and
      the tables of types (\<open>hardware/dataDef.h\<close>, \<open>srv_hardware.h\<close>, \<open>ws_dataflow.cpp\<close>); \<open>DataConvert\<close> the
      conversions of \<open>dataflow/data_convert.c\<close>.
    \<^item> \<open>Hardware\<close> models \<open>hardware/srv_hardware.cpp\<close>: the mount, the parameter cache and the monitor.
    \<^item> \<open>WsDataflow\<close> (\<open>dataflow/ws_dataflow.cpp\<close>, the report) and \<open>WsUplink\<close> (\<open>srv_websocket.cpp\<close>, the frame, the
      copy into the user buffer, and the heartbeat).
    \<^item> \<open>WsClient\<close> models \<open>ws_test_client.c\<close>, \<open>ws_test_rtx.c\<close> and \<open>srv_channel_init.cpp\<close>: the callbacks, the
      registration, the business thread, and as an inductive relation the interleavings of the service
      thread, the business thread, the main thread and the signal.
    \<^item> \<open>ConfMain\<close> (\<open>config/conf_main.cpp\<close>, the loader), \<open>ConfGen\<close> (\<open>srv_option.cpp\<close>, the generator of configuration
      files), \<open>MainLoop\<close> (\<open>srv_main.cpp\<close>: the start, the signals and the passes of the loop).
    \<^item> \<open>ShmTools\<close> models the programs beside the terminal in \<open>2.Tool\<close>: the simulator of the hardware
      (\<open>wdd_shm_test.c\<close>) and the pair that hands texts over in shared memory (\<open>shm_slave.c\<close>, \<open>shm_master.c\<close>).
    \<^item> \<open>Zlog\<close> and \<open>Logger\<close> model \<open>log/source/zlog.c\<close> and \<open>logger.c\<close>, the console log with its filter and dumps
      and the lines for the system log.

  \<^bold>\<open>How state and failure are modelled.\<close>  A structure is a record with the fields of the source, an
  enumeration a datatype, a character array a list of its full length, memory a map from addresses.
  Operations take the state and return it.  \<open>None\<close> is undefined behaviour (an access outside an array
  or a freed block, an overflowing write, a null pointer, signed overflow) or, for loops that are
  partial functions, a loop that does not end; the errors the source reports are values.  So a theorem
  that an operation gives \<open>Some\<close> says that it is safe and ends.  Machine integers are words where they
  wrap (\<open>ratelimit_connects\<close>, the fields of the log filter), and integers with the bounds written out
  elsewhere.  What the program gets from outside is an argument: the clock, the calls on files and shared
  memory, the answers of the websocket library (\<open>lws_may_call\<close> states when it may call back), the
  allocator, and the signedness of \<open>char\<close>.

  \<^bold>\<open>What is shown.\<close>
    \<^item> The terminal as a whole (\<open>MainLoop\<close>): from the start of \<open>main\<close> on (the mount of the segment, the loading of
      the configuration, the options, the client), after any interleaving of passes, signals and steps
      of the other threads the next pass is defined, brings the readings into the cache and into a frame for the
      host, leaves nothing pending and gives back all memory.  It rests on the theorems of the parts:
      the monitor refreshes exactly the parameters that differ, the report lists exactly the updated ones, the
      frame carries its bytes, and the client delivers it.
    \<^item> JSON: parsing never touches memory it does not own (except in the case of a truncated escape,
      which is exhibited), accepts the grammar and yields its value, frees what it built when it fails;
      deletion frees exactly the tree; printing fills the buffers it sized; printing then parsing is the
      identity on values; the list operations refine those on lists.
    \<^item> Tables, types, times, rates, files: grids keep their shape, names and times survive a round trip,
      the rate limit spaces admissions, reading keeps its contract on every error.
    \<^item> Configuration: reading a file ends unless reads fail, loading is a function of the JSON value, and the
      generated file is one the loader accepts, with the device it then has.
    \<^item> The client: safe in every interleaving, a message is reported once, a close ends the service except when
      it comes before the thread started.  The logs: the filter is its specification, a dump can be read back.
    \<^item> The simulator (\<open>ShmTools\<close>): its rounds never overflow, and the segment it writes always meets what the
      terminal assumes of it, so the theorem of the terminal applies to the two programs together; the
      handover of texts keeps their order, and loses at most the first and the last.
    \<^item> Where the code is wrong, a lemma shows the case (the findings of the manifest name it).

  \<^bold>\<open>Fuel.\<close>  The functions of the parser call each other through one function with one unit of fuel a
  call; \<open>parse_fuel\<close> is twice the length of the text, and every two calls read a character.  The printer and
  the duplication have fuel for the depth of the tree: as many units as addresses were handed out, which
  no tree exceeds.  The theorems give results and not only properties of results, so the fuel is
  enough.  All other recursions are structural or partial functions.

  \<^bold>\<open>Not modelled.\<close>  The headers of libwebsockets (a library; the calls are recorded or parameters), the test
  server \<open>2.Tool/ws_server_test\<close> (it prints what arrives and returns 0), the commented out \<open>srv_hardwar_bak.c\<close>, the constants of \<open>log.h\<close>, and log output except
  for the two loggers themselves.  A pass of the main loop and a callback are single steps: the order of
  the accesses of two threads inside them is not, except for the business thread, whose steps are its
  accesses to the shared record.  Sleeping, and the mutex around a console line, are left out.
\<close>

end
